(* ===== verification/Prelude.thy ===== *)
theory Prelude
  imports Main "HOL-Library.Word" "HOL-Library.Char_ord" "HOL-Library.List_Lexorder"
begin

text \<open>
  Shared vocabulary of the development: the machine types of the C++ code, the shape of its
  counted loops, and the generic lemmas on lists, machine words and halving that more than one
  component needs. A byte of the code (\<open>char\<close>, \<open>uint8_t\<close>) is HOL's \<open>char\<close>, an eight-bit
  value; a \<open>std::string\<close> and a byte buffer are both lists of such bytes.
\<close>

unbundle bit_operations_syntax

type_synonym u16 = "16 word"
type_synonym u32 = "32 word"
type_synonym u64 = "64 word"
type_synonym byte = char
type_synonym bytes = "char list"

named_theorems length_simps "lengths of the buffers and lists the operations build"
named_theorems word_read "reading a field back out of an encoded buffer"
named_theorems step_defs "definitions of the state-changing operations"

subsection \<open>Counted loops\<close>

text \<open>The indices of \<open>for (int i = lo; i < hi; i += step)\<close>.\<close>

definition loop_range :: "nat \<Rightarrow> nat \<Rightarrow> nat \<Rightarrow> nat list" where
  "loop_range lo hi step = map (\<lambda>k. lo + k * step) [0..<(hi - lo + step - 1) div step]"

lemma loop_range_1 [simp]: "loop_range lo hi 1 = [lo..<hi]" "loop_range lo hi (Suc 0) = [lo..<hi]"
  by (auto simp: loop_range_def intro!: nth_equalityI)

lemma fold_nested:
  "fold (\<lambda>b. fold f (g b)) bs = fold f (concat (map g bs))"
  by (induction bs) auto

subsection \<open>Words\<close>

lemma u64_max: "(0xFFFFFFFFFFFFFFFF :: u64) = - 1"
  by simp

lemma bit_push_one [simp]: "bit (push_bit i (1::'a::len word)) j \<longleftrightarrow> i = j \<and> j < LENGTH('a)"
  by (auto simp: bit_simps)

lemma unat_u64 [simp]: "n < 2 ^ 64 \<Longrightarrow> unat (word_of_nat n :: u64) = n"
  by (simp add: unat_of_nat take_bit_nat_eq_self)

lemma unat_u32 [simp]: "n < 2 ^ 32 \<Longrightarrow> unat (word_of_nat n :: u32) = n"
  by (simp add: unat_of_nat take_bit_nat_eq_self)

lemma unat_u32_less: "unat (w :: u32) < 4294967296"
  using unsigned_less[of w, where ?'a = nat] by simp

lemma unat_ucast_u32 [simp]: "unat (ucast (w :: u32) :: u64) = unat w"
  using unat_u32_less[of w] by (simp add: unsigned_ucast_eq take_bit_nat_eq_self)

lemma unat_add_u64: "unat a + unat b < 2 ^ 64 \<Longrightarrow> unat (a + b :: u64) = unat a + unat b"
  by (simp add: unat_word_ariths)

subsection \<open>Halving\<close>

text \<open>How quotient and remainder by \<open>h\<close> and by \<open>2 * h\<close> determine each other.\<close>

lemma div_mod_unique:
  assumes "x = q * n + r" "r < (n::nat)"
  shows "x div n = q" "x mod n = r"
  using assms by simp_all

lemma div_mod_half_lo:
  assumes "x mod (2 * h) < (h::nat)"
  shows "x mod (2 * h) = x mod h" "x div h = 2 * (x div (2 * h))"
    "(x + h) div (2 * h) = x div (2 * h)" "(x + h) mod (2 * h) = x mod h + h"
proof -
  define q r where "q = x div (2 * h)" and "r = x mod (2 * h)"
  have x: "x = q * (2 * h) + r" by (simp only: q_def r_def div_mult_mod_eq)
  have r: "r < h" using assms by (simp add: r_def)
  have xh: "x div h = 2 * q" "x mod h = r"
    by (rule div_mod_unique[of _ "2 * q" h r]; use x r in simp)+
  have y: "(x + h) div (2 * h) = q" "(x + h) mod (2 * h) = r + h"
    by (rule div_mod_unique[of _ q "2 * h" "r + h"]; use x r in simp)+
  show "x mod (2 * h) = x mod h" "x div h = 2 * (x div (2 * h))"
    "(x + h) div (2 * h) = x div (2 * h)" "(x + h) mod (2 * h) = x mod h + h"
    using xh y by (simp_all add: q_def r_def)
qed

lemma div_mod_half_hi:
  assumes "\<not> x mod (2 * h) < (h::nat)" "0 < h"
  shows "x mod (2 * h) = x mod h + h" "x div h = 2 * (x div (2 * h)) + 1" "h \<le> x"
    "(x - h) div (2 * h) = x div (2 * h)" "(x - h) mod (2 * h) = x mod h"
proof -
  define q r where "q = x div (2 * h)" and "r = x mod (2 * h) - h"
  have m: "h \<le> x mod (2 * h)" "x mod (2 * h) < 2 * h" using assms by simp_all
  have "x = q * (2 * h) + x mod (2 * h)" by (simp only: q_def div_mult_mod_eq)
  then have x: "x = q * (2 * h) + (r + h)" using m by (simp add: r_def)
  have r: "r < h" using m by (simp add: r_def)
  have le: "h \<le> x" using x by linarith
  have xh: "x div h = 2 * q + 1" "x mod h = r"
    by (rule div_mod_unique[of _ "2 * q + 1" h r]; use x r in simp)+
  have y: "(x - h) div (2 * h) = q" "(x - h) mod (2 * h) = r"
    by (rule div_mod_unique[of _ q "2 * h" r]; use x r in simp)+
  show "x mod (2 * h) = x mod h + h" "x div h = 2 * (x div (2 * h)) + 1" "h \<le> x"
    "(x - h) div (2 * h) = x div (2 * h)" "(x - h) mod (2 * h) = x mod h"
    using xh y le m by (simp_all add: q_def r_def)
qed

lemma map_nth_upt: "n = length xs \<Longrightarrow> map (\<lambda>i. f (xs ! i)) [0..<n] = map f xs"
  by (rule nth_equalityI) simp_all

subsection \<open>Errors as values\<close>

text \<open>
  An operation that may throw returns a sum: \<open>Inl\<close> the exception, \<open>Inr\<close> the value. \<open>ebind\<close> runs
  the rest of the function on the value and lets an exception leave it.
\<close>

definition ebind :: "'e + 'a \<Rightarrow> ('a \<Rightarrow> 'e + 'b) \<Rightarrow> 'e + 'b" where
  "ebind m f = (case m of Inl e \<Rightarrow> Inl e | Inr a \<Rightarrow> f a)"

lemma ebind_simps [simp]: "ebind (Inl e) f = Inl e" "ebind (Inr a) f = f a"
  by (simp_all add: ebind_def)

lemma ebind_eq_Inr: "ebind m f = Inr b \<longleftrightarrow> (\<exists>a. m = Inr a \<and> f a = Inr b)"
  by (cases m) auto

lemma ebind_eq_Inl: "ebind m f = Inl e \<longleftrightarrow> m = Inl e \<or> (\<exists>a. m = Inr a \<and> f a = Inl e)"
  by (cases m) auto

definition guard :: "bool \<Rightarrow> 'e \<Rightarrow> 'e + unit" where
  "guard b e = (if b then Inr () else Inl e)"

lemma guard_simps [simp]: "guard True e = Inr ()" "guard False e = Inl e"
  by (simp_all add: guard_def)

text \<open>A loop whose body may throw, collecting its results.\<close>

fun emap :: "('a \<Rightarrow> 'e + 'b) \<Rightarrow> 'a list \<Rightarrow> 'e + 'b list" where
  "emap f [] = Inr []"
| "emap f (x # xs) = ebind (f x) (\<lambda>y. ebind (emap f xs) (\<lambda>ys. Inr (y # ys)))"

lemma emap_Inr: "(\<And>x. x \<in> set xs \<Longrightarrow> f x = Inr (g x)) \<Longrightarrow> emap f xs = Inr (map g xs)"
  by (induction xs) simp_all

lemma emap_eq_Inr: "emap f xs = Inr ys \<longleftrightarrow> list_all2 (\<lambda>x y. f x = Inr y) xs ys"
  by (induction xs arbitrary: ys) (auto simp: ebind_eq_Inr list_all2_Cons1)

subsection \<open>Little-endian fields\<close>

text \<open>
  \<open>memcpy\<close> between an unsigned integer and bytes on the little-endian hosts the code targets:
  the least significant byte comes first.
\<close>

fun le_bytes :: "nat \<Rightarrow> nat \<Rightarrow> bytes" where
  "le_bytes 0 x = []"
| "le_bytes (Suc n) x = char_of (x mod 256) # le_bytes n (x div 256)"

fun le_value :: "bytes \<Rightarrow> nat" where
  "le_value [] = 0"
| "le_value (b # bs) = of_char b + 256 * le_value bs"

definition put_u32 :: "u32 \<Rightarrow> bytes" where "put_u32 w = le_bytes 4 (unat w)"
definition put_u64 :: "u64 \<Rightarrow> bytes" where "put_u64 w = le_bytes 8 (unat w)"
definition get_u32 :: "bytes \<Rightarrow> u32" where "get_u32 bs = word_of_nat (le_value (take 4 bs))"
definition get_u64 :: "bytes \<Rightarrow> u64" where "get_u64 bs = word_of_nat (le_value (take 8 bs))"

lemma length_le_bytes [simp, length_simps]: "length (le_bytes n x) = n"
  by (induction n arbitrary: x) auto

lemma le_value_le_bytes: "le_value (le_bytes n x) = x mod 256 ^ n"
proof (induction n arbitrary: x)
  case 0 then show ?case by simp
next
  case (Suc n)
  have "le_value (le_bytes (Suc n) x) = x mod 256 + 256 * ((x div 256) mod 256 ^ n)"
    using Suc by simp
  also have "\<dots> = x mod 256 ^ Suc n" by (simp add: mod_mult2_eq)
  finally show ?case .
qed

lemma le_value_append: "le_value (xs @ ys) = le_value xs + 256 ^ length xs * le_value ys"
  by (induction xs) (auto simp: algebra_simps)

lemma length_put [simp, length_simps]: "length (put_u32 w) = 4" "length (put_u64 v) = 8"
  by (simp_all add: put_u32_def put_u64_def)

lemma get_put [simp, word_read]:
  "get_u32 (put_u32 w) = w" "get_u64 (put_u64 v) = v"
  "get_u32 (put_u32 w @ bs) = w" "get_u64 (put_u64 v @ bs) = v"
  by (simp_all add: get_u32_def get_u64_def put_u32_def put_u64_def le_value_le_bytes
      unsigned_less[of w, simplified] unsigned_less[of v, simplified])

lemma drop_words: "i < length ws \<Longrightarrow> drop (8 * i) (concat (map put_u64 ws)) =
    put_u64 (ws ! i) @ concat (map put_u64 (drop (Suc i) ws))"
proof (induction ws arbitrary: i)
  case Nil then show ?case by simp
next
  case (Cons w ws) then show ?case by (cases i) simp_all
qed

lemma get_words:
  "map (\<lambda>i. get_u64 (drop (8 * i) (concat (map put_u64 ws)))) [0..<length ws] = ws"
  by (rule nth_equalityI) (simp_all add: drop_words)

subsection \<open>Sub-ranges of a buffer\<close>

text \<open>\<open>holds_at data off bs\<close>: the bytes \<open>bs\<close> stand in \<open>data\<close> at offset \<open>off\<close>.\<close>

definition holds_at :: "'a list \<Rightarrow> nat \<Rightarrow> 'a list \<Rightarrow> bool" where
  "holds_at data off bs \<longleftrightarrow> off + length bs \<le> length data \<and> take (length bs) (drop off data) = bs"

lemma holds_at_append:
  "holds_at data off (xs @ ys) \<longleftrightarrow> holds_at data off xs \<and> holds_at data (off + length xs) ys"
  by (auto simp: holds_at_def take_add add.commute add.left_commute)

lemma holds_at_self: "holds_at data 0 data"
  by (simp add: holds_at_def)

lemma holds_atD:
  "holds_at data off bs \<Longrightarrow> off + length bs \<le> length data"
  "holds_at data off bs \<Longrightarrow> take (length bs) (drop off data) = bs"
  by (simp_all add: holds_at_def)

end
