(* ===== verification/Transposer.thy ===== *)
theory Transposer
  imports Prelude
begin

text \<open>
  The bit-matrix transposition of \<open>src/lex/ingest/simd_transposer.cpp\<close>. A tile of 64 scalars
  of 64 bits is a matrix of bits, stored as a list of 64 words; \<open>Transpose64_Scalar\<close> exchanges
  ever smaller blocks across the diagonal in six in-place stages, and the NEON path does the same
  on 32 vectors of two words. The main facts: the six stages transpose the matrix, the two paths
  agree, and \<open>greengate_butterfly_transpose\<close> inverts \<open>SimdTransposer::Transpose64\<close>.
\<close>

subsection \<open>The scalar path\<close>

text \<open>
  The loop body all stages share: with shift \<open>s\<close> and mask \<open>m\<close>,
  \<open>t = ((A[i] >> s) ^ A[i + s]) & m; A[i + s] ^= t; A[i] ^= (t << s)\<close>.
\<close>

definition swap_step :: "nat \<Rightarrow> u64 \<Rightarrow> nat \<Rightarrow> u64 list \<Rightarrow> u64 list" where
  "swap_step s m i A =
     (let t = (drop_bit s (A ! i) XOR A ! (i + s)) AND m;
          A1 = A[i + s := A ! (i + s) XOR t]
      in A1[i := A1 ! i XOR push_bit s t])"

definition stage5 :: "u64 list \<Rightarrow> u64 list" where
  "stage5 A = fold (swap_step 32 0x00000000FFFFFFFF) (loop_range 0 32 1) A"

definition stage4 :: "u64 list \<Rightarrow> u64 list" where
  "stage4 A = fold (\<lambda>block. fold (swap_step 16 0x0000FFFF0000FFFF) (loop_range block (block + 16) 1))
     (loop_range 0 64 32) A"

definition stage3 :: "u64 list \<Rightarrow> u64 list" where
  "stage3 A = fold (\<lambda>block. fold (swap_step 8 0x00FF00FF00FF00FF) (loop_range block (block + 8) 1))
     (loop_range 0 64 16) A"

definition stage2 :: "u64 list \<Rightarrow> u64 list" where
  "stage2 A = fold (\<lambda>block. fold (swap_step 4 0x0F0F0F0F0F0F0F0F) (loop_range block (block + 4) 1))
     (loop_range 0 64 8) A"

definition stage1 :: "u64 list \<Rightarrow> u64 list" where
  "stage1 A = fold (\<lambda>block. fold (swap_step 2 0x3333333333333333) (loop_range block (block + 2) 1))
     (loop_range 0 64 4) A"

definition stage0 :: "u64 list \<Rightarrow> u64 list" where
  "stage0 A = fold (swap_step 1 0x5555555555555555) (loop_range 0 64 2) A"

definition transpose64_scalar :: "u64 list \<Rightarrow> u64 list" where
  "transpose64_scalar A = stage0 (stage1 (stage2 (stage3 (stage4 (stage5 A)))))"

text \<open>The validity plane: all ones without a mask, else the bits of the mask.\<close>

definition validity_plane :: "bool list option \<Rightarrow> u64" where
  "validity_plane valid_mask = (case valid_mask of
      None \<Rightarrow> 0xFFFFFFFFFFFFFFFF
    | Some vm \<Rightarrow> fold (\<lambda>i val_plane. if vm ! i then val_plane OR push_bit i 1 else val_plane)
        (loop_range 0 64 1) 0)"

definition transpose64 :: "u64 list \<Rightarrow> bool list option \<Rightarrow> u64 list \<times> u64" where
  "transpose64 data valid_mask = (transpose64_scalar data, validity_plane valid_mask)"

definition greengate_butterfly_transpose :: "u64 list \<Rightarrow> u64 list" where
  "greengate_butterfly_transpose in_planes = fst (transpose64 in_planes None)"

subsection \<open>The NEON path\<close>

text \<open>
  A \<open>uint64x2_t\<close> is a pair of lanes; \<open>vandq\<close>, \<open>veorq\<close>, \<open>vshrq_n\<close> and \<open>vshlq_n\<close> work on
  each lane. Stages 5 to 1 exchange whole vectors, stage 0 exchanges the two lanes of one.
\<close>

type_synonym u64x2 = "u64 \<times> u64"

definition vandq :: "u64x2 \<Rightarrow> u64x2 \<Rightarrow> u64x2" where
  "vandq a b = (fst a AND fst b, snd a AND snd b)"

definition veorq :: "u64x2 \<Rightarrow> u64x2 \<Rightarrow> u64x2" where
  "veorq a b = (fst a XOR fst b, snd a XOR snd b)"

definition vshrq_n :: "u64x2 \<Rightarrow> nat \<Rightarrow> u64x2" where
  "vshrq_n a n = (drop_bit n (fst a), drop_bit n (snd a))"

definition vshlq_n :: "u64x2 \<Rightarrow> nat \<Rightarrow> u64x2" where
  "vshlq_n a n = (push_bit n (fst a), push_bit n (snd a))"

definition vdupq_n :: "u64 \<Rightarrow> u64x2" where
  "vdupq_n w = (w, w)"

definition neon_step :: "nat \<Rightarrow> nat \<Rightarrow> u64 \<Rightarrow> nat \<Rightarrow> u64x2 list \<Rightarrow> u64x2 list" where
  "neon_step d s m k q =
     (let va = q ! k; vb = q ! (k + d);
          vt = vandq (veorq (vshrq_n va s) vb) (vdupq_n m);
          q1 = q[k + d := veorq vb vt]
      in q1[k := veorq va (vshlq_n vt s)])"

definition neon_stage5 :: "u64x2 list \<Rightarrow> u64x2 list" where
  "neon_stage5 q = fold (neon_step 16 32 0x00000000FFFFFFFF) (loop_range 0 16 1) q"

definition neon_stage4 :: "u64x2 list \<Rightarrow> u64x2 list" where
  "neon_stage4 q = fold (\<lambda>block. fold (neon_step 8 16 0x0000FFFF0000FFFF) (loop_range block (block + 8) 1))
     (loop_range 0 32 16) q"

definition neon_stage3 :: "u64x2 list \<Rightarrow> u64x2 list" where
  "neon_stage3 q = fold (\<lambda>block. fold (neon_step 4 8 0x00FF00FF00FF00FF) (loop_range block (block + 4) 1))
     (loop_range 0 32 8) q"

definition neon_stage2 :: "u64x2 list \<Rightarrow> u64x2 list" where
  "neon_stage2 q = fold (\<lambda>block. fold (neon_step 2 4 0x0F0F0F0F0F0F0F0F) (loop_range block (block + 2) 1))
     (loop_range 0 32 4) q"

definition neon_stage1 :: "u64x2 list \<Rightarrow> u64x2 list" where
  "neon_stage1 q = fold (neon_step 1 2 0x3333333333333333) (loop_range 0 32 2) q"

definition neon_lane_step :: "nat \<Rightarrow> u64x2 list \<Rightarrow> u64x2 list" where
  "neon_lane_step k q =
     (let shifted = vshrq_n (q ! k) 1;
          swapped = (snd (q ! k), fst (q ! k));
          t_vec = vandq (veorq shifted swapped) (vdupq_n 0x5555555555555555);
          t_left = vshlq_n t_vec 1;
          t_final = (fst t_left, fst t_vec)
      in q[k := veorq (q ! k) t_final])"

definition neon_stage0 :: "u64x2 list \<Rightarrow> u64x2 list" where
  "neon_stage0 q = fold neon_lane_step (loop_range 0 32 1) q"

definition neon_load :: "u64 list \<Rightarrow> u64x2 list" where
  "neon_load data = map (\<lambda>i. (data ! (2 * i), data ! (2 * i + 1))) (loop_range 0 32 1)"

definition neon_store :: "u64x2 list \<Rightarrow> u64 list" where
  "neon_store q = concat (map (\<lambda>i. [fst (q ! i), snd (q ! i)]) (loop_range 0 32 1))"

definition transpose64_neon :: "u64 list \<Rightarrow> u64 list" where
  "transpose64_neon data = neon_store (neon_stage0 (neon_stage1 (neon_stage2
     (neon_stage3 (neon_stage4 (neon_stage5 (neon_load data)))))))"


subsection \<open>One stage exchanges off-diagonal blocks\<close>

lemma length_swap_step [simp, length_simps]: "length (swap_step s m i A) = length A"
  by (simp add: swap_step_def Let_def)

lemma length_fold_swap_step [simp, length_simps]: "length (fold (swap_step s m) is A) = length A"
  by (induction "is" arbitrary: A) simp_all

text \<open>The word \<open>t\<close> of the loop body.\<close>

definition swap_word :: "nat \<Rightarrow> u64 \<Rightarrow> u64 list \<Rightarrow> nat \<Rightarrow> u64" where
  "swap_word s m A i = (drop_bit s (A ! i) XOR A ! (i + s)) AND m"

lemma nth_swap_step:
  assumes "s > 0" "i + s < length A" "r < length A"
  shows "swap_step s m i A ! r =
    (if r = i then A ! i XOR push_bit s (swap_word s m A i)
     else if r = i + s then A ! (i + s) XOR swap_word s m A i else A ! r)"
  using assms by (auto simp: swap_step_def swap_word_def Let_def nth_list_update)

lemma nth_fold_swap_step:
  assumes "s > 0" "distinct is" "\<forall>i\<in>set is. i + s < length A" "\<forall>i\<in>set is. i + s \<notin> set is"
    "r < length A"
  shows "fold (swap_step s m) is A ! r =
    (if r \<in> set is then A ! r XOR push_bit s (swap_word s m A r)
     else if s \<le> r \<and> r - s \<in> set is then A ! r XOR swap_word s m A (r - s) else A ! r)"
  using assms
proof (induction "is" arbitrary: A)
  case Nil then show ?case by simp
next
  case (Cons i js)
  let ?B = "swap_step s m i A"
  have nB: "\<And>r. r < length A \<Longrightarrow> ?B ! r = (if r = i then A ! i XOR push_bit s (swap_word s m A i)
     else if r = i + s then A ! (i + s) XOR swap_word s m A i else A ! r)"
    using Cons.prems by (intro nth_swap_step) auto
  have wB: "swap_word s m ?B k = swap_word s m A k" if "k \<in> set js" for k
    using Cons.prems that nB by (auto simp: swap_word_def)
  have IH: "fold (swap_step s m) js ?B ! r =
    (if r \<in> set js then ?B ! r XOR push_bit s (swap_word s m ?B r)
     else if s \<le> r \<and> r - s \<in> set js then ?B ! r XOR swap_word s m ?B (r - s) else ?B ! r)"
    using Cons.prems by (intro Cons.IH) auto
  show ?case
    using Cons.prems by (auto simp: IH wB nB)
qed

text \<open>
  A stage of shift \<open>s\<close> visits the rows of the upper half of every block of \<open>2 * s\<close> rows, and its
  mask selects the lower half of every block of \<open>2 * s\<close> columns.
\<close>

definition stage_indices :: "nat \<Rightarrow> nat list \<Rightarrow> bool" where
  "stage_indices s is \<longleftrightarrow> is = filter (\<lambda>r. r mod (2 * s) < s) [0..<64] \<and>
     (\<forall>r\<in>set is. r + s < 64)"

definition stage_mask :: "nat \<Rightarrow> u64 \<Rightarrow> bool" where
  "stage_mask s m \<longleftrightarrow> (\<forall>c\<in>set [0..<64]. bit m c \<longleftrightarrow> c mod (2 * s) < s)"

lemma bit_stage:
  assumes s: "s > 0" and "is": "stage_indices s is" and ms: "stage_mask s m"
    and len: "length A = 64" and r: "r < 64" and c: "c < 64"
  shows "bit (fold (swap_step s m) is A ! r) c =
    (if (r mod (2*s) < s) = (c mod (2*s) < s) then bit (A ! r) c
     else if r mod (2*s) < s then bit (A ! (r + s)) (c - s) else bit (A ! (r - s)) (c + s))"
proof -
  have set_is: "r \<in> set is \<longleftrightarrow> r < 64 \<and> r mod (2*s) < s" for r
    using "is" by (auto simp: stage_indices_def)
  have dist: "distinct is" using "is" by (auto simp: stage_indices_def)
  have bound: "r \<in> set is \<Longrightarrow> r + s < 64" for r
    using "is" by (auto simp: stage_indices_def)
  have m: "\<And>c. c < 64 \<Longrightarrow> bit m c \<longleftrightarrow> c mod (2*s) < s" using ms by (simp add: stage_mask_def)
  have lo: "x mod (2*s) < s \<Longrightarrow> \<not> (x + s) mod (2*s) < s" for x
    by (simp add: div_mod_half_lo(4))
  have hi: "s \<le> x \<and> (x - s) mod (2*s) < s" if "\<not> x mod (2*s) < s" for x
    using div_mod_half_hi(3,5)[OF that s] s by simp
  have n: "fold (swap_step s m) is A ! r =
    (if r \<in> set is then A ! r XOR push_bit s (swap_word s m A r)
     else if s \<le> r \<and> r - s \<in> set is then A ! r XOR swap_word s m A (r - s) else A ! r)"
    by (rule nth_fold_swap_step) (use s dist bound lo set_is len r in auto)
  show ?thesis
  proof (cases "r mod (2*s) < s")
    case True
    then have mem: "r \<in> set is" using set_is r by simp
    show ?thesis
    proof (cases "c mod (2*s) < s")
      case T: True
      have "\<not> bit (push_bit s (swap_word s m A r)) c"
      proof
        assume "bit (push_bit s (swap_word s m A r)) c"
        then have "s \<le> c" "bit m (c - s)" by (auto simp: bit_simps swap_word_def)
        then have "(c - s) mod (2*s) < s" using m c by simp
        then show False using lo[of "c - s"] T \<open>s \<le> c\<close> by simp
      qed
      then show ?thesis using True T n mem by (simp add: bit_simps)
    next
      case F: False
      then show ?thesis using True n mem hi[OF F] c m[of "c-s"]
        by (auto simp add: bit_simps swap_word_def)
    qed
  next
    case False
    then have nin: "r \<notin> set is" "s \<le> r" "r - s \<in> set is" using set_is r hi[OF False] by auto
    show ?thesis
    proof (cases "c mod (2*s) < s")
      case T: True
      then show ?thesis using False n nin c m[of c] bound[of c] set_is[of c]
        by (auto simp add: bit_simps swap_word_def add.commute[of s c])
    next
      case F: False
      then show ?thesis using False n nin m[of c] c by (simp add: bit_simps swap_word_def)
    qed
  qed
qed

text \<open>
  \<open>swapped_upto s A B\<close>: the matrix \<open>B\<close> is \<open>A\<close> with row and column exchanged down to blocks
  of size \<open>s\<close>; at \<open>s = 64\<close> nothing has moved, at \<open>s = 1\<close> the matrix is transposed.
\<close>

definition swapped_upto :: "nat \<Rightarrow> u64 list \<Rightarrow> u64 list \<Rightarrow> bool" where
  "swapped_upto s A B \<longleftrightarrow> length B = 64 \<and> (\<forall>r<64. \<forall>c<64.
     bit (B ! r) c = bit (A ! (c div s * s + r mod s)) (r div s * s + c mod s))"

lemma swapped_upto_stage:
  assumes prev: "swapped_upto (2 * s) A B" and s: "s > 0" and "is": "stage_indices s is"
    and ms: "stage_mask s m"
  shows "swapped_upto s A (fold (swap_step s m) is B)"
proof -
  have len: "length B = 64" using prev by (simp add: swapped_upto_def)
  have P: "bit (B ! r) c =
      bit (A ! (c div (2*s) * (2*s) + r mod (2*s))) (r div (2*s) * (2*s) + c mod (2*s))"
    if "r < 64" "c < 64" for r c using prev that by (simp add: swapped_upto_def)
  have up: "x + s < 64" if "x < 64" "x mod (2*s) < s" for x
    using "is" that by (auto simp: stage_indices_def)
  have "bit (fold (swap_step s m) is B ! r) c =
      bit (A ! (c div s * s + r mod s)) (r div s * s + c mod s)" if r: "r < 64" and c: "c < 64" for r c
    using div_mod_half_lo[of r s] div_mod_half_lo[of c s]
      div_mod_half_hi[of r s] div_mod_half_hi[of c s] s r c up[of r] up[of c]
    by (cases "r mod (2 * s) < s"; cases "c mod (2 * s) < s")
       (simp_all add: bit_stage[OF s "is" ms len r c] P algebra_simps)
  then show ?thesis using len by (simp add: swapped_upto_def)
qed

subsection \<open>Six stages transpose\<close>

lemma stage_indices_code:
  "stage_indices 32 (loop_range 0 32 1)"
  "stage_indices 16 (concat (map (\<lambda>block. loop_range block (block + 16) 1) (loop_range 0 64 32)))"
  "stage_indices 8 (concat (map (\<lambda>block. loop_range block (block + 8) 1) (loop_range 0 64 16)))"
  "stage_indices 4 (concat (map (\<lambda>block. loop_range block (block + 4) 1) (loop_range 0 64 8)))"
  "stage_indices 2 (concat (map (\<lambda>block. loop_range block (block + 2) 1) (loop_range 0 64 4)))"
  "stage_indices 1 (loop_range 0 64 2)"
  by code_simp+

lemma stage_mask_code:
  "stage_mask 32 0x00000000FFFFFFFF" "stage_mask 16 0x0000FFFF0000FFFF"
  "stage_mask 8 0x00FF00FF00FF00FF" "stage_mask 4 0x0F0F0F0F0F0F0F0F"
  "stage_mask 2 0x3333333333333333" "stage_mask 1 0x5555555555555555"
  by code_simp+

lemma swapped_upto_64: "length A = 64 \<Longrightarrow> swapped_upto 64 A A"
  by (simp add: swapped_upto_def)

lemma swapped_upto_stages:
  "swapped_upto 64 A B \<Longrightarrow> swapped_upto 32 A (stage5 B)"
  "swapped_upto 32 A B \<Longrightarrow> swapped_upto 16 A (stage4 B)"
  "swapped_upto 16 A B \<Longrightarrow> swapped_upto 8 A (stage3 B)"
  "swapped_upto 8 A B \<Longrightarrow> swapped_upto 4 A (stage2 B)"
  "swapped_upto 4 A B \<Longrightarrow> swapped_upto 2 A (stage1 B)"
  "swapped_upto 2 A B \<Longrightarrow> swapped_upto 1 A (stage0 B)"
  unfolding stage5_def stage4_def stage3_def stage2_def stage1_def stage0_def fold_nested
  using swapped_upto_stage[OF _ _ stage_indices_code(1) stage_mask_code(1), of A B]
    swapped_upto_stage[OF _ _ stage_indices_code(2) stage_mask_code(2), of A B]
    swapped_upto_stage[OF _ _ stage_indices_code(3) stage_mask_code(3), of A B]
    swapped_upto_stage[OF _ _ stage_indices_code(4) stage_mask_code(4), of A B]
    swapped_upto_stage[OF _ _ stage_indices_code(5) stage_mask_code(5), of A B]
    swapped_upto_stage[OF _ _ stage_indices_code(6) stage_mask_code(6), of A B]
  by simp_all

lemma swapped_upto_scalar: "length A = 64 \<Longrightarrow> swapped_upto 1 A (transpose64_scalar A)"
  unfolding transpose64_scalar_def by (intro swapped_upto_stages swapped_upto_64)

lemma length_transpose64_scalar [simp, length_simps]:
  "length A = 64 \<Longrightarrow> length (transpose64_scalar A) = 64"
  using swapped_upto_scalar by (simp add: swapped_upto_def)

lemma bit_transpose64_scalar:
  "length A = 64 \<Longrightarrow> r < 64 \<Longrightarrow> c < 64 \<Longrightarrow> bit (transpose64_scalar A ! r) c = bit (A ! c) r"
  using swapped_upto_scalar[of A] by (simp add: swapped_upto_def)

subsection \<open>The NEON path computes the scalar path\<close>

text \<open>The words a list of vectors holds, in memory order.\<close>

definition lanes :: "u64x2 list \<Rightarrow> u64 list" where
  "lanes q = concat (map (\<lambda>p. [fst p, snd p]) q)"

lemma lanes_simps [simp]: "lanes [] = []" "lanes (p # q) = fst p # snd p # lanes q"
  by (simp_all add: lanes_def)

lemma length_lanes [simp, length_simps]: "length (lanes q) = 2 * length q"
  by (induction q) auto

lemma nth_lanes:
  "k < length q \<Longrightarrow> lanes q ! (2 * k) = fst (q ! k)"
  "k < length q \<Longrightarrow> lanes q ! (2 * k + 1) = snd (q ! k)"
  by (induction q arbitrary: k) (auto simp: nth_Cons split: nat.splits)

lemma lanes_update:
  "k < length q \<Longrightarrow> lanes (q[k := p]) = (lanes q)[2 * k := fst p, 2 * k + 1 := snd p]"
  by (induction q arbitrary: k) (auto split: nat.splits)


lemma nth_neon_step:
  assumes "0 < d" "k + d < length q" "j < length q"
  shows "fst (neon_step d s m k q ! j) =
      (if j = k then fst (q ! k) XOR push_bit s ((drop_bit s (fst (q ! k)) XOR fst (q ! (k + d))) AND m)
       else if j = k + d then fst (q ! (k + d)) XOR ((drop_bit s (fst (q ! k)) XOR fst (q ! (k + d))) AND m)
       else fst (q ! j))"
    "snd (neon_step d s m k q ! j) =
      (if j = k then snd (q ! k) XOR push_bit s ((drop_bit s (snd (q ! k)) XOR snd (q ! (k + d))) AND m)
       else if j = k + d then snd (q ! (k + d)) XOR ((drop_bit s (snd (q ! k)) XOR snd (q ! (k + d))) AND m)
       else snd (q ! j))"
  using assms
  by (auto simp: neon_step_def Let_def nth_list_update vandq_def veorq_def vshrq_n_def vshlq_n_def vdupq_n_def)

lemma length_neon_step [simp, length_simps]: "length (neon_step d s m k q) = length q"
  by (simp add: neon_step_def Let_def)

lemma lanes_eqI:
  assumes "length A = 2 * length q"
    "\<And>j. j < length q \<Longrightarrow> A ! (2 * j) = fst (q ! j) \<and> A ! (2 * j + 1) = snd (q ! j)"
  shows "lanes q = A"
proof (rule nth_equalityI)
  show "length (lanes q) = length A" using assms(1) by simp
next
  fix i assume "i < length (lanes q)"
  then show "lanes q ! i = A ! i"
    using assms(2)[of "i div 2"] nth_lanes[of "i div 2" q]
    by (cases "even i") (auto elim!: evenE oddE)
qed

lemma swap_step_twice:
  assumes "2 \<le> s" "i + 1 + s < length A" "r < length A"
  shows "swap_step s m (i + 1) (swap_step s m i A) ! r =
    (if r = i \<or> r = i + 1 then A ! r XOR push_bit s (swap_word s m A r)
     else if r = i + s \<or> r = i + s + 1 then A ! r XOR swap_word s m A (r - s) else A ! r)"
  using nth_fold_swap_step[of s "[i, i + 1]" A r m] assms by auto

lemma lanes_neon_step:
  assumes "0 < d" "k + d < length q" "s = 2 * d"
  shows "lanes (neon_step d s m k q) = swap_step s m (2 * k + 1) (swap_step s m (2 * k) (lanes q))"
proof (rule lanes_eqI)
  show "length (swap_step s m (2 * k + 1) (swap_step s m (2 * k) (lanes q))) = 2 * length (neon_step d s m k q)"
    by simp
next
  fix j assume "j < length (neon_step d s m k q)"
  then have j: "j < length q" by simp
  have lt: "2 \<le> s" "2 * k + 1 + s < length (lanes q)" "2 * j < length (lanes q)" "2 * j + 1 < length (lanes q)"
    using assms j by auto
  have w: "swap_word s m (lanes q) (2 * i) = (drop_bit s (fst (q ! i)) XOR fst (q ! (i + d))) AND m"
    "swap_word s m (lanes q) (2 * i + 1) = (drop_bit s (snd (q ! i)) XOR snd (q ! (i + d))) AND m"
    if "i + d < length q" for i
    using that assms(3) nth_lanes[of i q] nth_lanes[of "i + d" q] by (simp_all add: swap_word_def algebra_simps)
  have odd: "2 * a \<noteq> 2 * b + 1" "2 * b + 1 \<noteq> 2 * a" for a b :: nat by presburger+
  consider "j = k" | "j = k + d" | "j \<noteq> k" "j \<noteq> k + d" by blast
  then show "swap_step s m (2 * k + 1) (swap_step s m (2 * k) (lanes q)) ! (2 * j) = fst (neon_step d s m k q ! j) \<and>
    swap_step s m (2 * k + 1) (swap_step s m (2 * k) (lanes q)) ! (2 * j + 1) = snd (neon_step d s m k q ! j)"
    unfolding swap_step_twice[OF lt(1,2,3)] swap_step_twice[OF lt(1,2,4)] nth_neon_step[OF assms(1,2) j]
    using w[OF assms(2)] nth_lanes[OF j] assms(1,3) odd
    by cases (auto simp: algebra_simps)
qed

lemma lanes_fold_neon_step:
  assumes "0 < d" "s = 2 * d" "\<forall>k\<in>set ks. k + d < length q"
  shows "lanes (fold (neon_step d s m) ks q) =
    fold (swap_step s m) (concat (map (\<lambda>k. [2 * k, 2 * k + 1]) ks)) (lanes q)"
  using assms by (induction ks arbitrary: q) (auto simp: lanes_neon_step)

lemma length_fold_neon_step [simp, length_simps]: "length (fold (neon_step d s m) ks q) = length q"
  by (induction ks arbitrary: q) auto

lemma lanes_pair_swap:
  assumes k: "k < length q"
    and p: "p = (fst (q ! k) XOR push_bit 1 ((drop_bit 1 (fst (q ! k)) XOR snd (q ! k)) AND m),
                 snd (q ! k) XOR (drop_bit 1 (fst (q ! k)) XOR snd (q ! k)) AND m)"
  shows "lanes (q[k := p]) = swap_step 1 m (2 * k) (lanes q)"
proof (rule lanes_eqI)
  show "length (swap_step 1 m (2 * k) (lanes q)) = 2 * length (q[k := p])" by simp
next
  fix j assume "j < length (q[k := p])"
  then have j: "j < length q" by simp
  have odd: "2 * a \<noteq> 2 * b + 1" "2 * b + 1 \<noteq> 2 * a" for a b :: nat by presburger+
  show "swap_step 1 m (2 * k) (lanes q) ! (2 * j) = fst (q[k := p] ! j) \<and>
    swap_step 1 m (2 * k) (lanes q) ! (2 * j + 1) = snd (q[k := p] ! j)"
    using k j odd nth_lanes[OF j] nth_lanes[OF k] p
    by (subst (1 2) nth_swap_step) (auto simp: nth_list_update swap_word_def)
qed

lemma lanes_neon_lane_step:
  assumes "k < length q"
  shows "lanes (neon_lane_step k q) = swap_step 1 0x5555555555555555 (2 * k) (lanes q)"
  unfolding neon_lane_step_def Let_def
  by (rule lanes_pair_swap[OF assms]) (simp only: vandq_def veorq_def vshrq_n_def vshlq_n_def vdupq_n_def fst_conv snd_conv)

lemma length_neon_lane_step [simp, length_simps]: "length (neon_lane_step k q) = length q"
  by (simp add: neon_lane_step_def Let_def)

lemma lanes_fold_neon_lane_step:
  assumes "\<forall>k\<in>set ks. k < length q"
  shows "lanes (fold neon_lane_step ks q) =
    fold (swap_step 1 0x5555555555555555) (map (\<lambda>k. 2 * k) ks) (lanes q)"
  using assms by (induction ks arbitrary: q) (auto simp: lanes_neon_lane_step)

lemma length_fold_neon_lane_step [simp, length_simps]: "length (fold neon_lane_step ks q) = length q"
  by (induction ks arbitrary: q) auto

text \<open>The vector indices of each NEON stage address the words of the scalar stage, in its order.\<close>

lemma neon_indices:
  "concat (map (\<lambda>k. [2 * k, 2 * k + 1]) (loop_range 0 16 1)) = loop_range 0 32 1"
  "concat (map (\<lambda>k. [2 * k, 2 * k + 1]) (concat (map (\<lambda>block. loop_range block (block + 8) 1) (loop_range 0 32 16))))
     = concat (map (\<lambda>block. loop_range block (block + 16) 1) (loop_range 0 64 32))"
  "concat (map (\<lambda>k. [2 * k, 2 * k + 1]) (concat (map (\<lambda>block. loop_range block (block + 4) 1) (loop_range 0 32 8))))
     = concat (map (\<lambda>block. loop_range block (block + 8) 1) (loop_range 0 64 16))"
  "concat (map (\<lambda>k. [2 * k, 2 * k + 1]) (concat (map (\<lambda>block. loop_range block (block + 2) 1) (loop_range 0 32 4))))
     = concat (map (\<lambda>block. loop_range block (block + 4) 1) (loop_range 0 64 8))"
  "concat (map (\<lambda>k. [2 * k, 2 * k + 1]) (loop_range 0 32 2))
     = concat (map (\<lambda>block. loop_range block (block + 2) 1) (loop_range 0 64 4))"
  "map (\<lambda>k. 2 * k) (loop_range 0 32 1) = loop_range 0 64 2"
  by code_simp+

lemma neon_index_bounds:
  "\<forall>k\<in>set (loop_range 0 16 1). k + 16 < (32::nat)"
  "\<forall>k\<in>set (concat (map (\<lambda>block. loop_range block (block + 8) 1) (loop_range 0 32 16))). k + 8 < 32"
  "\<forall>k\<in>set (concat (map (\<lambda>block. loop_range block (block + 4) 1) (loop_range 0 32 8))). k + 4 < 32"
  "\<forall>k\<in>set (concat (map (\<lambda>block. loop_range block (block + 2) 1) (loop_range 0 32 4))). k + 2 < 32"
  "\<forall>k\<in>set (loop_range 0 32 2). k + 1 < (32::nat)"
  "\<forall>k\<in>set (loop_range 0 32 1). k < (32::nat)"
  by code_simp+

lemma lanes_neon_stage5: "length q = 32 \<Longrightarrow> lanes (neon_stage5 q) = stage5 (lanes q)"
  unfolding neon_stage5_def stage5_def fold_nested neon_indices(1)[symmetric]
  by (rule lanes_fold_neon_step, simp, simp) (simp only:, rule neon_index_bounds(1))

lemma lanes_neon_stage4: "length q = 32 \<Longrightarrow> lanes (neon_stage4 q) = stage4 (lanes q)"
  unfolding neon_stage4_def stage4_def fold_nested neon_indices(2)[symmetric]
  by (rule lanes_fold_neon_step, simp, simp) (simp only:, rule neon_index_bounds(2))

lemma lanes_neon_stage3: "length q = 32 \<Longrightarrow> lanes (neon_stage3 q) = stage3 (lanes q)"
  unfolding neon_stage3_def stage3_def fold_nested neon_indices(3)[symmetric]
  by (rule lanes_fold_neon_step, simp, simp) (simp only:, rule neon_index_bounds(3))

lemma lanes_neon_stage2: "length q = 32 \<Longrightarrow> lanes (neon_stage2 q) = stage2 (lanes q)"
  unfolding neon_stage2_def stage2_def fold_nested neon_indices(4)[symmetric]
  by (rule lanes_fold_neon_step, simp, simp) (simp only:, rule neon_index_bounds(4))

lemma lanes_neon_stage1: "length q = 32 \<Longrightarrow> lanes (neon_stage1 q) = stage1 (lanes q)"
  unfolding neon_stage1_def stage1_def fold_nested neon_indices(5)[symmetric]
  by (rule lanes_fold_neon_step, simp, simp) (simp only:, rule neon_index_bounds(5))

lemma lanes_neon_stage0: "length q = 32 \<Longrightarrow> lanes (neon_stage0 q) = stage0 (lanes q)"
  unfolding neon_stage0_def stage0_def neon_indices(6)[symmetric]
  by (rule lanes_fold_neon_lane_step) (simp only:, rule neon_index_bounds(6))

lemmas lanes_neon_stages = lanes_neon_stage5 lanes_neon_stage4 lanes_neon_stage3
  lanes_neon_stage2 lanes_neon_stage1 lanes_neon_stage0

lemma length_neon_stages [simp, length_simps]:
  "length (neon_stage5 q) = length q" "length (neon_stage4 q) = length q"
  "length (neon_stage3 q) = length q" "length (neon_stage2 q) = length q"
  "length (neon_stage1 q) = length q" "length (neon_stage0 q) = length q"
  unfolding neon_stage5_def neon_stage4_def neon_stage3_def neon_stage2_def neon_stage1_def
    neon_stage0_def fold_nested by simp_all

lemma lanes_neon_load: "length data = 64 \<Longrightarrow> lanes (neon_load data) = data"
  by (rule lanes_eqI) (simp_all add: neon_load_def)

lemma neon_store_lanes: "length q = 32 \<Longrightarrow> neon_store q = lanes q"
  using map_nth[of q]
  by (simp add: neon_store_def lanes_def) (metis (no_types, lifting) comp_apply map_map map_eq_conv)

lemma transpose64_neon_eq_scalar:
  assumes "length data = 64" shows "transpose64_neon data = transpose64_scalar data"
proof -
  have [simp]: "length (neon_load data) = 32" by (simp add: neon_load_def)
  show ?thesis using assms
    by (simp add: transpose64_neon_def transpose64_scalar_def neon_store_lanes lanes_neon_stages lanes_neon_load)
qed

subsection \<open>The validity plane\<close>

lemma bit_fold_mask:
  "bit (fold (\<lambda>i v. if P i then v OR push_bit i 1 else v) is (w::u64)) j \<longleftrightarrow>
     bit w j \<or> (j \<in> set is \<and> P j \<and> j < 64)"
  by (induction "is" arbitrary: w) (auto simp: bit_simps)

lemma bit_validity_plane:
  "i < 64 \<Longrightarrow> bit (validity_plane (Some vm)) i = vm ! i"
  "i < 64 \<Longrightarrow> bit (validity_plane None) i"
  by (simp_all only: validity_plane_def option.case u64_max bit_fold_mask) simp_all

subsection \<open>Transposing twice\<close>

lemma butterfly_transpose64:
  assumes "length data = 64"
  shows "greengate_butterfly_transpose (fst (transpose64 data valid_mask)) = data"
proof (rule nth_equalityI)
  show "length (greengate_butterfly_transpose (fst (transpose64 data valid_mask))) = length data"
    using assms by (simp add: greengate_butterfly_transpose_def transpose64_def)
next
  fix i assume "i < length (greengate_butterfly_transpose (fst (transpose64 data valid_mask)))"
  then have "i < 64" using assms by (simp add: greengate_butterfly_transpose_def transpose64_def)
  then show "greengate_butterfly_transpose (fst (transpose64 data valid_mask)) ! i = data ! i"
    using assms by (intro bit_word_eqI)
      (simp add: greengate_butterfly_transpose_def transpose64_def bit_transpose64_scalar)
qed

subsection \<open>Properties\<close>

text \<open>
  Property C2. \<open>SimdTransposer::Transpose64\<close> transposes the 64 by 64 bit matrix: bit \<open>i\<close> of plane
  \<open>j\<close> is bit \<open>j\<close> of scalar \<open>i\<close>, whatever the validity mask.
\<close>

theorem transpose64_transposes:
  assumes "length data = 64" "i < 64" "j < 64"
  shows "bit (fst (transpose64 data valid_mask) ! j) i = bit (data ! i) j"
  using assms by (simp add: transpose64_def bit_transpose64_scalar)

theorem transpose64_transposes_witness:
  "bit (fst (transpose64 (map of_nat [0..<64]) None) ! 2) 37 = bit (map of_nat [0..<64] ! 37 :: u64) 2"
  by (rule transpose64_transposes) simp_all

text \<open>
  Property C3. \<open>greengate_butterfly_transpose\<close> undoes \<open>Transpose64\<close>: transposing the 64 planes of
  a tile gives back its 64 scalars. Materialisation and compaction rely on it.
\<close>

theorem butterfly_inverts_transpose64:
  assumes "length data = 64"
  shows "greengate_butterfly_transpose (fst (transpose64 data valid_mask)) = data"
  using assms by (rule butterfly_transpose64)

theorem butterfly_inverts_transpose64_witness:
  "greengate_butterfly_transpose (fst (transpose64 (replicate 64 0xDEADBEEF) (Some (replicate 64 True))))
     = replicate 64 0xDEADBEEF"
  by (rule butterfly_inverts_transpose64) simp

text \<open>
  Property C4. The NEON path (32 vectors of two lanes) and the scalar path of \<open>Transpose64\<close>
  compute the same planes.
\<close>

theorem neon_path_agrees:
  assumes "length data = 64"
  shows "transpose64_neon data = fst (transpose64 data valid_mask)"
  using transpose64_neon_eq_scalar[OF assms] by (simp add: transpose64_def)

theorem neon_path_agrees_witness:
  "transpose64_neon (map of_nat [0..<64]) = fst (transpose64 (map of_nat [0..<64]) None)"
  by (rule neon_path_agrees) simp

text \<open>
  The validity plane of \<open>Transpose64\<close> carries entry \<open>i\<close> of the mask in bit \<open>i\<close>,
  and is all ones when the mask pointer is null.
\<close>

theorem transpose64_validity:
  assumes "i < 64"
  shows "bit (snd (transpose64 data (Some valid_mask))) i = valid_mask ! i \<and>
    bit (snd (transpose64 data None)) i"
  using assms by (simp add: transpose64_def bit_validity_plane)

theorem transpose64_validity_witness:
  "bit (snd (transpose64 [] (Some (replicate 64 False)))) 9 = replicate 64 False ! 9 \<and>
   bit (snd (transpose64 [] None)) 9"
  using transpose64_validity[of 9] by simp

end
