(* ===== verification/Row_Group.thy ===== *)
theory Row_Group
  imports Transposer
begin

text \<open>
  The storage layout of \<open>include/lex/storage\<close>: a \<open>CbstTile\<close> holds one column of a block of 64
  rows as 64 bit planes and a validity plane, a \<open>BlockData\<close> holds one tile per physical column,
  the tail payload with the variable-length data and the tombstone mask, and a \<open>RowGroup\<close> holds
  the schema and the blocks. The abstraction used by every later theory reads a tile column-wise:
  \<open>tile_scalar t r\<close> is the value row \<open>r\<close> of the tile stores.
\<close>

record cbst_tile =
  planes :: "u64 list"
  validity :: u64
  padding :: "u64 list"

record block_data =
  columns :: "cbst_tile list"
  tail_payload :: bytes
  delete_mask :: u64

record row_group =
  num_rows :: u64
  num_columns :: u64
  column_names :: "string list"
  column_types :: "u32 list"
  blocks :: "block_data list"

text \<open>
  \<open>std::vector::resize\<close> value-initialises its elements: a new tile is all zero, and a new block
  has no columns, no tail and the default \<open>delete_mask = ~0ULL\<close>.
\<close>

definition zero_tile :: cbst_tile where
  "zero_tile = \<lparr>planes = replicate 64 0, validity = 0, padding = replicate 7 0\<rparr>"

definition fresh_block :: block_data where
  "fresh_block = \<lparr>columns = [], tail_payload = [], delete_mask = - 1\<rparr>"

text \<open>Well-formed storage: the array lengths the C++ types fix.\<close>

definition wf_tile :: "cbst_tile \<Rightarrow> bool" where
  "wf_tile t \<longleftrightarrow> length (planes t) = 64 \<and> length (padding t) = 7"

lemma wf_zero_tile [simp]: "wf_tile zero_tile"
  by (simp add: wf_tile_def zero_tile_def)

subsection \<open>Reading a tile by rows\<close>

text \<open>Row \<open>r\<close> of a tile: bit \<open>b\<close> of the scalar is bit \<open>r\<close> of plane \<open>b\<close>.\<close>

definition tile_scalar :: "cbst_tile \<Rightarrow> nat \<Rightarrow> u64" where
  "tile_scalar t r = greengate_butterfly_transpose (planes t) ! r"

definition tile_valid :: "cbst_tile \<Rightarrow> nat \<Rightarrow> bool" where
  "tile_valid t r = bit (validity t) r"

lemma bit_tile_scalar:
  "length (planes t) = 64 \<Longrightarrow> r < 64 \<Longrightarrow> b < 64 \<Longrightarrow> bit (tile_scalar t r) b = bit (planes t ! b) r"
  by (simp add: tile_scalar_def greengate_butterfly_transpose_def transpose64_def bit_transpose64_scalar)

lemma tile_scalar_transpose64:
  "length data = 64 \<Longrightarrow> planes t = fst (transpose64 data vm) \<Longrightarrow> tile_scalar t r = data ! r"
  by (simp add: tile_scalar_def butterfly_transpose64)

end
