(* ===== verification/Exporter.thy ===== *)
theory Exporter
  imports Row_Group
begin

text \<open>
  The interleaved on-disk format of \<open>src/lex/storage/exporter.cpp\<close>. \<open>Serialize\<close> writes a 64-byte
  header, the column metadata padded to 64 bytes, and per block its tiles, delete mask and tail,
  padded to 64 bytes again; \<open>Deserialize\<close> reads it back with a bounds check before every read.
  Proved: what is written is read back unchanged, the sections are 64-byte aligned, every input
  that is too short or not of this format is rejected, and no input makes \<open>Deserialize\<close> read
  past the end of its buffer.
\<close>

subsection \<open>Writing\<close>

definition CBST_MAGIC :: bytes where
  "CBST_MAGIC = ''CBST''"

text \<open>\<open>(64 - (n % 64)) % 64\<close>: the bytes missing to the next 64-byte boundary.\<close>

definition pad64 :: "nat \<Rightarrow> nat" where
  "pad64 n = (64 - n mod 64) mod 64"

definition zero_bytes :: "nat \<Rightarrow> bytes" where
  "zero_bytes n = replicate n (char_of (0::nat))"

definition block_count :: "u64 \<Rightarrow> u64" where
  "block_count rows = (rows + 63) div 64"

definition serialize_header :: "row_group \<Rightarrow> bytes" where
  "serialize_header rg = CBST_MAGIC @ put_u64 (num_rows rg) @ put_u64 (num_columns rg) @
     put_u64 (block_count (num_rows rg)) @ zero_bytes 36"

definition serialize_column_meta :: "u32 \<Rightarrow> string \<Rightarrow> bytes" where
  "serialize_column_meta type name =
     (let name_len = (word_of_nat (length name) :: u32)
      in put_u32 type @ put_u32 name_len @ take (unat name_len) name)"

definition tile_bytes :: "cbst_tile \<Rightarrow> bytes" where
  "tile_bytes t = concat (map put_u64 (planes t @ [validity t] @ padding t))"

definition serialize_tail :: "block_data \<Rightarrow> bytes" where
  "serialize_tail block =
     (let tail_size = length (tail_payload block)
      in put_u64 (delete_mask block) @ put_u64 (word_of_nat tail_size) @ tail_payload block @
         zero_bytes (pad64 (8 + 8 + tail_size)))"

definition serialize_block :: "nat \<Rightarrow> block_data \<Rightarrow> bytes" where
  "serialize_block ncols block =
     concat (map (\<lambda>c. tile_bytes (columns block ! c)) [0..<ncols]) @ serialize_tail block"

definition serialize_meta :: "row_group \<Rightarrow> bytes" where
  "serialize_meta rg = serialize_header rg @
     concat (map (\<lambda>i. serialize_column_meta (column_types rg ! i) (column_names rg ! i))
       [0..<unat (num_columns rg)])"

definition Serialize :: "row_group \<Rightarrow> bytes" where
  "Serialize rg =
     (let num_blocks = block_count (num_rows rg);
          meta = serialize_meta rg
      in meta @ zero_bytes (pad64 (length meta)) @
         concat (map (\<lambda>b. serialize_block (unat (num_columns rg)) (blocks rg ! b)) [0..<unat num_blocks]))"

subsection \<open>Reading\<close>

text \<open>
  The exceptions of \<open>Deserialize\<close>, in the order of the checks. \<open>Alloc_Failure\<close> is the
  \<open>std::length_error\<close> or \<open>std::bad_alloc\<close> of a \<open>resize\<close>. \<open>Read_Past_End\<close> is no exception of the
  code: it is the outcome of a read outside the buffer, which the proofs show never happens.
\<close>

datatype cbst_error = Too_Small | Magic_Mismatch | Column_Metadata_Bounds | Column_Name_Bounds
  | Tile_Bounds | Delete_Mask_Bounds | Tail_Size_Bounds | Tail_Payload_Bounds
  | Alloc_Failure | Read_Past_End

text \<open>
  A \<open>std::vector\<close> never holds more than \<open>PTRDIFF_MAX\<close> elements (\<open>resize\<close> throws
  \<open>std::length_error\<close>); below that the allocator decides, which \<open>mem\<close> stands for.
\<close>

definition resize_ok :: "(nat \<Rightarrow> bool) \<Rightarrow> nat \<Rightarrow> bool" where
  "resize_ok mem n \<longleftrightarrow> n < 2 ^ 63 \<and> mem n"

definition read_at :: "bytes \<Rightarrow> u64 \<Rightarrow> nat \<Rightarrow> cbst_error + bytes" where
  "read_at data offset n =
     (if unat offset + n \<le> length data then Inr (take n (drop (unat offset) data)) else Inl Read_Past_End)"

text \<open>The test \<open>offset + n > data.size()\<close>, in the 64-bit arithmetic of \<open>size_t\<close>.\<close>

definition in_bounds :: "bytes \<Rightarrow> u64 \<Rightarrow> u64 \<Rightarrow> bool" where
  "in_bounds data offset n \<longleftrightarrow> \<not> (word_of_nat (length data) < offset + n)"

fun read_columns :: "nat \<Rightarrow> bytes \<Rightarrow> u64 \<Rightarrow> cbst_error + ((u32 \<times> string) list \<times> u64)" where
  "read_columns 0 data offset = Inr ([], offset)"
| "read_columns (Suc n) data offset =
     ebind (guard (in_bounds data offset 8) Column_Metadata_Bounds) (\<lambda>_.
     ebind (read_at data offset 4) (\<lambda>type.
     ebind (read_at data (offset + 4) 4) (\<lambda>name_len.
     ebind (guard (in_bounds data (offset + 8) (ucast (get_u32 name_len))) Column_Name_Bounds) (\<lambda>_.
     ebind (read_at data (offset + 8) (unat (get_u32 name_len))) (\<lambda>name.
     ebind (read_columns n data (offset + 8 + ucast (get_u32 name_len))) (\<lambda>(cols, offset').
       Inr ((get_u32 type, name) # cols, offset')))))))"

definition tile_of_bytes :: "bytes \<Rightarrow> cbst_tile" where
  "tile_of_bytes bs =
     (let words = map (\<lambda>i. get_u64 (drop (8 * i) bs)) [0..<72]
      in \<lparr>planes = take 64 words, validity = words ! 64, padding = drop 65 words\<rparr>)"

fun read_tiles :: "nat \<Rightarrow> bytes \<Rightarrow> u64 \<Rightarrow> cbst_error + (cbst_tile list \<times> u64)" where
  "read_tiles 0 data offset = Inr ([], offset)"
| "read_tiles (Suc n) data offset =
     ebind (guard (in_bounds data offset 576) Tile_Bounds) (\<lambda>_.
     ebind (read_at data offset 576) (\<lambda>bs.
     ebind (read_tiles n data (offset + 576)) (\<lambda>(tiles, offset').
       Inr (tile_of_bytes bs # tiles, offset'))))"

definition read_tail :: "(nat \<Rightarrow> bool) \<Rightarrow> bytes \<Rightarrow> u64 \<Rightarrow> u64 \<Rightarrow> cbst_error + bytes" where
  "read_tail mem data offset tail_size =
     (if tail_size > 0 then
        ebind (guard (in_bounds data offset tail_size) Tail_Payload_Bounds) (\<lambda>_.
        ebind (guard (resize_ok mem (unat tail_size)) Alloc_Failure) (\<lambda>_.
          read_at data offset (unat tail_size)))
      else Inr [])"

definition read_block :: "(nat \<Rightarrow> bool) \<Rightarrow> nat \<Rightarrow> bytes \<Rightarrow> u64 \<Rightarrow> cbst_error + (block_data \<times> u64)" where
  "read_block mem ncols data offset =
     ebind (guard (resize_ok mem ncols) Alloc_Failure) (\<lambda>_.
     ebind (read_tiles ncols data offset) (\<lambda>(tiles, offset).
     ebind (guard (in_bounds data offset 8) Delete_Mask_Bounds) (\<lambda>_.
     ebind (read_at data offset 8) (\<lambda>mask.
     ebind (guard (in_bounds data (offset + 8) 8) Tail_Size_Bounds) (\<lambda>_.
     ebind (read_at data (offset + 8) 8) (\<lambda>size_bytes.
     let tail_size = get_u64 size_bytes in
     ebind (read_tail mem data (offset + 16) tail_size) (\<lambda>tail.
       Inr (\<lparr>columns = tiles, tail_payload = tail, delete_mask = get_u64 mask\<rparr>,
            offset + 16 + tail_size + word_of_nat (pad64 (unat (8 + 8 + tail_size)))))))))))"

fun read_blocks :: "(nat \<Rightarrow> bool) \<Rightarrow> nat \<Rightarrow> nat \<Rightarrow> bytes \<Rightarrow> u64 \<Rightarrow> cbst_error + block_data list" where
  "read_blocks mem ncols 0 data offset = Inr []"
| "read_blocks mem ncols (Suc n) data offset =
     ebind (read_block mem ncols data offset) (\<lambda>(block, offset').
     ebind (read_blocks mem ncols n data offset') (\<lambda>bs. Inr (block # bs)))"

definition Deserialize :: "(nat \<Rightarrow> bool) \<Rightarrow> bytes \<Rightarrow> cbst_error + row_group" where
  "Deserialize mem data =
     (if length data < 64 then Inl Too_Small
      else if take 4 data \<noteq> CBST_MAGIC then Inl Magic_Mismatch
      else
        let rows = get_u64 (drop 4 data); ncols = get_u64 (drop 12 data);
            num_blocks = get_u64 (drop 20 data)
        in
        ebind (guard (resize_ok mem (unat ncols)) Alloc_Failure) (\<lambda>_.
        ebind (read_columns (unat ncols) data 64) (\<lambda>(cols, offset).
        ebind (guard (resize_ok mem (unat num_blocks)) Alloc_Failure) (\<lambda>_.
        ebind (read_blocks mem (unat ncols) (unat num_blocks) data
                 (offset + word_of_nat (pad64 (unat offset)))) (\<lambda>bs.
          Inr \<lparr>num_rows = rows, num_columns = ncols, column_names = map snd cols,
               column_types = map fst cols, blocks = bs\<rparr>)))))"

subsection \<open>Files\<close>

text \<open>
  \<open>ExportToFile\<close> and \<open>ImportFromFile\<close> over a file system, a map from paths to contents.
  \<open>can_open\<close> says whether the output stream opens; \<open>store\<close> is what the operating system keeps of
  the bytes written, since the code does not look at the stream's state after \<open>out.write\<close>.
\<close>

datatype file_error = Open_Failed | Format_Error cbst_error

definition ExportToFile ::
  "(string \<Rightarrow> bool) \<Rightarrow> (bytes \<Rightarrow> bytes) \<Rightarrow> (string \<rightharpoonup> bytes) \<Rightarrow> row_group \<Rightarrow> string \<Rightarrow> file_error + (string \<rightharpoonup> bytes)"
  where
  "ExportToFile can_open store fs rg filepath =
     (let serialized = Serialize rg
      in if \<not> can_open filepath then Inl Open_Failed else Inr (fs(filepath \<mapsto> store serialized)))"

definition ImportFromFile ::
  "(nat \<Rightarrow> bool) \<Rightarrow> (string \<rightharpoonup> bytes) \<Rightarrow> string \<Rightarrow> file_error + row_group" where
  "ImportFromFile mem fs filepath =
     (case fs filepath of None \<Rightarrow> Inl Open_Failed
      | Some buffer \<Rightarrow>
          if \<not> resize_ok mem (length buffer) then Inl (Format_Error Alloc_Failure)
          else (case Deserialize mem buffer of Inl e \<Rightarrow> Inl (Format_Error e) | Inr rg \<Rightarrow> Inr rg))"

subsection \<open>Reading back each section\<close>

lemma read_at_nat:
  assumes "holds_at data n bs" "length data < 2 ^ 63"
  shows "read_at data (word_of_nat n) (length bs) = Inr bs"
proof -
  have "n < 2 ^ 64" using holds_atD(1)[OF assms(1)] assms(2) by simp
  then have "unat (word_of_nat n :: u64) = n" by simp
  then show ?thesis using holds_atD[OF assms(1)] by (simp add: read_at_def)
qed

lemma in_bounds_nat:
  assumes "n + k \<le> length data" "length data < 2 ^ 63"
  shows "in_bounds data (word_of_nat n) (word_of_nat k)"
proof -
  have "unat (word_of_nat (length data) :: u64) = length data"
    "unat (word_of_nat (n + k) :: u64) = n + k"
    using assms by (intro unat_u64; simp)+
  then show ?thesis using assms by (simp add: in_bounds_def word_less_nat_alt flip: of_nat_add)
qed

definition column_section :: "(u32 \<times> string) list \<Rightarrow> bytes" where
  "column_section cols = concat (map (\<lambda>(t, n). serialize_column_meta t n) cols)"

lemma length_column_meta: "length name < 2 ^ 32 \<Longrightarrow> length (serialize_column_meta t name) = 8 + length name"
  by (simp add: serialize_column_meta_def Let_def)

lemma read_columns_section:
  assumes "holds_at data n (column_section cols)" "length data < 2 ^ 63" "\<forall>(t, nm)\<in>set cols. length nm < 2 ^ 32"
  shows "read_columns (length cols) data (word_of_nat n) =
    Inr (cols, word_of_nat (n + length (column_section cols)))"
  using assms
proof (induction cols arbitrary: n)
  case Nil then show ?case by (simp add: column_section_def)
next
  case (Cons c cols)
  obtain t nm where c: "c = (t, nm)" by force
  have nm: "length nm < 2 ^ 32" using Cons.prems c by simp
  define nl where "nl = (word_of_nat (length nm) :: u32)"
  have unl: "unat nl = length nm" using nm by (simp add: nl_def)
  have h: "holds_at data n (put_u32 t)" "holds_at data (n + 4) (put_u32 nl)"
     "holds_at data (n + 8) nm" "holds_at data (n + 8 + length nm) (column_section cols)"
    using Cons.prems(1) unl unfolding c column_section_def
    by (simp_all add: serialize_column_meta_def Let_def holds_at_append nl_def add.assoc)
  have lens: "n + 8 \<le> length data" "n + 8 + length nm \<le> length data"
    using holds_atD(1)[OF h(2)] holds_atD(1)[OF h(3)] by simp_all
  have r: "read_at data (word_of_nat n) 4 = Inr (put_u32 t)"
    "read_at data (word_of_nat (n + 4)) 4 = Inr (put_u32 nl)"
    "read_at data (word_of_nat (n + 8)) (unat nl) = Inr nm"
    using read_at_nat[OF h(1) Cons.prems(2)] read_at_nat[OF h(2) Cons.prems(2)]
      read_at_nat[OF h(3) Cons.prems(2)] by (simp_all only: length_put unl)
  have b: "in_bounds data (word_of_nat n) 8" "in_bounds data (word_of_nat (n + 8)) (ucast nl)"
    using in_bounds_nat[OF lens(1) Cons.prems(2)] in_bounds_nat[OF lens(2) Cons.prems(2)]
    by (simp_all add: unl[symmetric])
  have IH: "read_columns (length cols) data (word_of_nat (n + 8 + length nm)) =
      Inr (cols, word_of_nat (n + 8 + length nm + length (column_section cols)))"
    using Cons.prems h by (intro Cons.IH) auto
  have e: "(word_of_nat n + 4 :: u64) = word_of_nat (n + 4)" "(word_of_nat n + 8 :: u64) = word_of_nat (n + 8)"
    "(word_of_nat (n + 8) + ucast nl :: u64) = word_of_nat (n + 8 + length nm)"
    by (simp_all add: unl[symmetric])
  have l: "length (column_section ((t, nm) # cols)) = 8 + length nm + length (column_section cols)"
    using nm by (simp add: column_section_def length_column_meta)
  show ?case
    by (simp only: c l read_columns.simps length_Cons e r b get_put guard_simps ebind_simps
        IH[unfolded add.assoc]
        prod.case add.assoc)
qed

lemma tile_of_tile_bytes:
  assumes wf: "wf_tile t"
  shows "tile_of_bytes (tile_bytes t) = t"
proof -
  define ws where "ws = planes t @ [validity t] @ padding t"
  have "length ws = 72" using wf by (simp add: wf_tile_def ws_def)
  then have "map (\<lambda>i. get_u64 (drop (8 * i) (tile_bytes t))) [0..<72] = ws"
    using get_words[of ws] by (simp only: tile_bytes_def ws_def[symmetric])
  then have "tile_of_bytes (tile_bytes t) =
      \<lparr>planes = take 64 ws, validity = ws ! 64, padding = drop 65 ws\<rparr>"
    by (simp only: tile_of_bytes_def Let_def)
  then show ?thesis using wf by (simp add: ws_def wf_tile_def nth_append)
qed

lemma length_tile_bytes: "wf_tile t \<Longrightarrow> length (tile_bytes t) = 576"
proof -
  have "length (concat (map put_u64 ws)) = 8 * length ws" for ws by (induction ws) simp_all
  then show "wf_tile t \<Longrightarrow> length (tile_bytes t) = 576" by (simp add: tile_bytes_def wf_tile_def)
qed

lemma read_tiles_section:
  assumes "holds_at data n (concat (map tile_bytes ts))" "length data < 2 ^ 63" "\<forall>t\<in>set ts. wf_tile t"
  shows "read_tiles (length ts) data (word_of_nat n) =
    Inr (ts, word_of_nat (n + 576 * length ts))"
  using assms
proof (induction ts arbitrary: n)
  case Nil then show ?case by simp
next
  case (Cons t ts)
  have l: "length (tile_bytes t) = 576" using Cons.prems by (simp add: length_tile_bytes)
  have h: "holds_at data n (tile_bytes t)" "holds_at data (n + 576) (concat (map tile_bytes ts))"
    using Cons.prems(1) l by (simp_all add: holds_at_append)
  have r: "read_at data (word_of_nat n) 576 = Inr (tile_bytes t)"
    using read_at_nat[OF h(1) Cons.prems(2)] l by simp
  have b: "in_bounds data (word_of_nat n) 576"
    using in_bounds_nat[of n 576 data] holds_atD(1)[OF h(1)] l Cons.prems(2) by simp
  have e: "(word_of_nat n + 576 :: u64) = word_of_nat (n + 576)" by simp
  have IH: "read_tiles (length ts) data (word_of_nat (n + 576)) = Inr (ts, word_of_nat (n + 576 + 576 * length ts))"
    using Cons.prems h by (intro Cons.IH) auto
  have t: "tile_of_bytes (tile_bytes t) = t" using Cons.prems by (simp add: tile_of_tile_bytes)
  have "n + 576 + 576 * length ts = n + 576 * length (t # ts)" by simp
  then show ?case
    by (simp only: read_tiles.simps length_Cons e r b guard_simps ebind_simps IH t prod.case)
qed

definition wf_block :: "nat \<Rightarrow> block_data \<Rightarrow> bool" where
  "wf_block ncols b \<longleftrightarrow> length (columns b) = ncols \<and> (\<forall>t\<in>set (columns b). wf_tile t)"

lemma serialize_block_wf:
  "wf_block ncols b \<Longrightarrow> serialize_block ncols b = concat (map tile_bytes (columns b)) @ serialize_tail b"
  by (simp add: serialize_block_def wf_block_def map_nth_upt)

lemma read_block_section:
  assumes h: "holds_at data n (serialize_block ncols b)" and len: "length data < 2 ^ 63"
    and wf: "wf_block ncols b" and mem: "mem ncols" "\<forall>k \<le> length data. mem k" "ncols < 2 ^ 63"
  shows "read_block mem ncols data (word_of_nat n) =
    Inr (b, word_of_nat (n + length (serialize_block ncols b)))"
proof -
  let ?t = "n + 576 * ncols" and ?tail = "tail_payload b"
  have lc: "length (concat (map tile_bytes (columns b))) = 576 * ncols"
  proof -
    have "\<forall>t\<in>set ts. wf_tile t \<Longrightarrow> length (concat (map tile_bytes ts)) = 576 * length ts" for ts
      by (induction ts) (simp_all add: length_tile_bytes)
    then show ?thesis using wf by (simp add: wf_block_def)
  qed
  have p: "holds_at data n (concat (map tile_bytes (columns b)))"
    "holds_at data ?t (put_u64 (delete_mask b))"
    "holds_at data (?t + 8) (put_u64 (word_of_nat (length ?tail)))"
    "holds_at data (?t + 16) ?tail"
    "holds_at data (?t + 16 + length ?tail) (zero_bytes (pad64 (16 + length ?tail)))"
    using h unfolding serialize_block_wf[OF wf] serialize_tail_def Let_def
    by (simp_all add: holds_at_append lc add.assoc)
  have bd: "?t + 8 \<le> length data" "?t + 8 + 8 \<le> length data" "?t + 16 + length ?tail \<le> length data"
    using holds_atD(1)[OF p(2)] holds_atD(1)[OF p(3)] holds_atD(1)[OF p(4)] by simp_all
  have tiles: "read_tiles ncols data (word_of_nat n) = Inr (columns b, word_of_nat ?t)"
    using read_tiles_section[OF p(1) len] wf by (simp add: wf_block_def)
  have r: "read_at data (word_of_nat ?t) 8 = Inr (put_u64 (delete_mask b))"
    "read_at data (word_of_nat (?t + 8)) 8 = Inr (put_u64 (word_of_nat (length ?tail)))"
    "read_at data (word_of_nat (?t + 16)) (length ?tail) = Inr ?tail"
    using read_at_nat[OF p(2) len] read_at_nat[OF p(3) len] read_at_nat[OF p(4) len]
    by (simp_all only: length_put)
  have i: "in_bounds data (word_of_nat ?t) 8" "in_bounds data (word_of_nat (?t + 8)) 8"
    "in_bounds data (word_of_nat (?t + 16)) (word_of_nat (length ?tail))"
    using in_bounds_nat[OF bd(1) len] in_bounds_nat[OF bd(2) len] in_bounds_nat[OF bd(3) len] by simp_all
  have ut: "unat (word_of_nat (length ?tail) :: u64) = length ?tail" "length ?tail < 2 ^ 63"
    using bd len by simp_all
  have tail: "read_tail mem data (word_of_nat (?t + 16)) (word_of_nat (length ?tail)) = Inr ?tail"
  proof -
    have "(0 < (word_of_nat (length ?tail) :: u64)) = (?tail \<noteq> [])"
      unfolding word_less_nat_alt ut(1) by simp
    moreover have "resize_ok mem (length ?tail)" using ut(2) mem(2) bd(3) by (simp add: resize_ok_def)
    ultimately show ?thesis
      using i(3) r(3) by (simp only: read_tail_def ut(1) guard_simps ebind_simps if_True if_False split: if_split) auto
  qed
  have ts: "unat (8 + 8 + word_of_nat (length ?tail) :: u64) = 16 + length ?tail"
    using ut(2) unat_u64[of "16 + length ?tail"] by simp
  have e: "(word_of_nat ?t + 8 :: u64) = word_of_nat (?t + 8)" "(word_of_nat ?t + 16 :: u64) = word_of_nat (?t + 16)"
    "(word_of_nat (?t + 16) + word_of_nat (length ?tail) + word_of_nat (pad64 (16 + length ?tail)) :: u64) =
      word_of_nat (?t + 16 + length ?tail + pad64 (16 + length ?tail))"
    by simp_all
  have l: "n + length (serialize_block ncols b) = ?t + 16 + length ?tail + pad64 (16 + length ?tail)"
    unfolding serialize_block_wf[OF wf] serialize_tail_def Let_def by (simp add: lc zero_bytes_def)
  show ?thesis
    unfolding l using mem(1,3)
    by (simp only: read_block_def resize_ok_def guard_simps ebind_simps tiles prod.case r(1,2) i e get_put
        Let_def tail ts simp_thms) simp
qed

lemma read_blocks_section:
  assumes "holds_at data n (concat (map (serialize_block ncols) bs))" "length data < 2 ^ 63"
    "\<forall>b\<in>set bs. wf_block ncols b" "mem ncols" "\<forall>k \<le> length data. mem k" "ncols < 2 ^ 63"
  shows "read_blocks mem ncols (length bs) data (word_of_nat n) = Inr bs"
  using assms(1,3)
proof (induction bs arbitrary: n)
  case Nil then show ?case by simp
next
  case (Cons b bs)
  have h: "holds_at data n (serialize_block ncols b)"
    "holds_at data (n + length (serialize_block ncols b)) (concat (map (serialize_block ncols) bs))"
    using Cons.prems(1) by (simp_all add: holds_at_append)
  have "read_blocks mem ncols (length bs) data (word_of_nat (n + length (serialize_block ncols b))) = Inr bs"
    using Cons.prems h by (intro Cons.IH) auto
  moreover have "wf_block ncols b" using Cons.prems by simp
  ultimately show ?case
    using read_block_section[OF h(1) assms(2) _ assms(4-6)] by simp
qed

text \<open>
  What \<open>Serialize\<close> reads of a row group must exist: a name and a type per physical column, a
  block per 64 rows, a tile per column in every block. Names and the whole image fit the format's
  32-bit and the machine's 63-bit sizes.
\<close>

definition exportable :: "row_group \<Rightarrow> bool" where
  "exportable rg \<longleftrightarrow> length (column_names rg) = unat (num_columns rg) \<and>
     length (column_types rg) = unat (num_columns rg) \<and>
     (\<forall>nm\<in>set (column_names rg). length nm < 2 ^ 32) \<and>
     length (blocks rg) = unat (block_count (num_rows rg)) \<and>
     (\<forall>b\<in>set (blocks rg). wf_block (unat (num_columns rg)) b) \<and>
     length (Serialize rg) < 2 ^ 63"

lemma serialize_meta_section:
  assumes "exportable rg"
  shows "serialize_meta rg = serialize_header rg @
    column_section (zip (column_types rg) (column_names rg))"
proof -
  have "map (\<lambda>i. serialize_column_meta (column_types rg ! i) (column_names rg ! i)) [0..<unat (num_columns rg)]
    = map (\<lambda>(t, n). serialize_column_meta t n) (zip (column_types rg) (column_names rg))"
    using assms by (intro nth_equalityI) (simp_all add: exportable_def)
  then show ?thesis by (simp add: serialize_meta_def column_section_def)
qed

lemma length_header [simp, length_simps]: "length (serialize_header rg) = 64"
  by (simp add: serialize_header_def CBST_MAGIC_def zero_bytes_def)

lemma length_column_section: "length (column_section cols) \<ge> 8 * length cols"
  by (induction cols) (auto simp: column_section_def serialize_column_meta_def Let_def)

lemma length_concat_ge: "\<forall>x\<in>set xs. k \<le> length (f x) \<Longrightarrow> k * length xs \<le> length (concat (map f xs))"
  by (induction xs) auto

lemma Serialize_sections:
  assumes "exportable rg"
  shows "Serialize rg = serialize_header rg @
    column_section (zip (column_types rg) (column_names rg)) @
    zero_bytes (pad64 (length (serialize_meta rg))) @
    concat (map (serialize_block (unat (num_columns rg))) (blocks rg))"
  using assms by (simp add: Serialize_def Let_def serialize_meta_section[OF assms] exportable_def map_nth_upt)

lemma Deserialize_Serialize:
  assumes ex: "exportable rg" and mem: "\<forall>k \<le> length (Serialize rg). mem k"
  shows "Deserialize mem (Serialize rg) = Inr rg"
proof -
  let ?d = "Serialize rg" and ?nc = "unat (num_columns rg)" and ?nb = "unat (block_count (num_rows rg))"
  let ?cols = "zip (column_types rg) (column_names rg)"
  let ?pad = "zero_bytes (pad64 (length (serialize_meta rg)))"
  have len: "length ?d < 2 ^ 63" using ex by (simp add: exportable_def)
  have lc: "length ?cols = ?nc" using ex by (simp add: exportable_def)
  have lb: "length (blocks rg) = ?nb" using ex by (simp add: exportable_def)
  have lm: "length (serialize_meta rg) = 64 + length (column_section ?cols)"
    using serialize_meta_section[OF ex] by simp
  have h: "holds_at ?d 0 (serialize_header rg)" "holds_at ?d 64 (column_section ?cols)"
    "holds_at ?d (length (serialize_meta rg) + pad64 (length (serialize_meta rg)))
       (concat (map (serialize_block ?nc) (blocks rg)))"
    using holds_at_self[of ?d] unfolding lm
    by (simp_all add: Serialize_sections[OF ex] holds_at_append zero_bytes_def lm add.assoc)
  have nc: "?nc \<le> length ?d"
    using holds_atD(1)[OF h(2)] length_column_section[of ?cols] lc by linarith
  have "8 * length (blocks rg) \<le> length (concat (map (serialize_block ?nc) (blocks rg)))"
    by (rule length_concat_ge) (simp add: serialize_block_def serialize_tail_def Let_def)
  then have nb: "?nb \<le> length ?d" using holds_atD(1)[OF h(3)] lb by linarith
  have hd: "64 \<le> length ?d" "take 64 ?d = serialize_header rg"
    using holds_atD[OF h(1)] by simp_all
  have fields: "take 4 ?d = CBST_MAGIC" "get_u64 (drop 4 ?d) = num_rows rg"
    "get_u64 (drop 12 ?d) = num_columns rg" "get_u64 (drop 20 ?d) = block_count (num_rows rg)"
    by (simp_all add: Serialize_sections[OF ex] serialize_header_def CBST_MAGIC_def)
  have cols: "read_columns ?nc ?d 64 = Inr (?cols, word_of_nat (length (serialize_meta rg)))"
    using read_columns_section[OF h(2) len] ex lc lm
    by (auto simp: exportable_def dest: set_zip_rightD)
  have um: "unat (word_of_nat (length (serialize_meta rg)) :: u64) = length (serialize_meta rg)"
    using holds_atD(1)[OF h(2)] len lm by (intro unat_u64) simp
  have bl: "read_blocks mem ?nc ?nb ?d
      (word_of_nat (length (serialize_meta rg)) + word_of_nat (pad64 (length (serialize_meta rg)))) =
    Inr (blocks rg)"
    using read_blocks_section[OF h(3) len, of mem] ex mem nc lb len
    by (simp add: exportable_def)
  have m: "resize_ok mem ?nc" "resize_ok mem ?nb" using mem nc nb len by (auto simp: resize_ok_def)
  show ?thesis
    using hd(1) ex lc
    by (simp add: Deserialize_def fields Let_def m cols um bl exportable_def)
qed
subsection \<open>No read past the end\<close>

lemma in_bounds_iff:
  assumes "unat off + unat n < 2 ^ 64" "length data < 2 ^ 63"
  shows "in_bounds data off n \<longleftrightarrow> unat off + unat n \<le> length data"
  using assms unat_u64[of "length data"]
  by (simp add: in_bounds_def word_less_nat_alt unat_add_u64 not_less)

lemma read_at_inside: "unat off + n \<le> length data \<Longrightarrow> read_at data off n = Inr (take n (drop (unat off) data))"
  by (simp add: read_at_def)

definition safe_from :: "(cbst_error + 'a) \<Rightarrow> ('a \<Rightarrow> bool) \<Rightarrow> bool" where
  "safe_from r P \<longleftrightarrow> (case r of Inl e \<Rightarrow> e \<noteq> Read_Past_End | Inr a \<Rightarrow> P a)"

lemma safe_from_Inr [simp]: "safe_from (Inr a) P = P a"
  and safe_from_Inl [simp]: "safe_from (Inl e) P = (e \<noteq> Read_Past_End)"
  by (simp_all add: safe_from_def)

lemma safe_from_ebind: "safe_from m Q \<Longrightarrow> (\<And>a. Q a \<Longrightarrow> safe_from (f a) P) \<Longrightarrow> safe_from (ebind m f) P"
  by (cases m) auto

lemma safe_from_guard: "e \<noteq> Read_Past_End \<Longrightarrow> (b \<Longrightarrow> safe_from (f ()) P) \<Longrightarrow> safe_from (ebind (guard b e) f) P"
  by (cases b) auto

lemma safe_from_read: "unat off + n \<le> length data \<Longrightarrow>
   (\<And>bs. length bs = n \<Longrightarrow> safe_from (f bs) P) \<Longrightarrow> safe_from (ebind (read_at data off n) f) P"
  by (simp add: read_at_def)

lemma safe_read_columns:
  assumes "length data < 2 ^ 63" "unat off \<le> length data"
  shows "safe_from (read_columns n data off) (\<lambda>(cs, off'). unat off' \<le> length data)"
  using assms(2)
proof (induction n arbitrary: off)
  case 0 then show ?case by simp
next
  case (Suc n)
  have b8: "in_bounds data off 8 \<longleftrightarrow> unat off + 8 \<le> length data"
    using in_bounds_iff[of off 8 data] Suc.prems assms(1) by simp
  { assume le: "unat off + 8 \<le> length data"
    then have u: "unat (off + 8) = unat off + 8" "unat (off + 4) = unat off + 4"
      using assms(1) unat_add_u64[of off 8] unat_add_u64[of off 4] by simp_all
    have nb: "in_bounds data (off + 8) (ucast (w::u32)) \<longleftrightarrow> unat off + 8 + unat w \<le> length data" for w
      using in_bounds_iff[of "off + 8" "ucast w" data] u le assms(1) unat_u32_less[of w] by simp
    have u': "unat (off + 8 + ucast w) = unat off + 8 + unat w" if "unat off + 8 + unat (w::u32) \<le> length data" for w
      using unat_add_u64[of "off + 8" "ucast w"] that u assms(1) by simp
    note u nb u' }
  note facts = this
  show ?case
    unfolding read_columns.simps b8
    by (intro safe_from_guard safe_from_read safe_from_ebind[OF Suc.IH])
       (auto simp: facts)
qed

lemma safe_read_tiles:
  assumes "length data < 2 ^ 63" "unat off \<le> length data + 63"
  shows "safe_from (read_tiles n data off) (\<lambda>(ts, off'). unat off' \<le> length data + 63)"
  using assms(2)
proof (induction n arbitrary: off)
  case 0 then show ?case by simp
next
  case (Suc n)
  have b: "in_bounds data off 576 \<longleftrightarrow> unat off + 576 \<le> length data"
    using in_bounds_iff[of off 576 data] Suc.prems assms(1) by simp
  have u: "unat (off + 576) = unat off + 576" if "unat off + 576 \<le> length data"
    using that assms(1) unat_add_u64[of off 576] by simp
  show ?case
    unfolding read_tiles.simps b
    by (intro safe_from_guard safe_from_read safe_from_ebind[OF Suc.IH]) (auto simp: u)
qed

lemma safe_read_tail:
  assumes "length data < 2 ^ 63" "unat off \<le> length data"
  shows "safe_from (read_tail mem data off n) (\<lambda>_. unat off + unat n \<le> length data)"
proof -
  have "in_bounds data off n \<Longrightarrow> unat n < 2 ^ 63 \<Longrightarrow> unat off + unat n \<le> length data"
    using in_bounds_iff[of off n data] assms by simp
  then show ?thesis using assms(2)
    unfolding read_tail_def
    by (auto intro!: safe_from_guard simp: resize_ok_def read_at_def word_less_nat_alt)
qed

lemma pad64_less: "pad64 n < 64"
  by (simp add: pad64_def)

lemma safe_read_block:
  assumes "length data < 2 ^ 63" "unat off \<le> length data + 63"
  shows "safe_from (read_block mem nc data off) (\<lambda>(b, off'). unat off' \<le> length data + 63)"
proof -
  have step: "safe_from
      (ebind (guard (in_bounds data off 8) Delete_Mask_Bounds) (\<lambda>_.
       ebind (read_at data off 8) (\<lambda>mask.
       ebind (guard (in_bounds data (off + 8) 8) Tail_Size_Bounds) (\<lambda>_.
       ebind (read_at data (off + 8) 8) (\<lambda>size_bytes.
       let tail_size = get_u64 size_bytes in
       ebind (read_tail mem data (off + 16) tail_size) (\<lambda>tail.
         Inr (\<lparr>columns = ts, tail_payload = tail, delete_mask = get_u64 mask\<rparr>,
            off + 16 + tail_size + word_of_nat (pad64 (unat (8 + 8 + tail_size))))))))))
      (\<lambda>(b, off'). unat off' \<le> length data + 63)"
    if off: "unat off \<le> length data + 63" for off ts
  proof -
    have b: "in_bounds data off 8 \<longleftrightarrow> unat off + 8 \<le> length data"
      using in_bounds_iff[of off 8 data] off assms(1) by simp
    { assume le: "unat off + 8 \<le> length data"
      then have u: "unat (off + 8) = unat off + 8" "unat (off + 16) = unat off + 16"
        using assms(1) unat_add_u64[of off 8] unat_add_u64[of off 16] by simp_all
      have b2: "in_bounds data (off + 8) 8 \<longleftrightarrow> unat off + 16 \<le> length data"
        using in_bounds_iff[of "off + 8" 8 data] u le assms(1) by simp linarith
      note u b2 }
    note f = this
    have fin: "unat (off + 16 + n + word_of_nat (pad64 m)) \<le> length data + 63"
      if "unat (off + 16) + unat n \<le> length data" for n m
    proof -
      have p: "unat (word_of_nat (pad64 m) :: u64) = pad64 m" "pad64 m \<le> 63"
        using pad64_less[of m] by simp_all
      have "unat (off + 16 + n) = unat (off + 16) + unat n"
        using unat_add_u64[of "off + 16" n] that assms(1) by simp
      then show ?thesis
        using unat_add_u64[of "off + 16 + n" "word_of_nat (pad64 m)"] p that assms(1) by simp
    qed
    show ?thesis
      unfolding Let_def
      by (intro safe_from_guard safe_from_read safe_from_ebind[OF safe_read_tail[OF assms(1)]])
         (auto simp: b f intro: fin)
  qed
  show ?thesis
    unfolding read_block_def
    by (intro safe_from_guard safe_from_ebind[OF safe_read_tiles[OF assms]])
       (auto intro!: step simp only: split: prod.splits)
qed

lemma safe_read_blocks:
  assumes "length data < 2 ^ 63" "unat off \<le> length data + 63"
  shows "safe_from (read_blocks mem nc n data off) (\<lambda>_. True)"
  using assms(2)
proof (induction n arbitrary: off)
  case 0 then show ?case by simp
next
  case (Suc n)
  show ?case
    unfolding read_blocks.simps
    by (intro safe_from_ebind[OF safe_read_block[OF assms(1) Suc.prems]])
       (auto intro!: safe_from_ebind[OF Suc.IH])
qed

lemma safe_Deserialize:
  assumes "length data < 2 ^ 63"
  shows "safe_from (Deserialize mem data) (\<lambda>_. True)"
proof -
  have p: "unat (off + word_of_nat (pad64 m)) \<le> length data + 63" if "unat off \<le> length data" for off :: u64 and m
    using unat_add_u64[of off "word_of_nat (pad64 m)"] pad64_less[of m] that assms by simp
  show ?thesis
    unfolding Deserialize_def Let_def
    by (auto intro!: safe_from_guard safe_from_ebind[OF safe_read_columns[OF assms]]
        safe_from_ebind[OF safe_read_blocks[OF assms]] p)
qed

subsection \<open>Alignment\<close>

lemma pad64_aligns: "(n + pad64 n) mod 64 = 0"
proof -
  have "n + (64 - n mod 64) = (n div 64 + 1) * 64"
  proof -
    define q r where "q = n div 64" and "r = n mod 64"
    have n: "n = q * 64 + r" "r < 64" by (simp_all only: q_def r_def div_mult_mod_eq mod_less_divisor zero_less_numeral)
    show ?thesis unfolding q_def[symmetric] r_def[symmetric] using n by simp
  qed
  then have "(n + (64 - n mod 64)) mod 64 = 0" by simp
  then show ?thesis by (simp add: pad64_def mod_add_right_eq)
qed

lemma length_serialize_tail: "length (serialize_tail b) mod 64 = 0"
proof -
  have "length (serialize_tail b) =
      (8 + 8 + length (tail_payload b)) + pad64 (8 + 8 + length (tail_payload b))"
    by (simp add: serialize_tail_def Let_def zero_bytes_def)
  then show ?thesis by (simp only: pad64_aligns)
qed

lemma length_concat_mod: "\<forall>x\<in>set xs. length (f x) mod m = 0 \<Longrightarrow> length (concat (map f xs)) mod m = 0"
  by (induction xs) (auto simp: mod_add_eq[symmetric])

lemma length_serialize_block: "wf_block nc b \<Longrightarrow> length (serialize_block nc b) mod 64 = 0"
  using length_concat_mod[of "columns b" tile_bytes 64] length_serialize_tail[of b]
  by (auto simp: serialize_block_wf wf_block_def length_tile_bytes simp flip: mod_add_eq)

text \<open>A small row group: one numeric column and one block, for the witnesses.\<close>

definition demo_row_group :: row_group where
  "demo_row_group = \<lparr>num_rows = 3, num_columns = 1, column_names = [''v''], column_types = [9],
     blocks = [\<lparr>columns = [zero_tile\<lparr>validity := 7\<rparr>], tail_payload = ''xyz'', delete_mask = 5\<rparr>]\<rparr>"

lemma exportable_demo: "exportable demo_row_group"
  by (simp add: exportable_def demo_row_group_def Serialize_def serialize_meta_def serialize_block_def
      serialize_header_def serialize_column_meta_def Let_def block_count_def wf_block_def wf_tile_def
      zero_tile_def zero_bytes_def CBST_MAGIC_def tile_bytes_def serialize_tail_def pad64_def
      length_concat comp_def sum_list_replicate)

lemma cbst_demo_read: "Deserialize (\<lambda>_. True) (Serialize demo_row_group) = Inr demo_row_group"
  by (rule Deserialize_Serialize) (simp_all add: exportable_demo)

subsection \<open>What the reader builds\<close>

lemma read_columns_length: "read_columns n data off = Inr (cols, off') \<Longrightarrow> length cols = n"
  by (induction n arbitrary: off cols off') (auto simp: ebind_eq_Inr split: prod.splits)

lemma wf_tile_of_bytes: "wf_tile (tile_of_bytes bs)"
  by (simp add: wf_tile_def tile_of_bytes_def Let_def)

lemma read_tiles_wf: "read_tiles n data off = Inr (ts, off') \<Longrightarrow> length ts = n \<and> (\<forall>t\<in>set ts. wf_tile t)"
  by (induction n arbitrary: off ts off') (auto simp: ebind_eq_Inr wf_tile_of_bytes split: prod.splits)

lemma read_block_wf: "read_block mem nc data off = Inr (b, off') \<Longrightarrow> wf_block nc b"
  by (auto simp: read_block_def Let_def ebind_eq_Inr wf_block_def split: prod.splits dest: read_tiles_wf)

lemma read_blocks_wf: "read_blocks mem nc n data off = Inr bs \<Longrightarrow> b \<in> set bs \<Longrightarrow> wf_block nc b"
  by (induction n arbitrary: off bs) (auto simp: ebind_eq_Inr split: prod.splits dest: read_block_wf)

lemma read_blocks_length: "read_blocks mem nc n data off = Inr bs \<Longrightarrow> length bs = n"
  by (induction n arbitrary: off bs) (auto simp: ebind_eq_Inr split: prod.splits)

text \<open>A number of the header as the bytes give it.\<close>

lemma le_value_less: "le_value bs < 256 ^ length bs"
proof (induction bs)
  case (Cons b bs)
  have "(of_char b :: nat) < 256" by simp
  then show ?case unfolding le_value.simps length_Cons power_Suc using Cons by linarith
qed simp

lemma unat_get_u64: "unat (get_u64 bs) = le_value (take 8 bs)"
proof -
  have "le_value (take 8 bs) < 256 ^ length (take 8 bs)" by (rule le_value_less)
  also have "(256 :: nat) ^ length (take 8 bs) \<le> 256 ^ 8" by (intro power_increasing) simp_all
  finally show ?thesis by (simp add: get_u64_def unat_u64)
qed

subsection \<open>Properties\<close>

text \<open>
  Property C5. Round trip of the CBST format: \<open>Deserialize\<close> returns exactly the row group that
  \<open>Serialize\<close> wrote (schema, tiles, delete masks and tail payloads), for every row group whose
  parts exist and fit, when the allocator grants what the image needs.
\<close>

theorem cbst_roundtrip:
  assumes "exportable rg" "\<forall>k \<le> length (Serialize rg). mem k"
  shows "Deserialize mem (Serialize rg) = Inr rg"
  using assms by (rule Deserialize_Serialize)

theorem cbst_roundtrip_witness:
  "Deserialize (\<lambda>_. True) (Serialize demo_row_group) = Inr demo_row_group"
  by (rule cbst_roundtrip) (simp_all add: exportable_demo)

text \<open>
  Property C6. Memory safety of \<open>Deserialize\<close>: whatever bytes it is given, and although the bounds
  checks are in wrapping 64-bit arithmetic, it never reads past the end of its buffer.
\<close>

theorem deserialize_never_reads_past_end:
  assumes "length data < 2 ^ 63"
  shows "Deserialize mem data \<noteq> Inl Read_Past_End"
  using safe_Deserialize[OF assms, of mem] by (auto simp: safe_from_def)

theorem deserialize_never_reads_past_end_witness:
  "Deserialize (\<lambda>_. True) (CBST_MAGIC @ zero_bytes 16 @ replicate 8 (char_of (255::nat)) @ zero_bytes 36)
     \<noteq> Inl Read_Past_End"
  by (rule deserialize_never_reads_past_end) (simp add: zero_bytes_def CBST_MAGIC_def)

text \<open>
  Property C7. Every section of a serialized row group is aligned to the 64 bytes of a cache line:
  the blocks start at a multiple of 64, each block's length is a multiple of 64, and so is the
  whole image.
\<close>

theorem cbst_sections_aligned:
  assumes "exportable rg"
  shows "(length (serialize_meta rg) + pad64 (length (serialize_meta rg))) mod 64 = 0 \<and>
    (\<forall>b\<in>set (blocks rg). length (serialize_block (unat (num_columns rg)) b) mod 64 = 0) \<and>
    length (Serialize rg) mod 64 = 0"
proof -
  have b: "\<forall>b\<in>set (blocks rg). length (serialize_block (unat (num_columns rg)) b) mod 64 = 0"
    using assms by (auto simp: exportable_def length_serialize_block)
  have "(length (serialize_meta rg) + pad64 (length (serialize_meta rg)) +
      length (concat (map (serialize_block (unat (num_columns rg))) (blocks rg)))) mod 64 = 0"
    using pad64_aligns[of "length (serialize_meta rg)"] length_concat_mod[OF b]
    by (metis add.right_neutral mod_add_eq mod_0)
  then show ?thesis using b pad64_aligns[of "length (serialize_meta rg)"] serialize_meta_section[OF assms]
    by (simp add: Serialize_sections[OF assms] zero_bytes_def add.assoc)
qed

theorem cbst_sections_aligned_witness:
  "length (Serialize demo_row_group) mod 64 = 0"
  using cbst_sections_aligned[OF exportable_demo] by simp

text \<open>
  Property C8. What \<open>Deserialize\<close> accepts has the shape its header states. The bytes 0 to 3 are the magic, and the
  little-endian numbers at the offsets 4, 12 and 20 are the numbers of rows, columns and blocks of the result: there are
  as many names and types as columns, as many blocks, and in every block one tile of 64 planes per column.
\<close>

theorem deserialize_well_formed:
  assumes "Deserialize mem data = Inr rg"
  shows "64 \<le> length data \<and> take 4 data = CBST_MAGIC \<and>
    unat (num_rows rg) = le_value (take 8 (drop 4 data)) \<and> unat (num_columns rg) = le_value (take 8 (drop 12 data)) \<and>
    length (column_names rg) = le_value (take 8 (drop 12 data)) \<and> length (column_types rg) = le_value (take 8 (drop 12 data)) \<and>
    length (blocks rg) = le_value (take 8 (drop 20 data)) \<and>
    (\<forall>b\<in>set (blocks rg). wf_block (le_value (take 8 (drop 12 data))) b)"
  using assms
  by (auto simp: Deserialize_def Let_def ebind_eq_Inr simp flip: unat_get_u64 split: if_splits
      dest!: read_columns_length dest: read_blocks_wf read_blocks_length)

theorem deserialize_well_formed_witness:
  "take 4 (Serialize demo_row_group) = CBST_MAGIC \<and> length (blocks demo_row_group) = le_value (take 8 (drop 20 (Serialize demo_row_group))) \<and>
   unat (num_columns demo_row_group) = le_value (take 8 (drop 12 (Serialize demo_row_group)))"
  using deserialize_well_formed[OF cbst_demo_read] by simp

text \<open>
  A row group exported to a file that opens and is written in full is imported back
  unchanged from that path, and no other file changes.
\<close>

theorem export_import_file:
  assumes "exportable rg" "\<forall>k \<le> length (Serialize rg). mem k" "can_open path"
    "store (Serialize rg) = Serialize rg"
  shows "\<exists>fs'. ExportToFile can_open store fs rg path = Inr fs' \<and> ImportFromFile mem fs' path = Inr rg \<and>
    (\<forall>p. p \<noteq> path \<longrightarrow> fs' p = fs p)"
  using assms Deserialize_Serialize[of rg mem]
  by (auto simp: ExportToFile_def ImportFromFile_def Let_def resize_ok_def exportable_def)

theorem export_import_file_witness:
  "\<exists>fs'. ExportToFile (\<lambda>_. True) id Map.empty demo_row_group ''rg.cbst'' = Inr fs' \<and>
     ImportFromFile (\<lambda>_. True) fs' ''rg.cbst'' = Inr demo_row_group \<and> fs' ''other'' = None"
  using export_import_file[OF exportable_demo, of "\<lambda>_. True" "\<lambda>_. True" "''rg.cbst''" id Map.empty] by fastforce

end
