(* ===== verification/Micro_Op.thy ===== *)
theory Micro_Op
  imports Row_Group
begin

text \<open>
  The micro operations of \<open>include/lex/jit/micro_op_compiler.hpp\<close>, the language the query planner
  emits and the JIT compiler translates, and what they mean: virtual registers hold either the
  address of a tile or a mask with one bit per row of the block. Comparisons are stated on the
  scalars of the tile, so this theory is the specification the generated code is checked against.
\<close>

subsection \<open>Operations\<close>

datatype opcode = LOAD_TILE | BIT_AND | BIT_OR | BIT_XOR | BIT_BIC | CMP_SKELETON | CMP_KIM
  | CMP_GT | CMP_LT | CMP_EQ | MATERIALIZE_SCALAR

record micro_op =
  op :: opcode
  dest_reg :: int
  src_reg1 :: int
  src_reg2 :: int
  imm :: u64

definition default_op :: micro_op where
  "default_op = \<lparr>op = LOAD_TILE, dest_reg = -1, src_reg1 = -1, src_reg2 = -1, imm = 0\<rparr>"

text \<open>The number of bits a comparison looks at: \<open>src_reg2\<close>, or \<open>cap\<close> when it is out of range.\<close>

definition compare_bits :: "int \<Rightarrow> int \<Rightarrow> nat" where
  "compare_bits cap num_bits = nat (if num_bits \<le> 0 \<or> num_bits > cap then cap else num_bits)"

lemma compare_bits_le: "0 < cap \<Longrightarrow> compare_bits cap n \<le> nat cap" "0 < cap \<Longrightarrow> 0 < compare_bits cap n"
  by (auto simp: compare_bits_def nat_le_eq_zle)

subsection \<open>Meaning\<close>

text \<open>The mask whose bit \<open>r\<close> tells whether row \<open>r\<close> satisfies \<open>P\<close>.\<close>

definition row_mask :: "(nat \<Rightarrow> bool) \<Rightarrow> u64" where
  "row_mask P = horner_sum of_bool 2 (map P [0..<64])"

lemma bit_row_mask [simp]: "bit (row_mask P) r \<longleftrightarrow> r < 64 \<and> P r"
  by (cases "r < 64") (simp_all add: row_mask_def bit_horner_sum_bit_word_iff)

lemma row_mask_cong: "(\<And>r. r < 64 \<Longrightarrow> P r = Q r) \<Longrightarrow> row_mask P = row_mask Q"
  by (rule bit_word_eqI) auto

definition low_bits :: "nat \<Rightarrow> u64 \<Rightarrow> u64" where
  "low_bits n w = take_bit n w"

text \<open>The five comparisons on one scalar.\<close>

fun compare_row :: "opcode \<Rightarrow> int \<Rightarrow> u64 \<Rightarrow> u64 \<Rightarrow> bool" where
  "compare_row CMP_SKELETON nb v x =
     (low_bits (compare_bits 32 nb) x = low_bits (compare_bits 32 nb) v)"
| "compare_row CMP_KIM nb v x =
     (x AND low_bits (compare_bits 64 nb) v = low_bits (compare_bits 64 nb) v)"
| "compare_row CMP_GT nb v x = (low_bits (compare_bits 64 nb) v < low_bits (compare_bits 64 nb) x)"
| "compare_row CMP_LT nb v x = (low_bits (compare_bits 64 nb) x < low_bits (compare_bits 64 nb) v)"
| "compare_row CMP_EQ nb v x = (low_bits (compare_bits 64 nb) x = low_bits (compare_bits 64 nb) v)"
| "compare_row _ nb v x = False"

fun bitwise :: "opcode \<Rightarrow> u64 \<Rightarrow> u64 \<Rightarrow> u64" where
  "bitwise BIT_AND a b = a AND b"
| "bitwise BIT_OR a b = a OR b"
| "bitwise BIT_XOR a b = a XOR b"
| "bitwise BIT_BIC a b = a AND NOT b"
| "bitwise _ a b = 0"

datatype vval = Tile nat | Mask u64

type_synonym vregs = "int \<Rightarrow> vval option"

text \<open>
  One operation on the virtual registers and the materialised buffer. \<open>None\<close>: the program is
  malformed (a register that was never set, a mask used as a tile, a tile that does not exist, a
  comparison that overwrites the address it still needs).
\<close>

definition run_op :: "cbst_tile list \<Rightarrow> micro_op \<Rightarrow> vregs \<times> u64 list \<Rightarrow> (vregs \<times> u64 list) option" where
  "run_op tiles m st = (case st of (rf, buf) \<Rightarrow>
     (case op m of
        LOAD_TILE \<Rightarrow>
          if unat (imm m) < length tiles then Some (rf(dest_reg m \<mapsto> Tile (unat (imm m))), buf) else None
      | MATERIALIZE_SCALAR \<Rightarrow>
          (case rf (src_reg1 m) of
             Some (Tile c) \<Rightarrow> if c < length tiles then Some (rf, map (tile_scalar (tiles ! c)) [0..<64]) else None
           | _ \<Rightarrow> None)
      | _ \<Rightarrow>
          if op m \<in> {BIT_AND, BIT_OR, BIT_XOR, BIT_BIC} then
            (case (rf (src_reg1 m), rf (src_reg2 m)) of
               (Some (Mask a), Some (Mask b)) \<Rightarrow> Some (rf(dest_reg m \<mapsto> Mask (bitwise (op m) a b)), buf)
             | _ \<Rightarrow> None)
          else
            (case rf (src_reg1 m) of
               Some (Tile c) \<Rightarrow>
                 if c < length tiles \<and> dest_reg m \<noteq> src_reg1 m
                 then Some (rf(dest_reg m \<mapsto> Mask (row_mask (\<lambda>r. compare_row (op m) (src_reg2 m) (imm m)
                        (tile_scalar (tiles ! c) r)))), buf)
                 else None
             | _ \<Rightarrow> None)))"

fun run_ops :: "cbst_tile list \<Rightarrow> micro_op list \<Rightarrow> vregs \<times> u64 list \<Rightarrow> (vregs \<times> u64 list) option" where
  "run_ops tiles [] st = Some st"
| "run_ops tiles (m # ms) st = (case run_op tiles m st of None \<Rightarrow> None | Some st' \<Rightarrow> run_ops tiles ms st')"

lemma run_ops_append:
  "run_ops tiles (xs @ ys) st = (case run_ops tiles xs st of None \<Rightarrow> None | Some st' \<Rightarrow> run_ops tiles ys st')"
  by (induction xs arbitrary: st) (auto split: option.splits)

text \<open>
  A block scan: run the program and apply the tombstone mask to the result register. An empty
  program selects nothing.
\<close>

definition scan_block :: "micro_op list \<Rightarrow> cbst_tile list \<Rightarrow> u64 \<Rightarrow> u64 list \<Rightarrow> (u64 \<times> u64 list) option" where
  "scan_block ops tiles dmask buf =
     (if ops = [] then Some (0, buf)
      else case run_ops tiles ops (\<lambda>_. None, buf) of
        None \<Rightarrow> None
      | Some (rf, buf') \<Rightarrow>
          (case rf (dest_reg (last ops)) of Some (Mask m) \<Rightarrow> Some (m AND dmask, buf') | _ \<Rightarrow> None))"

end
