(* ===== verification/A64.thy ===== *)
theory A64
  imports Micro_Op
begin

text \<open>
  The A64 instructions \<open>MicroOpCompiler::Compile\<close> asks AsmJit to assemble, with the meaning the
  architecture gives them on the part of the machine the generated code uses: the general
  registers x0 to x30, the stack as the sequence of its 16-byte slots, and data memory in 64-bit
  cells addressed by byte. The code reaches the stack only through \<open>sp\<close>, so the slots are kept
  apart from the data cells.
\<close>

type_synonym gp = nat

datatype a64_inst =
    MOV gp gp | MOV_SP gp | MOV_IMM gp u64 | MOV_XZR gp
  | MOVZ gp u64 nat | MOVK gp u64 nat
  | ADD gp gp gp | ADD_SP u64
  | AND_R gp gp gp | ORR gp gp gp | EOR gp gp gp | BIC gp gp gp
  | LDR gp gp nat | LDR_SP gp
  | STP_PRE gp gp | STR_PRE gp | LDP_POST gp gp | LDR_POST gp
  | BLR gp | RET gp

record a64_state =
  regs :: "gp \<Rightarrow> u64"
  sp :: u64
  stack :: "(u64 \<times> u64 option) list"
  mem :: "u64 \<Rightarrow> u64"

text \<open>
  What the code finds outside itself: the address of \<open>greengate_butterfly_transpose\<close>, and the
  values a call leaves in the caller-saved registers.
\<close>

record a64_env =
  helper_addr :: u64
  clobber :: "a64_state \<Rightarrow> gp \<Rightarrow> u64"

definition read_words :: "(u64 \<Rightarrow> u64) \<Rightarrow> u64 \<Rightarrow> u64 list" where
  "read_words m a = map (\<lambda>j. m (a + word_of_nat (8 * j))) [0..<64]"

definition write_words :: "(u64 \<Rightarrow> u64) \<Rightarrow> u64 \<Rightarrow> u64 list \<Rightarrow> u64 \<Rightarrow> u64" where
  "write_words m a ws = fold (\<lambda>j m. m(a + word_of_nat (8 * j) := ws ! j)) [0..<64] m"

definition set_reg :: "gp \<Rightarrow> u64 \<Rightarrow> a64_state \<Rightarrow> a64_state" where
  "set_reg r v s = s\<lparr>regs := (regs s)(r := v)\<rparr>"

definition caller_saved :: "gp \<Rightarrow> bool" where
  "caller_saved r \<longleftrightarrow> r \<le> 18 \<or> r = 30"

fun step :: "a64_env \<Rightarrow> a64_inst \<Rightarrow> a64_state \<Rightarrow> a64_state option" where
  "step e (MOV d n) s = Some (set_reg d (regs s n) s)"
| "step e (MOV_SP d) s = Some (set_reg d (sp s) s)"
| "step e (MOV_IMM d v) s = Some (set_reg d v s)"
| "step e (MOV_XZR d) s = Some (set_reg d 0 s)"
| "step e (MOVZ d v sh) s = Some (set_reg d (push_bit sh v) s)"
| "step e (MOVK d v sh) s = Some (set_reg d ((regs s d AND NOT (push_bit sh 0xFFFF)) OR push_bit sh v) s)"
| "step e (ADD d n m) s = Some (set_reg d (regs s n + regs s m) s)"
| "step e (ADD_SP v) s = (if v = 16 then (case stack s of [] \<Rightarrow> None | _ # st \<Rightarrow> Some (s\<lparr>stack := st, sp := sp s + 16\<rparr>)) else None)"
| "step e (AND_R d n m) s = Some (set_reg d (regs s n AND regs s m) s)"
| "step e (ORR d n m) s = Some (set_reg d (regs s n OR regs s m) s)"
| "step e (EOR d n m) s = Some (set_reg d (regs s n XOR regs s m) s)"
| "step e (BIC d n m) s = Some (set_reg d (regs s n AND NOT (regs s m)) s)"
| "step e (LDR d n off) s = Some (set_reg d (mem s (regs s n + word_of_nat off)) s)"
| "step e (LDR_SP d) s = (case stack s of [] \<Rightarrow> None | (x, _) # st \<Rightarrow> Some (set_reg d x s))"
| "step e (STP_PRE a b) s = Some (s\<lparr>stack := (regs s a, Some (regs s b)) # stack s, sp := sp s - 16\<rparr>)"
| "step e (STR_PRE a) s = Some (s\<lparr>stack := (regs s a, None) # stack s, sp := sp s - 16\<rparr>)"
| "step e (LDP_POST a b) s = (case stack s of (x, Some y) # st \<Rightarrow>
     Some (set_reg b y (set_reg a x (s\<lparr>stack := st, sp := sp s + 16\<rparr>))) | _ \<Rightarrow> None)"
| "step e (LDR_POST a) s = (case stack s of (x, _) # st \<Rightarrow>
     Some (set_reg a x (s\<lparr>stack := st, sp := sp s + 16\<rparr>)) | _ \<Rightarrow> None)"
| "step e (BLR r) s = (if regs s r = helper_addr e then
     Some (s\<lparr>mem := write_words (mem s) (regs s 1) (greengate_butterfly_transpose (read_words (mem s) (regs s 0))),
             regs := (\<lambda>x. if caller_saved x then clobber e s x else regs s x)\<rparr>) else None)"
| "step e (RET r) s = None"

fun run_code :: "a64_env \<Rightarrow> a64_inst list \<Rightarrow> a64_state \<Rightarrow> a64_state option" where
  "run_code e [] s = Some s"
| "run_code e (i # rest) s = (case step e i s of None \<Rightarrow> None | Some s' \<Rightarrow> run_code e rest s')"

text \<open>A call of the assembled function runs until \<open>RET x30\<close>; falling off its end is undefined.\<close>

fun call_code :: "a64_env \<Rightarrow> a64_inst list \<Rightarrow> a64_state \<Rightarrow> a64_state option" where
  "call_code e [] s = None"
| "call_code e (RET r # rest) s = (if r = 30 then Some s else None)"
| "call_code e (i # rest) s = (case step e i s of None \<Rightarrow> None | Some s' \<Rightarrow> call_code e rest s')"

subsection \<open>Basic facts\<close>

lemma set_reg_simps [simp]:
  "regs (set_reg r v s) = (regs s)(r := v)" "sp (set_reg r v s) = sp s"
  "stack (set_reg r v s) = stack s" "mem (set_reg r v s) = mem s"
  by (simp_all add: set_reg_def)

lemma run_code_append:
  "run_code e (xs @ ys) s = (case run_code e xs s of None \<Rightarrow> None | Some s' \<Rightarrow> run_code e ys s')"
  by (induction xs arbitrary: s) (auto split: option.splits)

lemma call_code_run:
  "run_code e xs s = Some s' \<Longrightarrow> call_code e (xs @ [RET 30]) s = Some s'"
proof (induction xs arbitrary: s)
  case Nil then show ?case by simp
next
  case (Cons i rest) then show ?case by (cases i) (auto split: option.splits if_splits)
qed

lemma length_read_words [simp, length_simps]: "length (read_words m a) = 64"
  by (simp add: read_words_def)

text \<open>\<open>in_words a x\<close>: \<open>x\<close> is one of the 64 cells from \<open>a\<close>.\<close>

definition in_words :: "u64 \<Rightarrow> u64 \<Rightarrow> bool" where
  "in_words a x \<longleftrightarrow> (\<exists>j\<in>{0..<64}. x = a + word_of_nat (8 * j))"

lemma cell_inj:
  assumes "i < 64" "j < 64" "(a :: u64) + word_of_nat (8 * i) = a + word_of_nat (8 * j)"
  shows "i = j"
proof -
  have "unat (word_of_nat (8 * i) :: u64) = unat (word_of_nat (8 * j) :: u64)" using assms(3) by simp
  moreover have "8 * i < 2 ^ 64" "8 * j < 2 ^ 64" using assms(1,2) by simp_all
  ultimately have "8 * i = 8 * j" by (simp only: unat_u64)
  then show ?thesis by simp
qed

lemma write_words_other: "\<not> in_words a x \<Longrightarrow> write_words m a ws x = m x"
proof -
  have "(\<forall>j\<in>set js. x \<noteq> a + word_of_nat (8 * j)) \<Longrightarrow>
      fold (\<lambda>j m. m(a + word_of_nat (8 * j) := ws ! j)) js m x = m x" for js
    by (induction js arbitrary: m) auto
  then show "\<not> in_words a x \<Longrightarrow> write_words m a ws x = m x"
    unfolding write_words_def in_words_def by auto
qed

lemma write_words_same:
  assumes "i < 64"
  shows "write_words m a ws (a + word_of_nat (8 * i)) = ws ! i"
proof -
  have "i \<in> set js \<Longrightarrow> set js \<subseteq> {0..<64} \<Longrightarrow>
      fold (\<lambda>j m. m(a + word_of_nat (8 * j) := ws ! j)) js m (a + word_of_nat (8 * i)) = ws ! i" for js
  proof (induction js rule: rev_induct)
    case Nil then show ?case by simp
  next
    case (snoc j js)
    then show ?case using cell_inj[of i j a] assms by (auto simp del: of_nat_mult)
  qed
  then show ?thesis using assms by (simp add: write_words_def del: of_nat_mult)
qed

lemma read_write_words: "length ws = 64 \<Longrightarrow> read_words (write_words m a ws) a = ws"
  by (rule nth_equalityI) (simp_all add: read_words_def write_words_same del: of_nat_mult)

text \<open>
  \<open>only_regs R s s'\<close>: between \<open>s\<close> and \<open>s'\<close> only registers of \<open>R\<close> changed.
\<close>

definition only_regs :: "gp set \<Rightarrow> a64_state \<Rightarrow> a64_state \<Rightarrow> bool" where
  "only_regs R s s' \<longleftrightarrow> (\<forall>r. r \<notin> R \<longrightarrow> regs s' r = regs s r) \<and> sp s' = sp s \<and> stack s' = stack s \<and> mem s' = mem s"

lemma only_regs_trans: "only_regs R s s' \<Longrightarrow> only_regs R s' s'' \<Longrightarrow> only_regs R s s''"
  by (simp add: only_regs_def)

lemma only_regs_refl [simp]: "only_regs R s s"
  by (simp add: only_regs_def)

lemma only_regs_mono: "only_regs R s s' \<Longrightarrow> R \<subseteq> R' \<Longrightarrow> only_regs R' s s'"
  by (auto simp: only_regs_def)

lemma only_regs_set: "r \<in> R \<Longrightarrow> only_regs R s (set_reg r v s)"
  by (simp add: only_regs_def)

end
