(* ===== verification/Compiler.thy ===== *)
theory Compiler
  imports A64
begin

text \<open>
  \<open>MicroOpCompiler::Compile\<close> of \<open>src/lex/jit/micro_op_compiler.cpp\<close>: the register allocator, the
  instruction selection of every micro operation with its unrolled bit loops, the prologue and
  the epilogue. The compiler is proved against the meaning of the micro operations in
  \<open>Micro_Op\<close> on the machine of \<open>A64\<close>.
\<close>

subsection \<open>Register allocation\<close>

datatype jit_error = Out_of_physical_GPR | Out_of_scratch | AsmJit_failed u32

record alloc =
  reg_map :: "(int \<times> gp) list"
  next_gp :: nat

definition gp_pool :: "gp list" where
  "gp_pool = [22, 23, 24, 25, 26, 27, 28, 9, 10, 11, 12, 13, 14, 15]"

definition get_reg :: "int \<Rightarrow> alloc \<Rightarrow> jit_error + gp \<times> alloc" where
  "get_reg vreg al =
     (case map_of (reg_map al) vreg of
        Some g \<Rightarrow> Inr (g, al)
      | None \<Rightarrow>
          if length gp_pool \<le> next_gp al then Inl Out_of_physical_GPR
          else let g = gp_pool ! next_gp al
               in Inr (g, al\<lparr>reg_map := (vreg, g) # reg_map al, next_gp := next_gp al + 1\<rparr>))"

definition get_scratch_reg :: "alloc \<Rightarrow> gp list \<Rightarrow> jit_error + gp" where
  "get_scratch_reg al exclude =
     (case find (\<lambda>r. r \<notin> snd ` set (reg_map al) \<and> r \<notin> set exclude) gp_pool of
        None \<Rightarrow> Inl Out_of_scratch
      | Some r \<Rightarrow> Inr r)"

text \<open>The four scratch registers of a comparison, each excluding the ones before it.\<close>

definition four_scratch :: "alloc \<Rightarrow> gp \<Rightarrow> gp \<Rightarrow> jit_error + gp \<times> gp \<times> gp \<times> gp" where
  "four_scratch al eq tile_addr =
     ebind (get_scratch_reg al [eq, tile_addr]) (\<lambda>t0.
     ebind (get_scratch_reg al [eq, tile_addr, t0]) (\<lambda>t1.
     ebind (get_scratch_reg al [eq, tile_addr, t0, t1]) (\<lambda>t2.
     ebind (get_scratch_reg al [eq, tile_addr, t0, t1, t2]) (\<lambda>t3. Inr (t0, t1, t2, t3)))))"

subsection \<open>Emitting one bit of a comparison\<close>

definition imm_bit :: "'a::len word \<Rightarrow> nat \<Rightarrow> 'a word" where
  "imm_bit v k = drop_bit k v AND 1"

definition emit_mov_imm64 :: "gp \<Rightarrow> u64 \<Rightarrow> a64_inst list" where
  "emit_mov_imm64 dst v = [MOVZ dst (v AND 0xFFFF) 0, MOVK dst (drop_bit 16 v AND 0xFFFF) 16,
     MOVK dst (drop_bit 32 v AND 0xFFFF) 32, MOVK dst (drop_bit 48 v AND 0xFFFF) 48]"

definition emit_eq :: "gp \<Rightarrow> u64 \<Rightarrow> gp \<Rightarrow> a64_inst list" where
  "emit_eq eq c tmp = (if c = 0 then [BIC eq eq tmp] else [AND_R eq eq tmp])"

definition emit_kim :: "gp \<Rightarrow> u64 \<Rightarrow> gp \<Rightarrow> a64_inst list" where
  "emit_kim eq c tmp = (if c = 1 then [AND_R eq eq tmp] else [])"

definition emit_gt :: "gp \<times> gp \<times> gp \<Rightarrow> u64 \<Rightarrow> gp \<Rightarrow> a64_inst list" where
  "emit_gt = (\<lambda>(gt, eq, tmp_and) c tmp.
     if c = 0 then [AND_R tmp_and eq tmp, ORR gt gt tmp_and, BIC eq eq tmp] else [AND_R eq eq tmp])"

definition emit_lt :: "gp \<times> gp \<times> gp \<Rightarrow> u64 \<Rightarrow> gp \<Rightarrow> a64_inst list" where
  "emit_lt = (\<lambda>(lt, eq, tmp_and) c tmp.
     if c = 1 then [BIC tmp_and eq tmp, ORR lt lt tmp_and, AND_R eq eq tmp] else [BIC eq eq tmp])"

text \<open>
  The unrolled loops. \<open>n\<close> is \<open>bit + 1\<close>: \<open>for (; bit >= 3; bit -= 4)\<close> followed by the cleanup
  loop \<open>for (; bit >= 0; --bit)\<close>, and \<open>for (; bit >= 1; bit -= 2)\<close> followed by
  \<open>if (bit == 0)\<close>. \<open>emit k tmp\<close> is the code for bit \<open>k\<close>, whose plane is in \<open>tmp\<close>.
\<close>

fun emit_singles :: "(nat \<Rightarrow> gp \<Rightarrow> a64_inst list) \<Rightarrow> gp \<Rightarrow> gp \<Rightarrow> nat \<Rightarrow> a64_inst list" where
  "emit_singles emit tile_addr t0 0 = []"
| "emit_singles emit tile_addr t0 (Suc k) = LDR t0 tile_addr (k * 8) # emit k t0 @ emit_singles emit tile_addr t0 k"

fun emit_quads :: "(nat \<Rightarrow> gp \<Rightarrow> a64_inst list) \<Rightarrow> gp \<Rightarrow> gp \<times> gp \<times> gp \<times> gp \<Rightarrow> nat \<Rightarrow> a64_inst list" where
  "emit_quads emit tile_addr (t0, t1, t2, t3) n =
     (if 4 \<le> n then
        [LDR t0 tile_addr ((n - 1) * 8), LDR t1 tile_addr ((n - 2) * 8),
         LDR t2 tile_addr ((n - 3) * 8), LDR t3 tile_addr ((n - 4) * 8)] @
        emit (n - 1) t0 @ emit (n - 2) t1 @ emit (n - 3) t2 @ emit (n - 4) t3 @
        emit_quads emit tile_addr (t0, t1, t2, t3) (n - 4)
      else emit_singles emit tile_addr t0 n)"

fun emit_pairs :: "(nat \<Rightarrow> gp \<Rightarrow> a64_inst list) \<Rightarrow> gp \<Rightarrow> gp \<times> gp \<Rightarrow> nat \<Rightarrow> a64_inst list" where
  "emit_pairs emit tile_addr (t0, t1) n =
     (if 2 \<le> n then
        [LDR t0 tile_addr ((n - 1) * 8), LDR t1 tile_addr ((n - 2) * 8)] @
        emit (n - 1) t0 @ emit (n - 2) t1 @ emit_pairs emit tile_addr (t0, t1) (n - 2)
      else if n = 1 then LDR t0 tile_addr 0 # emit 0 t0
      else [])"

declare emit_quads.simps [simp del] emit_pairs.simps [simp del]

subsection \<open>Compiling one operation\<close>

definition sizeof_tile :: u64 where
  "sizeof_tile = 576"

definition compile_bitwise :: "(gp \<Rightarrow> gp \<Rightarrow> gp \<Rightarrow> a64_inst) \<Rightarrow> micro_op \<Rightarrow> alloc \<Rightarrow> jit_error + a64_inst list \<times> alloc" where
  "compile_bitwise inst m al =
     ebind (get_reg (dest_reg m) al) (\<lambda>(d, al).
     ebind (get_reg (src_reg1 m) al) (\<lambda>(a, al).
     ebind (get_reg (src_reg2 m) al) (\<lambda>(b, al). Inr ([inst d a b], al))))"

definition compile_load_tile :: "micro_op \<Rightarrow> alloc \<Rightarrow> jit_error + a64_inst list \<times> alloc" where
  "compile_load_tile m al =
     ebind (get_reg (dest_reg m) al) (\<lambda>(r, al).
       let offset = imm m * sizeof_tile
       in Inr (if offset = 0 then [MOV r 19] else emit_mov_imm64 8 offset @ [ADD r 19 8], al))"

definition compile_quads ::
  "(gp \<Rightarrow> u64 \<Rightarrow> gp \<Rightarrow> a64_inst list) \<Rightarrow> (nat \<Rightarrow> u64) \<Rightarrow> nat \<Rightarrow> micro_op \<Rightarrow> alloc \<Rightarrow> jit_error + a64_inst list \<times> alloc"
  where
  "compile_quads emit c num_bits m al =
     ebind (get_reg (dest_reg m) al) (\<lambda>(eq, al).
     ebind (get_reg (src_reg1 m) al) (\<lambda>(tile_addr, al).
     ebind (four_scratch al eq tile_addr) (\<lambda>ts.
       Inr (MOV_IMM eq (- 1) # emit_quads (\<lambda>k. emit eq (c k)) tile_addr ts num_bits, al))))"

definition compile_pairs ::
  "(gp \<times> gp \<times> gp \<Rightarrow> u64 \<Rightarrow> gp \<Rightarrow> a64_inst list) \<Rightarrow> micro_op \<Rightarrow> alloc \<Rightarrow> jit_error + a64_inst list \<times> alloc"
  where
  "compile_pairs emit m al =
     ebind (get_reg (dest_reg m) al) (\<lambda>(res, al).
     ebind (get_reg (src_reg1 m) al) (\<lambda>(tile_addr, al).
     ebind (four_scratch al res tile_addr) (\<lambda>(eq, tmp_and, t0, t1).
       Inr (MOV_IMM res 0 # MOV_IMM eq (- 1) #
            emit_pairs (\<lambda>k. emit (res, eq, tmp_and) (imm_bit (imm m) k)) tile_addr (t0, t1)
              (compare_bits 64 (src_reg2 m)), al))))"

definition compile_materialize :: "u64 \<Rightarrow> micro_op \<Rightarrow> alloc \<Rightarrow> jit_error + a64_inst list \<times> alloc" where
  "compile_materialize helper m al =
     ebind (get_reg (src_reg1 m) al) (\<lambda>(tile_addr, al).
       Inr ([STP_PRE 9 10, STP_PRE 11 12, STP_PRE 13 14, STR_PRE 15, MOV 0 tile_addr, MOV 1 21] @
            emit_mov_imm64 8 helper @
            [BLR 8, LDR_POST 15, LDP_POST 13 14, LDP_POST 11 12, LDP_POST 9 10], al))"

definition compile_op :: "u64 \<Rightarrow> micro_op \<Rightarrow> alloc \<Rightarrow> jit_error + a64_inst list \<times> alloc" where
  "compile_op helper m al =
     (case op m of
        LOAD_TILE \<Rightarrow> compile_load_tile m al
      | BIT_AND \<Rightarrow> compile_bitwise AND_R m al
      | BIT_OR \<Rightarrow> compile_bitwise ORR m al
      | BIT_XOR \<Rightarrow> compile_bitwise EOR m al
      | BIT_BIC \<Rightarrow> compile_bitwise BIC m al
      | CMP_SKELETON \<Rightarrow>
          compile_quads emit_eq (\<lambda>k. ucast (imm_bit (ucast (imm m) :: u32) k)) (compare_bits 32 (src_reg2 m)) m al
      | CMP_KIM \<Rightarrow> compile_quads emit_kim (imm_bit (imm m)) (compare_bits 64 (src_reg2 m)) m al
      | CMP_EQ \<Rightarrow> compile_quads emit_eq (imm_bit (imm m)) (compare_bits 64 (src_reg2 m)) m al
      | CMP_GT \<Rightarrow> compile_pairs emit_gt m al
      | CMP_LT \<Rightarrow> compile_pairs emit_lt m al
      | MATERIALIZE_SCALAR \<Rightarrow> compile_materialize helper m al)"

fun compile_ops :: "u64 \<Rightarrow> micro_op list \<Rightarrow> alloc \<Rightarrow> jit_error + a64_inst list \<times> alloc" where
  "compile_ops helper [] al = Inr ([], al)"
| "compile_ops helper (m # ms) al =
     ebind (compile_op helper m al) (\<lambda>(code, al).
     ebind (compile_ops helper ms al) (\<lambda>(rest, al). Inr (code @ rest, al)))"

subsection \<open>The whole function\<close>

definition prologue :: "a64_inst list" where
  "prologue = [STP_PRE 29 30, MOV_SP 29, STP_PRE 19 20, STP_PRE 21 22, STP_PRE 23 24, STP_PRE 25 26,
     STP_PRE 27 28, STR_PRE 3, MOV 19 0, MOV 20 1, MOV 21 2]"

definition epilogue :: "a64_inst list" where
  "epilogue = [ADD_SP 16, LDP_POST 27 28, LDP_POST 25 26, LDP_POST 23 24, LDP_POST 21 22, LDP_POST 19 20,
     LDP_POST 29 30]"

definition compile_result :: "micro_op list \<Rightarrow> alloc \<Rightarrow> jit_error + a64_inst list" where
  "compile_result ops al =
     (if ops \<noteq> [] then
        ebind (get_reg (dest_reg (last ops)) al) (\<lambda>(res, al). Inr [LDR_SP 8, AND_R 0 res 8])
      else Inr [MOV_XZR 0])"

text \<open>\<open>rt_add\<close> is the error code \<open>JitRuntime::add\<close> returns for the assembled code, 0 for success.\<close>

definition Compile :: "(a64_inst list \<Rightarrow> u32) \<Rightarrow> u64 \<Rightarrow> micro_op list \<Rightarrow> jit_error + a64_inst list" where
  "Compile rt_add helper ops =
     ebind (compile_ops helper ops \<lparr>reg_map = [], next_gp = 0\<rparr>) (\<lambda>(body, al).
     ebind (compile_result ops al) (\<lambda>result.
       let code = prologue @ body @ result @ epilogue @ [RET 30]
       in if rt_add code \<noteq> 0 then Inl (AsmJit_failed (rt_add code)) else Inr code))"

end
