(* ===== verification/Arrow.thy ===== *)
theory Arrow
  imports Prelude
begin

text \<open>
  Apache Arrow as the code sees it. Arrow is a third-party library, so nothing of it is defined
  here: an immutable Arrow object enters the model as the record of the answers its accessors
  give, and is an argument of every definition that uses it. What the code relies on beyond the
  accessors (that a schema and its columns agree, that \<open>GetColumnByName\<close> finds a column by its
  field name) is the predicate \<open>arrow_batch\<close>, which the theorems take as a hypothesis.
\<close>

text \<open>
  \<open>arrow::Array\<close>: \<open>type_id()\<close>, \<open>IsNull(i)\<close>, \<open>raw_values()[i]\<close> (for a \<open>BooleanArray\<close>,
  \<open>Value(i)\<close> as 0 or 1), \<open>GetView(i)\<close> of a string array, and the sizes of its non-null buffers.
\<close>

record arrow_array =
  type_id :: u32
  is_null :: "nat \<Rightarrow> bool"
  raw_value :: "nat \<Rightarrow> int"
  get_view :: "nat \<Rightarrow> string"
  buffer_sizes :: "nat list"

text \<open>
  \<open>arrow::RecordBatch\<close>: \<open>num_rows()\<close>, \<open>schema()->field(f)\<close> as a name and a type id, \<open>column(f)\<close>
  and \<open>GetColumnByName(name)\<close>, which may be null.
\<close>

record record_batch =
  batch_rows :: nat
  schema_fields :: "(string \<times> u32) list"
  batch_columns :: "arrow_array list"
  column_by_name :: "string \<Rightarrow> arrow_array option"

text \<open>The enumerators of \<open>arrow::Type::type\<close> the code names.\<close>

abbreviation "Type_BOOL \<equiv> (1 :: u32)"
abbreviation "Type_UINT8 \<equiv> (2 :: u32)"
abbreviation "Type_INT8 \<equiv> (3 :: u32)"
abbreviation "Type_UINT16 \<equiv> (4 :: u32)"
abbreviation "Type_INT16 \<equiv> (5 :: u32)"
abbreviation "Type_UINT32 \<equiv> (6 :: u32)"
abbreviation "Type_INT32 \<equiv> (7 :: u32)"
abbreviation "Type_UINT64 \<equiv> (8 :: u32)"
abbreviation "Type_INT64 \<equiv> (9 :: u32)"
abbreviation "Type_STRING \<equiv> (13 :: u32)"
abbreviation "Type_BINARY \<equiv> (14 :: u32)"

definition is_string_type :: "u32 \<Rightarrow> bool" where
  "is_string_type t \<longleftrightarrow> t = Type_STRING \<or> t = Type_BINARY"

text \<open>
  The documented behaviour of a valid batch: the schema has a field per column, of the column's
  type, and a column is found under its field name when the name is unique.
\<close>

definition arrow_batch :: "record_batch \<Rightarrow> bool" where
  "arrow_batch b \<longleftrightarrow> map snd (schema_fields b) = map type_id (batch_columns b) \<and>
     batch_rows b < 2 ^ 63 \<and> distinct (map fst (schema_fields b)) \<and>
     (\<forall>name. column_by_name b name = map_of (zip (map fst (schema_fields b)) (batch_columns b)) name)"

text \<open>A concrete array and batch, for the witnesses.\<close>

definition int64_array :: "int option list \<Rightarrow> arrow_array" where
  "int64_array xs = \<lparr>type_id = Type_INT64, is_null = (\<lambda>i. xs ! i = None),
     raw_value = (\<lambda>i. case xs ! i of None \<Rightarrow> 0 | Some v \<Rightarrow> v), get_view = (\<lambda>_. []),
     buffer_sizes = [8 * length xs]\<rparr>"

definition string_array :: "string option list \<Rightarrow> arrow_array" where
  "string_array xs = \<lparr>type_id = Type_STRING, is_null = (\<lambda>i. xs ! i = None), raw_value = (\<lambda>_. 0),
     get_view = (\<lambda>i. case xs ! i of None \<Rightarrow> [] | Some s \<Rightarrow> s),
     buffer_sizes = [4 * (length xs + 1), sum_list (map (\<lambda>s. case s of None \<Rightarrow> 0 | Some t \<Rightarrow> length t) xs)]\<rparr>"

definition batch_of :: "nat \<Rightarrow> (string \<times> arrow_array) list \<Rightarrow> record_batch" where
  "batch_of n cols = \<lparr>batch_rows = n, schema_fields = map (\<lambda>(nm, a). (nm, type_id a)) cols,
     batch_columns = map snd cols, column_by_name = map_of cols\<rparr>"

lemma arrow_batch_of: "n < 2 ^ 63 \<Longrightarrow> distinct (map fst cols) \<Longrightarrow> arrow_batch (batch_of n cols)"
proof -
  have "zip (map (\<lambda>x. case x of (nm, a) \<Rightarrow> nm) cols) (map snd cols) = cols"
    by (induction cols) auto
  then show "n < 2 ^ 63 \<Longrightarrow> distinct (map fst cols) \<Longrightarrow> arrow_batch (batch_of n cols)"
    by (auto simp: arrow_batch_def batch_of_def comp_def split_def zip_map_fst_snd)
qed

end
