(* ===== verification/Kim.thy ===== *)
theory Kim
  imports Prelude
begin

text \<open>
  \<open>GenerateKimSignature\<close> of \<open>src/lex/ingest/adaptive_ingester.cpp\<close>: a 64-bit Bloom filter over
  the byte bigrams of a string, three hash bits per bigram, with the hashes in wrapping 32-bit
  arithmetic. The fact every string predicate rests on is that the filter has no false
  negatives for patterns of two bytes or more; for one-byte patterns it has them.
\<close>

definition hash_bits :: "u32 \<Rightarrow> u32 \<Rightarrow> u32 \<Rightarrow> u64" where
  "hash_bits h1 h2 h3 = push_bit (unat (h1 mod 64)) 1 OR push_bit (unat (h2 mod 64)) 1 OR
     push_bit (unat (h3 mod 64)) 1"

definition char_bits :: "char \<Rightarrow> u64" where
  "char_bits c = (let ch = (word_of_nat (of_char c) :: u32)
     in hash_bits (ch * 17) (ch * 31 + 5) (ch * 127 + 13))"

definition bigram_of :: "char \<Rightarrow> char \<Rightarrow> u32" where
  "bigram_of a b = push_bit 8 (word_of_nat (of_char a)) OR word_of_nat (of_char b)"

definition bigram_bits :: "char \<Rightarrow> char \<Rightarrow> u64" where
  "bigram_bits a b = (let bigram = bigram_of a b
     in hash_bits (bigram * 2654435761) (bigram * 2246822519 + 12345) (bigram * 3266489917 + 67890))"

fun bigram_loop :: "string \<Rightarrow> u64 \<Rightarrow> u64" where
  "bigram_loop (a # b # rest) signature = bigram_loop (b # rest) (signature OR bigram_bits a b)"
| "bigram_loop _ signature = signature"

definition GenerateKimSignature :: "string \<Rightarrow> u64" where
  "GenerateKimSignature str =
     (if str = [] then 0
      else if length str = 1 then char_bits (str ! 0)
      else bigram_loop str 0)"

subsection \<open>The signature is the union of the bits of the bigrams\<close>

definition bigrams :: "string \<Rightarrow> (char \<times> char) list" where
  "bigrams s = zip s (tl s)"

lemma bigrams_simps [simp]:
  "bigrams [] = []" "bigrams [a] = []" "bigrams (a # b # s) = (a, b) # bigrams (b # s)"
  by (simp_all add: bigrams_def)

lemma bit_bigram_loop:
  "bit (bigram_loop s w) i \<longleftrightarrow> bit w i \<or> (\<exists>(a, b)\<in>set (bigrams s). bit (bigram_bits a b) i)"
  by (induction s w rule: bigram_loop.induct) (auto simp: bit_simps)

lemma bit_kim:
  "length s \<noteq> 1 \<Longrightarrow> bit (GenerateKimSignature s) i \<longleftrightarrow> (\<exists>(a, b)\<in>set (bigrams s). bit (bigram_bits a b) i)"
  by (cases s) (auto simp: GenerateKimSignature_def bit_bigram_loop)

lemma bigrams_infix: "set (bigrams p) \<subseteq> set (bigrams (xs @ p @ ys))"
proof (induction xs)
  case Nil
  show ?case
  proof (induction p)
    case Nil then show ?case by simp
  next
    case (Cons a p)
    then show ?case by (cases p) auto
  qed
next
  case (Cons x xs)
  then show ?case by (cases "xs @ p @ ys") auto
qed

text \<open>\<open>kim_covers s p\<close>: the test \<open>CMP_KIM\<close> makes, that every bit of the pattern's signature is set.\<close>

definition kim_covers :: "u64 \<Rightarrow> u64 \<Rightarrow> bool" where
  "kim_covers s p \<longleftrightarrow> s AND p = p"

lemma kim_covers_iff: "kim_covers s p \<longleftrightarrow> (\<forall>i<64. bit p i \<longrightarrow> bit s i)"
  by (auto simp: kim_covers_def bit_eq_iff bit_simps)

lemma kim_covers_refl [simp]: "kim_covers s s"
  by (simp add: kim_covers_def)

lemma kim_covers_infix:
  assumes "2 \<le> length p"
  shows "kim_covers (GenerateKimSignature (xs @ p @ ys)) (GenerateKimSignature p)"
  using assms bigrams_infix[of p xs ys] by (fastforce simp: kim_covers_iff bit_kim)

subsection \<open>Properties\<close>

text \<open>
  Property C10. The KIM filter has no false negatives for substring patterns of at least two bytes:
  the signature of a string contains the signature of each of its substrings.
\<close>

theorem kim_no_false_negatives:
  assumes "2 \<le> length p"
  shows "GenerateKimSignature (xs @ p @ ys) AND GenerateKimSignature p = GenerateKimSignature p"
  using kim_covers_infix[OF assms] by (simp add: kim_covers_def)

theorem kim_no_false_negatives_witness:
  "GenerateKimSignature (''al'' @ ''ph'' @ ''a'') AND GenerateKimSignature ''ph'' = GenerateKimSignature ''ph''"
  by (rule kim_no_false_negatives) simp

text \<open>
  For a one-byte pattern the filter does have false negatives, because a single byte is
  hashed by other functions than a bigram: the string \<open>ba\<close> contains \<open>a\<close>, and its signature does
  not contain the signature of \<open>a\<close>.
\<close>

theorem kim_misses_single_byte:
  "GenerateKimSignature (''b'' @ ''a'') AND GenerateKimSignature ''a'' \<noteq> GenerateKimSignature ''a''"
  by code_simp

end
