(* ===== verification/Tail_Payload.thy ===== *)
theory Tail_Payload
  imports Prelude
begin

text \<open>
  The tail payload of a block: the variable-length strings of its 64 rows, written at the end of
  \<open>AdaptiveIngester::Ingest\<close> (\<open>src/lex/ingest/adaptive_ingester.cpp\<close>) and read through raw
  pointers by the query runner and the compactor. Layout: a count, count + 1 offsets, the
  NUL-terminated strings, zero padding to 64 bytes.
\<close>

subsection \<open>Writing\<close>

fun tail_offsets :: "string list \<Rightarrow> nat \<Rightarrow> nat list" where
  "tail_offsets [] current_offset = [current_offset]"
| "tail_offsets (s # ss) current_offset = current_offset # tail_offsets ss (current_offset + length s + 1)"

definition tail_strings :: "string list \<Rightarrow> bytes" where
  "tail_strings block_strings = concat (map (\<lambda>s. s @ [char_of (0::nat)]) block_strings)"

definition build_tail :: "string list \<Rightarrow> bytes" where
  "build_tail block_strings =
     (if block_strings = [] then []
      else
        let num_strings = length block_strings;
            offsets = tail_offsets block_strings 0;
            metadata_size = 8 + (num_strings + 1) * 8;
            total_tail_size = metadata_size + last offsets;
            padded_tail_size = (total_tail_size + 63) div 64 * 64
        in put_u64 (word_of_nat num_strings) @ concat (map (\<lambda>off. put_u64 (word_of_nat off)) offsets) @
           tail_strings block_strings @ replicate (padded_tail_size - total_tail_size) (char_of (0::nat)))"

subsection \<open>Reading\<close>

text \<open>
  \<open>num_strings\<close>, \<open>offsets[k]\<close> and \<open>data_start\<close> as the readers compute them from the payload's
  first byte, and the bytes from \<open>data_start + start_off\<close> of length \<open>end_off - start_off - 1\<close>.
\<close>

definition tail_count :: "bytes \<Rightarrow> u64" where
  "tail_count tail = get_u64 tail"

definition tail_offset :: "bytes \<Rightarrow> nat \<Rightarrow> u64" where
  "tail_offset tail k = get_u64 (drop (8 + 8 * k) tail)"

definition tail_data_start :: "bytes \<Rightarrow> nat" where
  "tail_data_start tail = 8 + (unat (tail_count tail) + 1) * 8"

definition tail_len :: "bytes \<Rightarrow> nat \<Rightarrow> u64" where
  "tail_len tail k = tail_offset tail (k + 1) - tail_offset tail k - 1"

definition tail_from :: "bytes \<Rightarrow> nat \<Rightarrow> bytes" where
  "tail_from tail k = drop (tail_data_start tail + unat (tail_offset tail k)) tail"

definition tail_view :: "bytes \<Rightarrow> nat \<Rightarrow> string" where
  "tail_view tail k = take (unat (tail_len tail k)) (tail_from tail k)"

subsection \<open>What is written is read back\<close>

lemma length_tail_offsets [simp, length_simps]: "length (tail_offsets ss off) = length ss + 1"
  by (induction ss arbitrary: off) auto

lemma tail_strings_simps [simp]:
  "tail_strings [] = []" "tail_strings (s # ss) = s @ char_of (0::nat) # tail_strings ss"
  by (simp_all add: tail_strings_def)

lemma nth_tail_offsets:
  "k \<le> length ss \<Longrightarrow> tail_offsets ss off ! k = off + length (tail_strings (take k ss))"
proof (induction ss arbitrary: off k)
  case Nil then show ?case by simp
next
  case (Cons s ss) then show ?case by (cases k) simp_all
qed

lemma tail_strings_append: "tail_strings (xs @ ys) = tail_strings xs @ tail_strings ys"
  by (simp add: tail_strings_def)

lemma last_tail_offsets: "last (tail_offsets ss off) = off + length (tail_strings ss)"
proof -
  have "tail_offsets ss off \<noteq> []" by (cases ss) simp_all
  then have "last (tail_offsets ss off) = tail_offsets ss off ! length ss" by (simp add: last_conv_nth)
  then show ?thesis by (simp add: nth_tail_offsets)
qed

lemma length_put_all: "length (concat (map (\<lambda>x. put_u64 (g x)) xs)) = 8 * length xs"
  by (induction xs) auto

lemma drop_put_all:
  "k < length xs \<Longrightarrow> drop (8 * k) (concat (map (\<lambda>x. put_u64 (g x)) xs)) =
     put_u64 (g (xs ! k)) @ concat (map (\<lambda>x. put_u64 (g x)) (drop (Suc k) xs))"
proof (induction xs arbitrary: k)
  case Nil then show ?case by simp
next
  case (Cons x xs) then show ?case by (cases k) simp_all
qed

text \<open>A block's strings fit: at most 64 rows per column, and the payload is addressable.\<close>

definition tail_fits :: "string list \<Rightarrow> bool" where
  "tail_fits ss \<longleftrightarrow> ss \<noteq> [] \<and> length ss < 2 ^ 60 \<and> length (tail_strings ss) < 2 ^ 63"

lemma tail_count_build: "tail_fits ss \<Longrightarrow> tail_count (build_tail ss) = word_of_nat (length ss)"
  by (simp add: tail_count_def build_tail_def Let_def tail_fits_def)

lemma tail_data_start_build:
  "tail_fits ss \<Longrightarrow> tail_data_start (build_tail ss) = 8 + (length ss + 1) * 8"
  by (simp add: tail_data_start_def tail_count_build tail_fits_def)

lemma tail_offset_build:
  assumes "tail_fits ss" "k \<le> length ss"
  shows "tail_offset (build_tail ss) k = word_of_nat (length (tail_strings (take k ss)))"
proof -
  let ?offs = "tail_offsets ss 0"
  have k: "k < length ?offs" using assms by simp
  have "drop (8 + 8 * k) (build_tail ss) =
      drop (8 * k) (concat (map (\<lambda>off. put_u64 (word_of_nat off)) ?offs)) @
      tail_strings ss @ replicate ((8 + (length ss + 1) * 8 + last ?offs + 63) div 64 * 64 -
        (8 + (length ss + 1) * 8 + last ?offs)) (char_of (0::nat))"
    using assms k by (simp add: build_tail_def Let_def tail_fits_def length_put_all)
  also have "\<dots> = put_u64 (word_of_nat (?offs ! k)) @ concat (map (\<lambda>off. put_u64 (word_of_nat off)) (drop (Suc k) ?offs)) @
      tail_strings ss @ replicate ((8 + (length ss + 1) * 8 + last ?offs + 63) div 64 * 64 -
        (8 + (length ss + 1) * 8 + last ?offs)) (char_of (0::nat))"
    unfolding drop_put_all[OF k] by (simp only: append_assoc)
  finally show ?thesis
    using assms(2) by (simp add: tail_offset_def nth_tail_offsets)
qed

lemma length_tail_take_le: "length (tail_strings (take k ss)) \<le> length (tail_strings ss)"
  using tail_strings_append[of "take k ss" "drop k ss"] by simp

lemma unat_tail_offset_build:
  assumes "tail_fits ss" "k \<le> length ss"
  shows "unat (tail_offset (build_tail ss) k) = length (tail_strings (take k ss))"
  using assms length_tail_take_le[of k ss] by (simp add: tail_offset_build tail_fits_def)

lemma tail_len_build:
  assumes "tail_fits ss" "k < length ss"
  shows "unat (tail_len (build_tail ss) k) = length (ss ! k)"
proof -
  have t: "tail_strings (take (Suc k) ss) = tail_strings (take k ss) @ ss ! k @ [char_of (0::nat)]"
    using assms(2) by (simp add: take_Suc_conv_app_nth tail_strings_append)
  have "length (ss ! k) < 2 ^ 64"
    using length_tail_take_le[of "Suc k" ss] assms(1) unfolding t by (simp add: tail_fits_def)
  moreover have "tail_len (build_tail ss) k = word_of_nat (length (ss ! k))"
    using assms tail_offset_build[OF assms(1), of k] tail_offset_build[OF assms(1), of "Suc k"]
    by (simp add: tail_len_def t)
  ultimately show ?thesis by simp
qed

lemma tail_from_build:
  assumes "tail_fits ss" "k \<le> length ss"
  obtains pad where "tail_from (build_tail ss) k = tail_strings (drop k ss) @ pad"
    "length pad < 64" "pad = replicate (length pad) (char_of (0::nat))"
proof -
  let ?tot = "8 + (length ss + 1) * 8 + last (tail_offsets ss 0)"
  let ?pad = "replicate ((?tot + 63) div 64 * 64 - ?tot) (char_of (0::nat))"
  have split: "tail_strings ss = tail_strings (take k ss) @ tail_strings (drop k ss)"
    by (simp flip: tail_strings_append)
  have "drop (8 + (length ss + 1) * 8) (build_tail ss) = tail_strings ss @ ?pad"
    using assms by (simp add: build_tail_def Let_def tail_fits_def length_put_all)
  then have "tail_from (build_tail ss) k = drop (length (tail_strings (take k ss))) (tail_strings ss @ ?pad)"
    using assms by (simp add: tail_from_def tail_data_start_build unat_tail_offset_build drop_drop add.commute
        flip: drop_drop)
  then have "tail_from (build_tail ss) k = tail_strings (drop k ss) @ ?pad"
    by (simp add: split)
  moreover have "(t + 63) div 64 * 64 - t < 64" for t :: nat by linarith
  ultimately show ?thesis using that[of ?pad] by simp
qed

lemma tail_view_build:
  assumes "tail_fits ss" "k < length ss"
  shows "tail_view (build_tail ss) k = ss ! k"
proof -
  obtain pad where "tail_from (build_tail ss) k = tail_strings (drop k ss) @ pad"
    using tail_from_build[OF assms(1), of k] assms(2) by auto
  then show ?thesis
    using assms by (simp add: tail_view_def tail_len_build Cons_nth_drop_Suc[symmetric])
qed

end
