(* ===== verification/Ingester.thy ===== *)
theory Ingester
  imports Row_Group Arrow Kim Tail_Payload
begin

text \<open>
  \<open>AdaptiveIngester::Ingest\<close> of \<open>src/lex/ingest/adaptive_ingester.cpp\<close>: an Arrow record batch
  becomes a row group. A numeric column takes one tile of its transposed values, a string column
  two tiles (the first four bytes, and the KIM signature) and its strings go to the block's tail.
  The main result reads the row group back: every cell of the batch is recovered from it.
\<close>

subsection \<open>Extracting one column of a block\<close>

text \<open>
  \<open>ExtractColumnBlock\<close> and \<open>ExtractBoolBlock\<close> fill 64 scalars and 64 validity flags; rows past
  \<open>count\<close> and null rows become zero and invalid.
\<close>

definition ExtractColumnBlock :: "arrow_array \<Rightarrow> nat \<Rightarrow> nat \<Rightarrow> u64 list \<times> bool list" where
  "ExtractColumnBlock array start_row count =
     (map (\<lambda>i. if i < count then (if is_null array (start_row + i) then 0
                 else word_of_int (raw_value array (start_row + i))) else 0) [0..<64],
      map (\<lambda>i. i < count \<and> \<not> is_null array (start_row + i)) [0..<64])"

definition ExtractBoolBlock :: "arrow_array \<Rightarrow> nat \<Rightarrow> nat \<Rightarrow> u64 list \<times> bool list" where
  "ExtractBoolBlock array start_row count =
     (map (\<lambda>i. if i < count then (if is_null array (start_row + i) then 0
                 else if raw_value array (start_row + i) \<noteq> 0 then 1 else 0) else 0) [0..<64],
      map (\<lambda>i. i < count \<and> \<not> is_null array (start_row + i)) [0..<64])"

text \<open>\<open>memcpy(&skel, val.data(), min(4, val.size()))\<close> into a zeroed word.\<close>

definition skeleton_of :: "string \<Rightarrow> u64" where
  "skeleton_of val = word_of_nat (le_value (take 4 val))"

definition ExtractStringBlock :: "arrow_array \<Rightarrow> nat \<Rightarrow> nat \<Rightarrow> u64 list \<times> u64 list \<times> bool list \<times> string list" where
  "ExtractStringBlock array start_row count =
     (map (\<lambda>i. if i < count \<and> \<not> is_null array (start_row + i)
               then skeleton_of (get_view array (start_row + i)) else 0) [0..<64],
      map (\<lambda>i. if i < count \<and> \<not> is_null array (start_row + i)
               then GenerateKimSignature (get_view array (start_row + i)) else 0) [0..<64],
      map (\<lambda>i. i < count \<and> \<not> is_null array (start_row + i)) [0..<64],
      map (\<lambda>i. if is_null array (start_row + i) then [] else get_view array (start_row + i)) [0..<count])"

definition transpose_into :: "u64 list \<Rightarrow> bool list \<Rightarrow> cbst_tile \<Rightarrow> cbst_tile" where
  "transpose_into data valid_mask t =
     (let r = transpose64 data (Some valid_mask) in t\<lparr>planes := fst r, validity := snd r\<rparr>)"

subsection \<open>The physical layout of the schema\<close>

fun logical_to_physical :: "u32 list \<Rightarrow> nat \<Rightarrow> nat list" where
  "logical_to_physical [] current = []"
| "logical_to_physical (t # ts) current =
     current # logical_to_physical ts (if is_string_type t then current + 2 else current + 1)"

fun physical_names :: "(string \<times> u32) list \<Rightarrow> string list" where
  "physical_names [] = []"
| "physical_names ((name, t) # fs) =
     (if is_string_type t then [name, name @ ''_kim''] else [name]) @ physical_names fs"

fun physical_types :: "(string \<times> u32) list \<Rightarrow> u32 list" where
  "physical_types [] = []"
| "physical_types ((name, t) # fs) =
     (if is_string_type t then [t, Type_UINT64] else [t]) @ physical_types fs"

fun physical_width :: "u32 list \<Rightarrow> nat" where
  "physical_width [] = 0"
| "physical_width (t # ts) = (if is_string_type t then 2 else 1) + physical_width ts"

subsection \<open>One block\<close>

datatype ingest_error = Unsupported_Arrow_Type u32

definition supported_int_type :: "u32 \<Rightarrow> bool" where
  "supported_int_type t \<longleftrightarrow> t \<in> set [Type_INT8, Type_INT16, Type_INT32, Type_INT64,
     Type_UINT8, Type_UINT16, Type_UINT32, Type_UINT64]"

definition ingest_column ::
  "arrow_array \<Rightarrow> nat \<Rightarrow> nat \<Rightarrow> nat \<Rightarrow> cbst_tile list \<times> string list \<Rightarrow> ingest_error + (cbst_tile list \<times> string list)"
  where
  "ingest_column col p start_row rows_in_block st =
     (case st of (tiles, block_strings) \<Rightarrow>
      if \<not> is_string_type (type_id col) then
        ebind (if supported_int_type (type_id col) then Inr (ExtractColumnBlock col start_row rows_in_block)
               else if type_id col = Type_BOOL then Inr (ExtractBoolBlock col start_row rows_in_block)
               else Inl (Unsupported_Arrow_Type (type_id col)))
          (\<lambda>(temp_buffer, valid_mask).
             Inr (tiles[p := transpose_into temp_buffer valid_mask (tiles ! p)], block_strings))
      else
        (case ExtractStringBlock col start_row rows_in_block of (skeleton_buffer, kim_buffer, valid_mask, strings) \<Rightarrow>
           Inr (tiles[p := transpose_into skeleton_buffer valid_mask (tiles ! p),
                      p + 1 := transpose_into kim_buffer valid_mask (tiles ! (p + 1))],
                block_strings @ strings)))"

fun ingest_columns ::
  "arrow_array list \<Rightarrow> nat list \<Rightarrow> nat \<Rightarrow> nat \<Rightarrow> cbst_tile list \<times> string list \<Rightarrow> ingest_error + (cbst_tile list \<times> string list)"
  where
  "ingest_columns (col # cols) (p # ps) start_row rows st =
     ebind (ingest_column col p start_row rows st) (ingest_columns cols ps start_row rows)"
| "ingest_columns _ _ start_row rows st = Inr st"

definition ingest_block :: "record_batch \<Rightarrow> u64 \<Rightarrow> nat \<Rightarrow> nat \<Rightarrow> ingest_error + block_data" where
  "ingest_block batch rows ncols b =
     (let start_row = b * 64;
          rows_in_block = min 64 (unat (rows - word_of_nat start_row));
          tiles = replicate ncols zero_tile
      in ebind (ingest_columns (batch_columns batch)
                  (logical_to_physical (map snd (schema_fields batch)) 0) start_row rows_in_block (tiles, []))
           (\<lambda>(tiles, block_strings).
              Inr (fresh_block\<lparr>columns := tiles, tail_payload := build_tail block_strings\<rparr>)))"

fun ingest_blocks :: "record_batch \<Rightarrow> u64 \<Rightarrow> nat \<Rightarrow> nat list \<Rightarrow> ingest_error + block_data list" where
  "ingest_blocks batch rows ncols [] = Inr []"
| "ingest_blocks batch rows ncols (b # bs) =
     ebind (ingest_block batch rows ncols b) (\<lambda>blk.
     ebind (ingest_blocks batch rows ncols bs) (\<lambda>rest. Inr (blk # rest)))"

definition Ingest :: "record_batch \<Rightarrow> ingest_error + row_group" where
  "Ingest batch =
     (let rows = (word_of_nat (batch_rows batch) :: u64);
          fields = schema_fields batch;
          ncols = physical_width (map snd fields);
          num_blocks = unat ((rows + 63) div 64)
      in ebind (ingest_blocks batch rows ncols [0..<num_blocks]) (\<lambda>blks.
           Inr \<lparr>num_rows = rows, num_columns = word_of_nat ncols, column_names = physical_names fields,
                column_types = physical_types fields, blocks = blks\<rparr>))"

subsection \<open>What a successful ingestion builds\<close>

text \<open>The tiles and strings one column contributes to a block, and the block they make.\<close>

definition column_tiles :: "arrow_array \<Rightarrow> nat \<Rightarrow> nat \<Rightarrow> cbst_tile list" where
  "column_tiles col start rows =
     (if is_string_type (type_id col) then
        (case ExtractStringBlock col start rows of (skel, kim, vm, strs) \<Rightarrow>
           [transpose_into skel vm zero_tile, transpose_into kim vm zero_tile])
      else
        (case (if supported_int_type (type_id col) then ExtractColumnBlock col start rows
               else ExtractBoolBlock col start rows) of (buf, vm) \<Rightarrow> [transpose_into buf vm zero_tile]))"

definition column_strings :: "arrow_array \<Rightarrow> nat \<Rightarrow> nat \<Rightarrow> string list" where
  "column_strings col start rows =
     (if is_string_type (type_id col)
      then map (\<lambda>i. if is_null col (start + i) then [] else get_view col (start + i)) [0..<rows] else [])"

definition supported_type :: "u32 \<Rightarrow> bool" where
  "supported_type t \<longleftrightarrow> is_string_type t \<or> supported_int_type t \<or> t = Type_BOOL"

lemma length_column_tiles:
  "length (column_tiles col start rows) = (if is_string_type (type_id col) then 2 else 1)"
  by (simp add: column_tiles_def split: prod.split)

lemma list_update_append_zero:
  "length pre = p \<Longrightarrow> (pre @ x # rest)[p := y] = pre @ y # rest"
  by (simp add: list_update_append)

lemma ingest_column_append:
  assumes "supported_type (type_id col)"
  shows "ingest_column col (length pre) start rows
      (pre @ replicate (if is_string_type (type_id col) then 2 else 1) zero_tile @ rest, strs) =
    Inr (pre @ column_tiles col start rows @ rest, strs @ column_strings col start rows)"
  using assms
  by (auto simp: ingest_column_def column_tiles_def column_strings_def supported_type_def
      ExtractStringBlock_def list_update_append nth_append numeral_2_eq_2 split: prod.split)

lemma ingest_columns_append:
  assumes "\<forall>c\<in>set cols. supported_type (type_id c)"
  shows "ingest_columns cols (logical_to_physical (map type_id cols) (length pre)) start rows
      (pre @ replicate (physical_width (map type_id cols)) zero_tile, strs) =
    Inr (pre @ concat (map (\<lambda>c. column_tiles c start rows) cols),
         strs @ concat (map (\<lambda>c. column_strings c start rows) cols))"
  using assms
proof (induction cols arbitrary: pre strs)
  case Nil then show ?case by simp
next
  case (Cons c cols)
  let ?w = "if is_string_type (type_id c) then 2 else (1::nat)"
  have pos: "(if is_string_type (type_id c) then length pre + 2 else length pre + 1) =
      length (pre @ column_tiles c start rows)"
    by (simp add: length_column_tiles)
  have "ingest_column c (length pre) start rows
      (pre @ replicate ?w zero_tile @ replicate (physical_width (map type_id cols)) zero_tile, strs) =
    Inr (pre @ column_tiles c start rows @ replicate (physical_width (map type_id cols)) zero_tile,
         strs @ column_strings c start rows)"
    using Cons.prems by (intro ingest_column_append) simp
  then show ?case
    using Cons.IH[of "pre @ column_tiles c start rows" "strs @ column_strings c start rows"] Cons.prems
    by (simp only: list.map logical_to_physical.simps ingest_columns.simps physical_width.simps
        replicate_add ebind_simps pos append_assoc concat.simps) (simp add: append_assoc)
qed

text \<open>Rows of block \<open>b\<close> when the batch has \<open>n\<close> rows.\<close>

definition rows_of_block :: "nat \<Rightarrow> nat \<Rightarrow> nat" where
  "rows_of_block n b = min 64 (n - b * 64)"

definition ingested_block :: "record_batch \<Rightarrow> nat \<Rightarrow> block_data" where
  "ingested_block batch b =
     \<lparr>columns = concat (map (\<lambda>c. column_tiles c (b * 64) (rows_of_block (batch_rows batch) b)) (batch_columns batch)),
      tail_payload = build_tail (concat (map (\<lambda>c. column_strings c (b * 64) (rows_of_block (batch_rows batch) b))
        (batch_columns batch))),
      delete_mask = - 1\<rparr>"

definition block_total :: "nat \<Rightarrow> nat" where
  "block_total n = (n + 63) div 64"

lemma block_in_range: "b < block_total n \<Longrightarrow> b * 64 < n"
  by (simp add: block_total_def)

lemma ingest_block_eq:
  assumes "arrow_batch batch" "\<forall>c\<in>set (batch_columns batch). supported_type (type_id c)"
    "b < block_total (batch_rows batch)"
  shows "ingest_block batch (word_of_nat (batch_rows batch))
      (physical_width (map snd (schema_fields batch))) b = Inr (ingested_block batch b)"
proof -
  let ?n = "batch_rows batch"
  have lt: "b * 64 < ?n" using assms(3) by (rule block_in_range)
  have n: "?n < 2 ^ 63" using assms(1) by (simp add: arrow_batch_def)
  have "word_of_nat ?n - word_of_nat (b * 64) = (word_of_nat (?n - b * 64) :: u64)"
    using lt by (simp add: of_nat_diff)
  then have r: "min 64 (unat (word_of_nat ?n - word_of_nat (b * 64) :: u64)) = rows_of_block ?n b"
    using unat_u64[of "?n - b * 64"] n by (simp add: rows_of_block_def del: of_nat_diff)
  have ty: "map snd (schema_fields batch) = map type_id (batch_columns batch)"
    using assms(1) by (simp add: arrow_batch_def)
  show ?thesis
    using ingest_columns_append[OF assms(2), of "[]" "b * 64" "rows_of_block ?n b" "[]"]
    by (simp only: ingest_block_def Let_def r ty append_Nil list.size ebind_simps prod.case
        ingested_block_def fresh_block_def block_data.update_convs)
qed

lemma ingest_blocks_eq:
  assumes "arrow_batch batch" "\<forall>c\<in>set (batch_columns batch). supported_type (type_id c)"
    "\<forall>b\<in>set bs. b < block_total (batch_rows batch)"
  shows "ingest_blocks batch (word_of_nat (batch_rows batch))
      (physical_width (map snd (schema_fields batch))) bs = Inr (map (ingested_block batch) bs)"
  using assms(3) by (induction bs) (simp_all add: ingest_block_eq[OF assms(1,2)])

lemma Ingest_eq:
  assumes "arrow_batch batch" "\<forall>c\<in>set (batch_columns batch). supported_type (type_id c)"
  shows "Ingest batch = Inr \<lparr>num_rows = word_of_nat (batch_rows batch),
     num_columns = word_of_nat (physical_width (map snd (schema_fields batch))),
     column_names = physical_names (schema_fields batch),
     column_types = physical_types (schema_fields batch),
     blocks = map (ingested_block batch) [0..<block_total (batch_rows batch)]\<rparr>"
proof -
  let ?n = "batch_rows batch"
  have n: "?n < 2 ^ 63" using assms(1) by (simp add: arrow_batch_def)
  have "(word_of_nat ?n + 63 :: u64) = word_of_nat (?n + 63)" by simp
  moreover have "unat (word_of_nat (?n + 63) div 64 :: u64) = (?n + 63) div 64"
    using n unat_u64[of "?n + 63"] by (simp only: unat_div) simp
  ultimately have "unat ((word_of_nat ?n + 63) div 64 :: u64) = block_total ?n"
    by (simp add: block_total_def)
  then show ?thesis
    using ingest_blocks_eq[OF assms, of "[0..<block_total ?n]"] by (simp add: Ingest_def Let_def)
qed

subsection \<open>Reading a row group by cells\<close>

datatype cell = Null | Num u64 | Str string

definition array_cell :: "arrow_array \<Rightarrow> nat \<Rightarrow> cell" where
  "array_cell a k =
     (if is_null a k then Null
      else if is_string_type (type_id a) then Str (get_view a k)
      else if type_id a = Type_BOOL then Num (if raw_value a k \<noteq> 0 then 1 else 0)
      else Num (word_of_int (raw_value a k)))"

fun string_index :: "u32 list \<Rightarrow> nat \<Rightarrow> nat" where
  "string_index ts 0 = 0"
| "string_index [] (Suc f) = 0"
| "string_index (t # ts) (Suc f) = (if is_string_type t then 1 else 0) + string_index ts f"

definition stored_cell :: "u32 list \<Rightarrow> block_data \<Rightarrow> nat \<Rightarrow> nat \<Rightarrow> nat \<Rightarrow> cell" where
  "stored_cell ts blk rows f r =
     (let t = columns blk ! (logical_to_physical ts 0 ! f)
      in if \<not> tile_valid t r then Null
         else if is_string_type (ts ! f) then Str (tail_view (tail_payload blk) (string_index ts f * rows + r))
         else Num (tile_scalar t r))"

lemma length_logical_to_physical [simp, length_simps]: "length (logical_to_physical ts p) = length ts"
  by (induction ts arbitrary: p) auto

lemma nth_logical_to_physical:
  "f < length ts \<Longrightarrow> logical_to_physical ts p ! f = p + physical_width (take f ts)"
proof (induction ts arbitrary: p f)
  case Nil then show ?case by simp
next
  case (Cons t ts) then show ?case by (cases f) auto
qed

lemma physical_width_append [simp]: "physical_width (xs @ ys) = physical_width xs + physical_width ys"
  by (induction xs) auto

lemma concat_map_split:
  assumes "f < length cs"
  shows "concat (map g cs) = concat (map g (take f cs)) @ g (cs ! f) @ concat (map g (drop (Suc f) cs))"
proof -
  have "concat (map g (take f cs @ cs ! f # drop (Suc f) cs)) =
      concat (map g (take f cs)) @ g (cs ! f) @ concat (map g (drop (Suc f) cs))"
    by simp
  then show ?thesis by (simp only: id_take_nth_drop[OF assms, symmetric])
qed

lemma nth_concat_map:
  assumes "f < length cs" "j < length (g (cs ! f))"
  shows "concat (map g cs) ! (length (concat (map g (take f cs))) + j) = g (cs ! f) ! j"
  using assms(2) unfolding concat_map_split[OF assms(1), of g] by (simp add: nth_append)

lemma length_concat_tiles:
  "length (concat (map (\<lambda>c. column_tiles c start rows) cs)) = physical_width (map type_id cs)"
  by (induction cs) (auto simp: length_column_tiles)

lemma length_column_strings [simp, length_simps]:
  "length (column_strings c start rows) = (if is_string_type (type_id c) then rows else 0)"
  by (simp add: column_strings_def)

lemma length_concat_strings:
  "f \<le> length cs \<Longrightarrow> length (concat (map (\<lambda>c. column_strings c start rows) (take f cs))) =
     string_index (map type_id cs) f * rows"
proof (induction cs arbitrary: f)
  case Nil then show ?case by simp
next
  case (Cons c cs) then show ?case by (cases f) auto
qed

lemma nth_block_tile:
  assumes "f < length cs" "j < length (column_tiles (cs ! f) start rows)"
  shows "concat (map (\<lambda>c. column_tiles c start rows) cs) ! (logical_to_physical (map type_id cs) 0 ! f + j)
    = column_tiles (cs ! f) start rows ! j"
  using nth_concat_map[where g="\<lambda>c. column_tiles c start rows" and cs=cs and f=f and j=j, OF assms] assms(1)
  by (simp add: nth_logical_to_physical length_concat_tiles take_map)

text \<open>What each tile of a column holds.\<close>

lemma transpose_into_read:
  assumes "length data = 64" "r < 64"
  shows "tile_scalar (transpose_into data vm t) r = data ! r"
    "tile_valid (transpose_into data vm t) r = vm ! r"
  using assms
  by (simp_all add: transpose_into_def Let_def tile_scalar_def tile_valid_def butterfly_transpose64
      transpose64_def bit_validity_plane)
     (simp add: butterfly_transpose64[unfolded transpose64_def, simplified])

lemma numeric_tile:
  assumes "\<not> is_string_type (type_id c)" "supported_type (type_id c)" "r < rows" "rows \<le> 64"
  shows "tile_valid (column_tiles c start rows ! 0) r \<longleftrightarrow> \<not> is_null c (start + r)"
    "array_cell c (start + r) = (if is_null c (start + r) then Null else Num (tile_scalar (column_tiles c start rows ! 0) r))"
    "is_null c (start + r) \<Longrightarrow> tile_scalar (column_tiles c start rows ! 0) r = 0"
  using assms
  by (auto simp: column_tiles_def array_cell_def supported_type_def supported_int_type_def
      ExtractColumnBlock_def ExtractBoolBlock_def transpose_into_read)

lemma string_tiles:
  assumes "is_string_type (type_id c)" "r < rows" "rows \<le> 64"
  shows "tile_valid (column_tiles c start rows ! 0) r \<longleftrightarrow> \<not> is_null c (start + r)"
    "tile_scalar (column_tiles c start rows ! 0) r =
      (if is_null c (start + r) then 0 else skeleton_of (get_view c (start + r)))"
    "tile_scalar (column_tiles c start rows ! 1) r =
      (if is_null c (start + r) then 0 else GenerateKimSignature (get_view c (start + r)))"
  using assms by (simp_all add: column_tiles_def ExtractStringBlock_def transpose_into_read)

definition block_strings :: "record_batch \<Rightarrow> nat \<Rightarrow> string list" where
  "block_strings batch b = concat (map (\<lambda>c. column_strings c (b * 64) (rows_of_block (batch_rows batch) b))
     (batch_columns batch))"

lemma nth_block_string:
  assumes "f < length (batch_columns batch)" "is_string_type (type_id (batch_columns batch ! f))"
    "r < rows_of_block (batch_rows batch) b"
  shows "string_index (map type_id (batch_columns batch)) f * rows_of_block (batch_rows batch) b + r
      < length (block_strings batch b)"
    "block_strings batch b ! (string_index (map type_id (batch_columns batch)) f * rows_of_block (batch_rows batch) b + r) =
      (if is_null (batch_columns batch ! f) (b * 64 + r) then [] else get_view (batch_columns batch ! f) (b * 64 + r))"
proof -
  let ?rows = "rows_of_block (batch_rows batch) b" and ?cs = "batch_columns batch"
  let ?g = "\<lambda>c. column_strings c (b * 64) ?rows"
  have len: "length (concat (map ?g (take f ?cs))) = string_index (map type_id ?cs) f * ?rows"
    using length_concat_strings[of f ?cs] assms(1) by simp
  have r: "r < length (?g (?cs ! f))" using assms(2,3) by simp
  have "concat (map ?g ?cs) = concat (map ?g (take f ?cs)) @ ?g (?cs ! f) @ concat (map ?g (drop (Suc f) ?cs))"
    by (rule concat_map_split[OF assms(1)])
  then show "string_index (map type_id ?cs) f * ?rows + r < length (block_strings batch b)"
    using len r by (simp add: block_strings_def)
  show "block_strings batch b ! (string_index (map type_id ?cs) f * ?rows + r) =
      (if is_null (?cs ! f) (b * 64 + r) then [] else get_view (?cs ! f) (b * 64 + r))"
    using nth_concat_map[where g="?g" and cs="?cs" and f=f and j=r, OF assms(1) r] assms(2,3) unfolding len
    by (simp add: block_strings_def column_strings_def)
qed

lemma stored_cell_ingested:
  assumes f: "f < length (batch_columns batch)" and r: "r < rows_of_block (batch_rows batch) b"
    and ty: "supported_type (type_id (batch_columns batch ! f))"
    and fits: "is_string_type (type_id (batch_columns batch ! f)) \<Longrightarrow> tail_fits (block_strings batch b)"
  shows "stored_cell (map type_id (batch_columns batch)) (ingested_block batch b)
      (rows_of_block (batch_rows batch) b) f r = array_cell (batch_columns batch ! f) (b * 64 + r)"
proof -
  let ?rows = "rows_of_block (batch_rows batch) b" and ?c = "batch_columns batch ! f"
  have rows: "?rows \<le> 64" by (simp add: rows_of_block_def)
  have tile: "columns (ingested_block batch b) ! (logical_to_physical (map type_id (batch_columns batch)) 0 ! f) =
      column_tiles ?c (b * 64) ?rows ! 0"
    using nth_block_tile[OF f, of 0] by (simp add: ingested_block_def length_column_tiles)
  show ?thesis
  proof (cases "is_string_type (type_id ?c)")
    case True
    have "tail_view (tail_payload (ingested_block batch b))
        (string_index (map type_id (batch_columns batch)) f * ?rows + r) =
      (if is_null ?c (b * 64 + r) then [] else get_view ?c (b * 64 + r))"
      using tail_view_build[OF fits[OF True] nth_block_string(1)[OF f True r]] nth_block_string(2)[OF f True r]
      by (simp add: ingested_block_def block_strings_def)
    then show ?thesis
      using True f string_tiles[OF True r rows] by (simp add: stored_cell_def Let_def tile array_cell_def)
  next
    case False
    then show ?thesis
      using f numeric_tile[OF False ty r rows] by (simp add: stored_cell_def Let_def tile)
  qed
qed

lemma unsupported_column:
  "\<not> supported_type (type_id c) \<Longrightarrow> ingest_column c p start rows st = Inl (Unsupported_Arrow_Type (type_id c))"
  by (cases st) (simp add: ingest_column_def supported_type_def)

lemma ingest_columns_stop:
  assumes "\<exists>c\<in>set cols. \<not> supported_type (type_id c)" "length ps = length cols"
  shows "\<exists>c\<in>set cols. \<not> supported_type (type_id c) \<and>
     ingest_columns cols ps start rows st = Inl (Unsupported_Arrow_Type (type_id c))"
  using assms
proof (induction cols ps arbitrary: st rule: list_induct2')
  case (4 c cols p ps)
  show ?case
  proof (cases "supported_type (type_id c)")
    case False then show ?thesis by (auto simp: unsupported_column)
  next
    case True
    then have "\<exists>st'. ingest_column c p start rows st = Inr st'"
      by (cases st) (auto simp: ingest_column_def supported_type_def ExtractStringBlock_def
          ExtractColumnBlock_def ExtractBoolBlock_def)
    then obtain st' where "ingest_column c p start rows st = Inr st'" by blast
    then show ?thesis using 4 True by auto
  qed
qed simp_all

subsection \<open>Properties\<close>

text \<open>
  Property C9. Ingestion loses nothing: whenever every column type is supported, \<open>Ingest\<close> succeeds,
  and the cell of logical column \<open>f\<close> and row \<open>k\<close> read back from block \<open>k div 64\<close>, row \<open>k mod 64\<close> of
  the row group (through the transposed planes, the validity plane and the tail payload) is the
  cell of the Arrow array, null included.
\<close>

theorem ingest_stores_cells:
  assumes "arrow_batch batch" "\<forall>c\<in>set (batch_columns batch). supported_type (type_id c)"
    and "f < length (batch_columns batch)" "k < batch_rows batch"
    and "\<forall>b. block_strings batch b = [] \<or> tail_fits (block_strings batch b)"
  shows "\<exists>rg. Ingest batch = Inr rg \<and> num_rows rg = word_of_nat (batch_rows batch) \<and>
     length (blocks rg) = (batch_rows batch + 63) div 64 \<and>
     stored_cell (map type_id (batch_columns batch)) (blocks rg ! (k div 64))
       (min 64 (batch_rows batch - k div 64 * 64)) f (k mod 64) = array_cell (batch_columns batch ! f) k"
proof -
  let ?b = "k div 64"
  have "k mod 64 + k div 64 * 64 < batch_rows batch" using assms(4) by simp
  then have r: "k mod 64 < rows_of_block (batch_rows batch) ?b"
    unfolding rows_of_block_def by (simp only: min_less_iff_conj mod_less_divisor zero_less_numeral less_diff_conv)
  have b: "?b < block_total (batch_rows batch)"
    using assms(4) unfolding block_total_def by linarith
  have ty: "supported_type (type_id (batch_columns batch ! f))" using assms(2,3) by simp
  have fits: "tail_fits (block_strings batch ?b)" if "is_string_type (type_id (batch_columns batch ! f))"
    using nth_block_string(1)[OF assms(3) that r] assms(5) by (metis length_0_conv not_less_zero)
  have "stored_cell (map type_id (batch_columns batch)) (ingested_block batch ?b)
      (rows_of_block (batch_rows batch) ?b) f (k mod 64) = array_cell (batch_columns batch ! f) (?b * 64 + k mod 64)"
    by (rule stored_cell_ingested[OF assms(3) r ty fits])
  then show ?thesis
    using b by (simp add: Ingest_eq[OF assms(1,2)] rows_of_block_def block_total_def)
qed

theorem ingest_stores_cells_witness:
  "\<exists>rg. Ingest (batch_of 3 [(''id'', int64_array [Some 7, None, Some (-1)]),
       (''name'', string_array [Some ''alpha'', Some ''b'', None])]) = Inr rg \<and>
     num_rows rg = 3 \<and> length (blocks rg) = 1 \<and>
     stored_cell [Type_INT64, Type_STRING] (blocks rg ! 0) 3 1 0 = Str ''alpha''"
proof -
  let ?cols = "[(''id'', int64_array [Some 7, None, Some (-1)]),
       (''name'', string_array [Some ''alpha'', Some ''b'', None])]"
  have ab: "arrow_batch (batch_of 3 ?cols)" by (rule arrow_batch_of) simp_all
  have bs: "block_strings (batch_of 3 ?cols) b = [] \<or> tail_fits (block_strings (batch_of 3 ?cols) b)" for b
    by (cases b) (simp_all add: block_strings_def batch_of_def column_strings_def int64_array_def
        string_array_def rows_of_block_def tail_fits_def is_string_type_def numeral_3_eq_3)
  show ?thesis
    using ingest_stores_cells[OF ab, of 1 0] bs
    by (simp add: batch_of_def int64_array_def string_array_def supported_type_def supported_int_type_def
        is_string_type_def array_cell_def)
qed

text \<open>
  A column type the ingester does not know is refused: if the batch has a row and some
  column is neither a string, an integer nor a boolean column, \<open>Ingest\<close> throws, and the
  exception names the type of such a column.
\<close>

theorem ingest_refuses_unknown_types:
  assumes "arrow_batch batch" "c \<in> set (batch_columns batch)" "\<not> supported_type (type_id c)"
    and "0 < batch_rows batch"
  shows "\<exists>t. \<not> supported_type t \<and> Ingest batch = Inl (Unsupported_Arrow_Type t)"
proof -
  let ?n = "batch_rows batch"
  have n: "?n < 2 ^ 63" and ty: "map snd (schema_fields batch) = map type_id (batch_columns batch)"
    using assms(1) by (simp_all add: arrow_batch_def)
  have ex: "\<exists>c\<in>set (batch_columns batch). \<not> supported_type (type_id c)" using assms(2,3) by blast
  have block: "\<exists>t. \<not> supported_type t \<and> ingest_block batch rows ncols b = Inl (Unsupported_Arrow_Type t)" for rows ncols b
    using ingest_columns_stop[OF ex, of "logical_to_physical (map snd (schema_fields batch)) 0"
        "b * 64" "min 64 (unat (rows - word_of_nat (b * 64)))" "(replicate ncols zero_tile, [])"]
    unfolding ingest_block_def Let_def ty by (auto simp del: of_nat_mult)
  have "0 < unat ((word_of_nat ?n + 63) div 64 :: u64)"
  proof -
    have "unat ((word_of_nat ?n + 63) div 64 :: u64) = (?n + 63) div 64"
      using n unat_u64[of "?n + 63"] by (simp only: unat_div) simp
    then show ?thesis using assms(4) by simp
  qed
  then have range: "[0..<unat ((word_of_nat ?n + 63) div 64 :: u64)] = 0 # [1..<unat ((word_of_nat ?n + 63) div 64 :: u64)]"
    by (simp only: upt_conv_Cons One_nat_def)
  show ?thesis
    using block[of "word_of_nat ?n" "physical_width (map snd (schema_fields batch))" 0]
    unfolding Ingest_def Let_def range by auto
qed

theorem ingest_refuses_unknown_types_witness:
  "\<exists>t. \<not> supported_type t \<and> Ingest (batch_of 1 [(''x'', (int64_array [Some 7])\<lparr>type_id := 12\<rparr>)]) =
     Inl (Unsupported_Arrow_Type t)"
  by (rule ingest_refuses_unknown_types[OF arrow_batch_of, where c="(int64_array [Some 7])\<lparr>type_id := 12\<rparr>"])
    (auto simp: batch_of_def supported_type_def supported_int_type_def is_string_type_def)

end
