(* ===== verification/Planner.thy ===== *)
theory Planner
  imports Compiler Ingester
begin

text \<open>
  \<open>QueryPlanner::Plan\<close> of \<open>src/lex/jit/query_planner.cpp\<close>: the predicates of a query become a
  micro-operation program that filters a block by the numeric planes, the four-byte skeleton and
  the KIM signature, and a runner that remembers what has to be verified on the strings.
\<close>

subsection \<open>Predicates and runners\<close>

datatype predicate_op = EQ | LIKE_PREFIX | LIKE_CONTAINS | GT | LT

datatype aggregation_type = AGG_COUNT | AGG_SUM | AGG_AVG | AGG_MIN | AGG_MAX | AGG_MEDIAN | AGG_DISTINCT

record predicate =
  pred_column :: string
  pred_op :: predicate_op
  pred_value :: string
  numeric_value :: u64
  is_string :: bool

text \<open>
  \<open>scan_func\<close> is the installed function. By the correctness of the compiler a call of it computes
  \<open>scan_block\<close> of the program it was compiled from; \<open>None\<close> stands for undefined behaviour.
\<close>

record query_runner =
  scan_func :: "cbst_tile list \<Rightarrow> u64 \<Rightarrow> u64 option"
  string_predicates :: "predicate list"
  all_predicates :: "predicate list"
  string_col_indices :: "nat list"
  clean_string_patterns :: "string list"
  agg_col_idx :: int
  max_agg_bit :: nat
  agg_col_name :: string
  agg_type :: aggregation_type

definition jit_scan :: "micro_op list \<Rightarrow> cbst_tile list \<Rightarrow> u64 \<Rightarrow> u64 option" where
  "jit_scan ops tiles dmask = map_option fst (scan_block ops tiles dmask (replicate 64 0))"

subsection \<open>Patterns\<close>

definition strip_back :: "string \<Rightarrow> string" where
  "strip_back s = (if s \<noteq> [] \<and> last s = CHR ''%'' then butlast s else s)"

definition strip_front :: "string \<Rightarrow> string" where
  "strip_front s = (if s \<noteq> [] \<and> hd s = CHR ''%'' then tl s else s)"

definition GetSkeletonConstant :: "string \<Rightarrow> u64" where
  "GetSkeletonConstant str = skeleton_of (strip_back str)"

fun clean_pattern :: "predicate_op \<Rightarrow> string \<Rightarrow> string" where
  "clean_pattern LIKE_PREFIX v = strip_back v"
| "clean_pattern LIKE_CONTAINS v = strip_back (strip_front v)"
| "clean_pattern _ v = v"

subsection \<open>Finding columns\<close>

datatype plan_error = Column_not_found string | Physical_column_not_found string | No_predicates | Jit jit_error

text \<open>The logical columns of a row group: a column followed by its \<open>_kim\<close> companion is a string column.\<close>

fun logical_columns :: "string list \<Rightarrow> (string \<times> bool) list" where
  "logical_columns (name # next # rest) =
     (if next = name @ ''_kim'' then (name, True) # logical_columns rest
      else (name, False) # logical_columns (next # rest))"
| "logical_columns [name] = [(name, False)]"
| "logical_columns [] = []"

fun get_str_col_idx :: "(string \<times> bool) list \<Rightarrow> string \<Rightarrow> nat \<Rightarrow> plan_error + nat" where
  "get_str_col_idx [] col str_count = Inl (Column_not_found col)"
| "get_str_col_idx ((name, is_str) # rest) col str_count =
     (if name = col then Inr str_count
      else get_str_col_idx rest col (if is_str then str_count + 1 else str_count))"

fun get_physical_idx :: "string list \<Rightarrow> string \<Rightarrow> nat \<Rightarrow> plan_error + nat" where
  "get_physical_idx [] col i = Inl (Physical_column_not_found col)"
| "get_physical_idx (name # names) col i = (if name = col then Inr i else get_physical_idx names col (i + 1))"

subsection \<open>Bits worth comparing\<close>

definition plane_active :: "block_data list \<Rightarrow> nat \<Rightarrow> nat \<Rightarrow> bool" where
  "plane_active bs p b \<longleftrightarrow> list_ex (\<lambda>blk. planes (columns blk ! p) ! b \<noteq> 0) bs"

text \<open>\<open>for (int bit = 63; bit >= 0; --bit)\<close> until a plane is active; 0 if none is.\<close>

definition max_active_bit :: "block_data list \<Rightarrow> nat \<Rightarrow> nat" where
  "max_active_bit bs p = (case find (plane_active bs p) (rev [0..<64]) of None \<Rightarrow> 0 | Some b \<Rightarrow> b)"

text \<open>\<open>63 - __builtin_clzll(v)\<close> for a positive \<open>v\<close>, 0 for 0.\<close>

definition msb_index :: "u64 \<Rightarrow> nat" where
  "msb_index v = (case find (bit v) (rev [0..<64]) of None \<Rightarrow> 0 | Some b \<Rightarrow> b)"

definition num_compare_bits :: "block_data list \<Rightarrow> nat \<Rightarrow> u64 \<Rightarrow> nat" where
  "num_compare_bits bs p v = max 1 (max (max_active_bit bs p) (msb_index v) + 1)"

subsection \<open>One predicate\<close>

record plan_state =
  vreg_counter :: int
  plan_ops :: "micro_op list"
  predicate_mask_regs :: "int list"
  plan_strings :: "(predicate \<times> nat \<times> string) list"

definition emit_op :: "opcode \<Rightarrow> int \<Rightarrow> int \<Rightarrow> int \<Rightarrow> u64 \<Rightarrow> micro_op" where
  "emit_op c d s1 s2 v = \<lparr>op = c, dest_reg = d, src_reg1 = s1, src_reg2 = s2, imm = v\<rparr>"

text \<open>The operations a string predicate emits from virtual register \<open>v\<close> on, and its mask register.\<close>

definition string_ops :: "predicate \<Rightarrow> nat \<Rightarrow> nat \<Rightarrow> int \<Rightarrow> micro_op list \<times> int list" where
  "string_ops pred p_skeleton p_kim v =
     (let clean_pat = clean_pattern (pred_op pred) (pred_value pred);
          load_skel = emit_op LOAD_TILE v (-1) (-1) (word_of_nat p_skeleton)
      in case pred_op pred of
           EQ \<Rightarrow>
             ([load_skel, emit_op LOAD_TILE (v + 1) (-1) (-1) (word_of_nat p_kim),
               emit_op CMP_SKELETON (v + 2) v (int (min 32 ((length clean_pat + 1) * 8))) (GetSkeletonConstant (pred_value pred)),
               emit_op CMP_KIM (v + 3) (v + 1) 64 (GenerateKimSignature (pred_value pred)),
               emit_op BIT_AND (v + 4) (v + 2) (v + 3) 0], [v + 4])
         | LIKE_PREFIX \<Rightarrow>
             ([load_skel,
               emit_op CMP_SKELETON (v + 1) v (int (min 32 (length clean_pat * 8))) (GetSkeletonConstant (pred_value pred))],
              [v + 1])
         | LIKE_CONTAINS \<Rightarrow>
             ([load_skel, emit_op LOAD_TILE (v + 1) (-1) (-1) (word_of_nat p_kim),
               emit_op CMP_KIM (v + 2) (v + 1) 64 (GenerateKimSignature (strip_back (strip_front (pred_value pred))))],
              [v + 2])
         | _ \<Rightarrow> ([load_skel], []))"

definition numeric_ops :: "predicate \<Rightarrow> nat \<Rightarrow> nat \<Rightarrow> int \<Rightarrow> micro_op list \<times> int list" where
  "numeric_ops pred p nbits v =
     ([emit_op LOAD_TILE v (-1) (-1) (word_of_nat p),
       emit_op (case pred_op pred of GT \<Rightarrow> CMP_GT | LT \<Rightarrow> CMP_LT | _ \<Rightarrow> CMP_EQ) (v + 1) v (int nbits) (numeric_value pred)],
      [v + 1])"

definition add_ops :: "micro_op list \<times> int list \<Rightarrow> int \<Rightarrow> plan_state \<Rightarrow> plan_state" where
  "add_ops e used st = st\<lparr>vreg_counter := vreg_counter st + used, plan_ops := plan_ops st @ fst e,
     predicate_mask_regs := predicate_mask_regs st @ snd e\<rparr>"

definition plan_predicate :: "row_group \<Rightarrow> predicate \<Rightarrow> plan_state \<Rightarrow> plan_error + plan_state" where
  "plan_predicate rg pred st =
     (if is_string pred then
        ebind (get_physical_idx (column_names rg) (pred_column pred) 0) (\<lambda>p_skeleton.
        ebind (get_physical_idx (column_names rg) (pred_column pred @ ''_kim'') 0) (\<lambda>p_kim.
        ebind (get_str_col_idx (logical_columns (column_names rg)) (pred_column pred) 0) (\<lambda>str_col_idx.
          let e = string_ops pred p_skeleton p_kim (vreg_counter st)
          in Inr (add_ops e (int (length (fst e)))
               (st\<lparr>plan_strings := plan_strings st @ [(pred, str_col_idx, clean_pattern (pred_op pred) (pred_value pred))]\<rparr>)))))
      else
        ebind (get_physical_idx (column_names rg) (pred_column pred) 0) (\<lambda>p.
          Inr (add_ops (numeric_ops pred p (num_compare_bits (blocks rg) p (numeric_value pred)) (vreg_counter st)) 2 st)))"

fun plan_predicates :: "row_group \<Rightarrow> predicate list \<Rightarrow> plan_state \<Rightarrow> plan_error + plan_state" where
  "plan_predicates rg [] st = Inr st"
| "plan_predicates rg (pred # preds) st = ebind (plan_predicate rg pred st) (plan_predicates rg preds)"

text \<open>The chain of \<open>BIT_AND\<close>s over the mask registers.\<close>

fun and_chain :: "int list \<Rightarrow> int \<Rightarrow> int \<Rightarrow> micro_op list" where
  "and_chain [] final v = []"
| "and_chain (r # rs) final v = emit_op BIT_AND v final r 0 # and_chain rs v (v + 1)"

definition empty_plan :: plan_state where
  "empty_plan = \<lparr>vreg_counter = 0, plan_ops = [], predicate_mask_regs = [], plan_strings = []\<rparr>"

text \<open>The program a plan state compiles, \<open>None\<close> without a predicate mask.\<close>

definition final_ops :: "plan_state \<Rightarrow> micro_op list option" where
  "final_ops st = (case predicate_mask_regs st of
       [] \<Rightarrow> None
     | r # rs \<Rightarrow> Some (plan_ops st @ and_chain rs r (vreg_counter st)))"

definition Plan ::
  "(a64_inst list \<Rightarrow> u32) \<Rightarrow> u64 \<Rightarrow> predicate list \<Rightarrow> row_group \<Rightarrow> string \<Rightarrow> aggregation_type \<Rightarrow> plan_error + query_runner"
  where
  "Plan rt_add helper preds rg agg_column_name agg =
     ebind (plan_predicates rg preds empty_plan) (\<lambda>st.
       case final_ops st of
         None \<Rightarrow> Inl No_predicates
       | Some ops \<Rightarrow>
           ebind (if agg_column_name \<noteq> [] then
                    ebind (get_physical_idx (column_names rg) agg_column_name 0) (\<lambda>p_agg.
                      Inr (int p_agg, max_active_bit (blocks rg) p_agg, agg_column_name))
                  else Inr (-1, 0, [])) (\<lambda>(idx, max_bit, name).
           case Compile rt_add helper ops of
             Inl err \<Rightarrow> Inl (Jit err)
           | Inr code \<Rightarrow> Inr
               \<lparr>scan_func = jit_scan ops, string_predicates = map fst (plan_strings st), all_predicates = preds,
                string_col_indices = map (\<lambda>(_, i, _). i) (plan_strings st),
                clean_string_patterns = map (\<lambda>(_, _, pat). pat) (plan_strings st),
                agg_col_idx = idx, max_agg_bit = max_bit, agg_col_name = name, agg_type = agg\<rparr>))"

end
