(* ===== verification/Runner.thy ===== *)
theory Runner
  imports Planner "HOL-Library.Sublist"
begin

text \<open>
  The execution of a planned query on one row group, \<open>QueryRunner::Execute\<close> and
  \<open>QueryRunner::ExecuteQueryResult\<close> of \<open>src/lex/jit/query_planner.cpp\<close>: the JIT scan filters a
  block, the candidates of string predicates are verified on the tail payload, and the matching
  rows are counted and aggregated on the bit planes or on the materialised scalars.
\<close>

subsection \<open>Walking over the bits of a mask\<close>

definition ctz :: "u64 \<Rightarrow> nat" where
  "ctz w = (case find (bit w) [0..<64] of None \<Rightarrow> 64 | Some i \<Rightarrow> i)"

definition popcount :: "u64 \<Rightarrow> nat" where
  "popcount w = length (filter (bit w) [0..<64])"

lemma mask_drop_lowest: "w \<noteq> 0 \<Longrightarrow> unat (w AND (w - 1)) < unat (w :: u64)"
proof -
  assume w: "w \<noteq> 0"
  then have "w - 1 < w" by (metis measure_unat word_less_nat_alt)
  moreover have "w AND (w - 1) \<le> w - 1" by (rule word_and_le1)
  ultimately show ?thesis by (simp add: word_less_nat_alt word_le_nat_alt)
qed

text \<open>\<open>while (temp_mask > 0) { i = ctz(temp_mask); temp_mask &= temp_mask - 1; ... }\<close>: the rows it visits.\<close>

function mask_rows :: "u64 \<Rightarrow> nat list" where
  "mask_rows temp_mask = (if temp_mask = 0 then [] else ctz temp_mask # mask_rows (temp_mask AND (temp_mask - 1)))"
  by pat_completeness auto

termination mask_rows
  by (relation "measure unat") (auto simp: mask_drop_lowest)

declare mask_rows.simps [simp del]

text \<open>The loop that sets bit \<open>i\<close> of the final mask for every visited row that is verified.\<close>

definition collect_mask :: "(nat \<Rightarrow> bool) \<Rightarrow> u64 \<Rightarrow> u64" where
  "collect_mask verified candidates =
     fold (\<lambda>i final. if verified i then final OR push_bit i 1 else final) (mask_rows candidates) 0"

subsection \<open>Verifying a candidate on the tail payload\<close>

text \<open>
  \<open>load_u64\<close> is the eight-byte read \<open>*reinterpret_cast<const uint64_t*>(p)\<close>. It may run past the
  end of the payload, so what follows in memory is the parameter \<open>beyond\<close>. \<open>pattern_word\<close> is the
  pattern copied into a zeroed word.
\<close>

definition load_u64 :: "bytes \<Rightarrow> bytes \<Rightarrow> u64" where
  "load_u64 beyond bs = get_u64 (bs @ beyond)"

definition pattern_word :: "string \<Rightarrow> u64" where
  "pattern_word pat = word_of_nat (le_value pat)"

definition pattern_mask :: "nat \<Rightarrow> u64" where
  "pattern_mask n = push_bit (n * 8) 1 - 1"

definition short_match :: "bytes \<Rightarrow> bytes \<Rightarrow> string \<Rightarrow> bool" where
  "short_match beyond bs pat \<longleftrightarrow> load_u64 beyond bs AND pattern_mask (length pat) = pattern_word pat"

definition memcmp_eq :: "bytes \<Rightarrow> string \<Rightarrow> bool" where
  "memcmp_eq bs pat \<longleftrightarrow> take (length pat) bs = pat"

text \<open>\<open>std::string_view::find(pat) != npos\<close>.\<close>

definition contains :: "string \<Rightarrow> string \<Rightarrow> bool" where
  "contains s pat \<longleftrightarrow> list_ex (\<lambda>i. take (length pat) (drop i s) = pat) [0..<length s + 1]"

text \<open>One string predicate, as the branch for a single predicate checks string \<open>k\<close> of the tail.\<close>

definition verify_single :: "bytes \<Rightarrow> bytes \<Rightarrow> predicate_op \<Rightarrow> string \<Rightarrow> nat \<Rightarrow> bool" where
  "verify_single beyond tail p_op pat k =
     (let len = tail_len tail k; pat_len = length pat
      in case p_op of
           EQ \<Rightarrow> len = word_of_nat pat_len \<and>
             (if pat_len < 8 then short_match beyond (tail_from tail k) pat else memcmp_eq (tail_from tail k) pat)
         | LIKE_PREFIX \<Rightarrow> word_of_nat pat_len \<le> len \<and>
             (if pat_len < 8 then short_match beyond (tail_from tail k) pat else memcmp_eq (tail_from tail k) pat)
         | LIKE_CONTAINS \<Rightarrow> word_of_nat pat_len \<le> len \<and> contains (tail_view tail k) pat
         | _ \<Rightarrow> False)"

text \<open>The same check in the loop over several predicates: an operation it does not know matches.\<close>

definition verify_among :: "bytes \<Rightarrow> bytes \<Rightarrow> predicate_op \<Rightarrow> string \<Rightarrow> nat \<Rightarrow> bool" where
  "verify_among beyond tail p_op pat k =
     (let len = tail_len tail k
      in case p_op of
           EQ \<Rightarrow> (if len \<noteq> word_of_nat (length pat) then False
                else if len < 8 then short_match beyond (tail_from tail k) pat
                else memcmp_eq (tail_from tail k) pat)
         | LIKE_PREFIX \<Rightarrow> (if len < word_of_nat (length pat) then False
                else if length pat < 8 then short_match beyond (tail_from tail k) pat
                else memcmp_eq (tail_from tail k) pat)
         | LIKE_CONTAINS \<Rightarrow> \<not> (len < word_of_nat (length pat) \<or> \<not> contains (tail_view tail k) pat)
         | _ \<Rightarrow> True)"

text \<open>All string predicates of a row; the loop leaves at the first that fails.\<close>

fun verify_all :: "bytes \<Rightarrow> bytes \<Rightarrow> nat \<Rightarrow> (predicate_op \<times> nat \<times> string) list \<Rightarrow> nat \<Rightarrow> bool" where
  "verify_all beyond tail rows [] i = True"
| "verify_all beyond tail rows ((p_op, col, pat) # ps) i =
     (if verify_among beyond tail p_op pat (col * rows + i) then verify_all beyond tail rows ps i else False)"

definition runner_strings :: "query_runner \<Rightarrow> (predicate_op \<times> nat \<times> string) list" where
  "runner_strings q = zip (map pred_op (string_predicates q)) (zip (string_col_indices q) (clean_string_patterns q))"

text \<open>The final mask of a block from the candidates the scan returned.\<close>

definition block_final_mask :: "bytes \<Rightarrow> query_runner \<Rightarrow> block_data \<Rightarrow> nat \<Rightarrow> u64 \<Rightarrow> u64" where
  "block_final_mask beyond q block rows_in_block candidate_mask =
     (case runner_strings q of
        [] \<Rightarrow> candidate_mask
      | [(p_op, col, pat)] \<Rightarrow>
          collect_mask (\<lambda>i. verify_single beyond (tail_payload block) p_op pat (col * rows_in_block + i)) candidate_mask
      | ps \<Rightarrow> collect_mask (verify_all beyond (tail_payload block) rows_in_block ps) candidate_mask)"

definition rows_in_block :: "row_group \<Rightarrow> nat \<Rightarrow> nat" where
  "rows_in_block rg b = unat (min 64 (num_rows rg - word_of_nat (b * 64)))"

text \<open>Without a payload the offsets are a null pointer, so verifying a string is undefined.\<close>

definition block_matches :: "bytes \<Rightarrow> query_runner \<Rightarrow> row_group \<Rightarrow> nat \<Rightarrow> u64 option" where
  "block_matches beyond q rg b =
     (let block = blocks rg ! b; rows = rows_in_block rg b
      in case scan_func q (columns block) (delete_mask block) of
           None \<Rightarrow> None
         | Some m \<Rightarrow>
             let candidate_mask = (if rows < 64 then m AND (push_bit rows 1 - 1) else m)
             in if candidate_mask = 0 then Some 0
                else if tail_payload block = [] \<and> runner_strings q \<noteq> [] then None
                else Some (block_final_mask beyond q block rows candidate_mask))"

subsection \<open>Execute: count and sum on the bit planes\<close>

text \<open>\<open>while (block_max_bit > 0 && planes[block_max_bit] == 0) block_max_bit--;\<close>\<close>

fun block_top_bit :: "u64 list \<Rightarrow> nat \<Rightarrow> nat" where
  "block_top_bit pl 0 = 0"
| "block_top_bit pl (Suc b) = (if pl ! Suc b = 0 then block_top_bit pl b else Suc b)"

definition plane_term :: "u64 \<Rightarrow> u64 list \<Rightarrow> nat \<Rightarrow> u64" where
  "plane_term final_mask pl b = push_bit b (word_of_nat (popcount (final_mask AND pl ! b)))"

function sum_planes :: "u64 \<Rightarrow> u64 list \<Rightarrow> nat \<Rightarrow> nat \<Rightarrow> u64 \<Rightarrow> u64" where
  "sum_planes final_mask pl b mx acc =
     (if b + 3 \<le> mx then
        sum_planes final_mask pl (b + 4) mx
          (acc + plane_term final_mask pl b + plane_term final_mask pl (b + 1) +
           plane_term final_mask pl (b + 2) + plane_term final_mask pl (b + 3))
      else if b \<le> mx then sum_planes final_mask pl (b + 1) mx (acc + plane_term final_mask pl b)
      else acc)"
  by pat_completeness auto

termination sum_planes
  by (relation "measure (\<lambda>(_, _, b, mx, _). mx + 1 - b)") auto

declare sum_planes.simps [simp del]

definition block_sum :: "query_runner \<Rightarrow> block_data \<Rightarrow> u64 \<Rightarrow> u64" where
  "block_sum q block final_mask =
     (if agg_col_idx q \<noteq> -1 \<and> final_mask \<noteq> 0 then
        (let pl = planes (columns block ! nat (agg_col_idx q))
         in sum_planes final_mask pl 0 (block_top_bit pl (max_agg_bit q)) 0)
      else 0)"

fun execute_blocks :: "bytes \<Rightarrow> query_runner \<Rightarrow> row_group \<Rightarrow> nat list \<Rightarrow> u64 \<times> u64 \<Rightarrow> (u64 \<times> u64) option" where
  "execute_blocks beyond q rg [] acc = Some acc"
| "execute_blocks beyond q rg (b # bs) (matches, out_sum) =
     (case block_matches beyond q rg b of
        None \<Rightarrow> None
      | Some final_mask \<Rightarrow> execute_blocks beyond q rg bs
          (matches + word_of_nat (popcount final_mask), out_sum + block_sum q (blocks rg ! b) final_mask))"

definition Execute :: "bytes \<Rightarrow> query_runner \<Rightarrow> row_group \<Rightarrow> (u64 \<times> u64) option" where
  "Execute beyond q rg = execute_blocks beyond q rg [0..<length (blocks rg)] (0, 0)"

subsection \<open>The loops compute what they should\<close>

lemma ctz_bit:
  assumes "w \<noteq> 0"
  shows "ctz w < 64" "bit w (ctz w)" "j < ctz w \<Longrightarrow> \<not> bit w j"
proof -
  have "\<exists>n<64. bit w n" using assms by (auto simp: bit_eq_iff)
  then have "find (bit w) [0..<64] \<noteq> None" by (auto simp: find_None_iff)
  then obtain i where i: "find (bit w) [0..<64] = Some i" by blast
  then have "i < 64" "bit w i" "\<forall>j<i. \<not> bit w j" by (auto simp: find_Some_iff)
  then show "ctz w < 64" "bit w (ctz w)" "j < ctz w \<Longrightarrow> \<not> bit w j" by (simp_all add: ctz_def i)
qed

lemma bit_drop_lowest:
  assumes "w \<noteq> 0" "j < 64"
  shows "bit (w AND (w - 1)) j \<longleftrightarrow> bit w j \<and> j \<noteq> ctz w"
proof -
  obtain i where i: "i = ctz w" by simp
  have c: "i < 64" "bit w i" "\<And>j. j < i \<Longrightarrow> \<not> bit w j" using ctz_bit[OF assms(1)] by (simp_all add: i)
  obtain u where u: "u = unset_bit i w" by simp
  have ub: "bit u n \<longleftrightarrow> bit w n \<and> n \<noteq> i" for n by (auto simp: u bit_unset_bit_iff)
  have "u AND push_bit i 1 = 0" by (rule bit_word_eqI) (auto simp: ub bit_and_iff bit_exp_iff)
  then have "u + push_bit i 1 = u OR push_bit i 1" by (rule disjunctive_add_eq_or)
  also have "\<dots> = w"
    by (rule bit_word_eqI) (use c in \<open>auto simp: ub bit_or_iff bit_exp_iff\<close>)
  finally have "w - 1 = u + (push_bit i 1 - 1)" by (metis add_diff_eq)
  also have "push_bit i 1 - 1 = (mask i :: u64)" by (simp add: mask_eq_exp_minus_1 push_bit_eq_mult)
  also have "u + mask i = u OR mask i"
    by (rule disjunctive_add_eq_or, rule bit_word_eqI) (use c(3) in \<open>auto simp: ub bit_and_iff bit_mask_iff\<close>)
  finally have "bit (w - 1) j \<longleftrightarrow> bit u j \<or> j < i" using assms(2) by (simp add: bit_or_iff bit_mask_iff)
  then show ?thesis using c(3)[of j] by (auto simp: bit_and_iff ub i[symmetric])
qed

lemma filter_cong_bits: "(\<And>j. j < 64 \<Longrightarrow> P j = Q j) \<Longrightarrow> filter P [0..<64] = filter Q [0..<64]"
  by (rule filter_cong) auto

lemma mask_rows_eq: "mask_rows w = filter (bit w) [0..<64]"
proof (induction w rule: mask_rows.induct)
  case (1 w)
  show ?case
  proof (cases "w = 0")
    case True
    then show ?thesis by (simp add: mask_rows.simps)
  next
    case False
    let ?i = "ctz w"
    note c = ctz_bit[OF False]
    have split: "[0..<64] = [0..<?i] @ ?i # [Suc ?i..<64]"
      using c(1) by (metis le_add_diff_inverse less_imp_le_nat upt_add_eq_append upt_conv_Cons le0 add_0)
    have "filter (bit (w AND (w - 1))) [0..<64] = filter (\<lambda>j. bit w j \<and> j \<noteq> ?i) [0..<64]"
      by (rule filter_cong_bits) (simp add: bit_drop_lowest[OF False])
    also have "\<dots> = filter (bit w) [Suc ?i..<64]"
      unfolding split using c by (auto simp: filter_empty_conv intro!: filter_cong)
    finally have "?i # filter (bit (w AND (w - 1))) [0..<64] = filter (bit w) [0..<64]"
      unfolding split using c by (auto simp: filter_empty_conv)
    then show ?thesis using 1 False by (simp add: mask_rows.simps[of w])
  qed
qed

lemma set_mask_rows: "set (mask_rows m) = {j. j < 64 \<and> bit m j}"
  unfolding mask_rows_eq set_filter set_upt by (simp only: atLeastLessThan_iff le0 simp_thms)

lemma bit_collect_mask:
  assumes "r < 64"
  shows "bit (collect_mask verified m) r \<longleftrightarrow> bit m r \<and> verified r"
proof -
  have "bit (fold (\<lambda>i final. if verified i then final OR push_bit i 1 else final) is acc) r \<longleftrightarrow>
      bit acc r \<or> (r \<in> set is \<and> verified r)" for "is" and acc :: u64
    using assms by (induction "is" arbitrary: acc) (auto simp: bit_or_iff bit_exp_iff)
  then show ?thesis using assms by (simp add: collect_mask_def set_mask_rows)
qed

lemma popcount_card: "popcount w = card {r. r < 64 \<and> bit w r}"
  unfolding popcount_def distinct_length_filter[OF distinct_upt] set_upt
  by (rule arg_cong[of _ _ card]) auto

lemma popcount_row_mask: "popcount (row_mask P) = card {r. r < 64 \<and> P r}"
  unfolding popcount_card by (rule arg_cong[of _ _ card]) auto

subsection \<open>Verifying strings\<close>

lemma le_value_bound: "le_value bs < 256 ^ length bs"
proof (induction bs)
  case Nil then show ?case by simp
next
  case (Cons b bs)
  have "of_char b + 256 * v < 256 * N" if "v < N" for v N :: nat
  proof -
    have "(of_char b :: nat) < 256" by simp
    moreover have "256 * v + 256 \<le> 256 * N" using that by linarith
    ultimately show ?thesis by linarith
  qed
  then show ?case using Cons by simp
qed

lemma le_value_inj: "length xs = length ys \<Longrightarrow> le_value xs = le_value ys \<Longrightarrow> xs = ys"
proof (induction xs ys rule: list_induct2)
  case Nil then show ?case by simp
next
  case (Cons x xs y ys)
  have b: "(of_char x :: nat) < 256" "(of_char y :: nat) < 256" by simp_all
  have "of_char x = (of_char y :: nat)" "le_value xs = le_value ys"
    using arg_cong[OF Cons.prems, of "\<lambda>n. n mod 256"] arg_cong[OF Cons.prems, of "\<lambda>n. n div 256"] b by simp_all
  then show ?case using Cons.IH by simp
qed

lemma short_match_iff:
  assumes "length pat < 8" "length pat \<le> length bs"
  shows "short_match beyond bs pat \<longleftrightarrow> take (length pat) bs = pat"
proof -
  let ?n = "length pat" and ?x = "take 8 (bs @ beyond)"
  have x: "?x = take ?n bs @ drop ?n ?x"
    using assms append_take_drop_id[of ?n ?x] by (simp add: min_def)
  have bound: "le_value zs < 2 ^ 64" if "length zs \<le> 8" for zs
  proof -
    have "le_value zs < 256 ^ length zs" by (rule le_value_bound)
    also have "\<dots> \<le> 256 ^ 8" by (rule power_increasing) (use that in simp_all)
    finally show ?thesis by simp
  qed
  have mask: "pattern_mask ?n = mask (?n * 8)" by (simp add: pattern_mask_def mask_eq_exp_minus_1 push_bit_eq_mult)
  have p: "(256::nat) ^ ?n = 2 ^ (?n * 8)"
  proof -
    have "(256::nat) = 2 ^ 8" by simp
    then show ?thesis by (simp only: power_mult[symmetric] mult.commute)
  qed
  have bx: "le_value ?x < 2 ^ 64" by (rule bound) simp
  have "load_u64 beyond bs AND pattern_mask ?n = take_bit (?n * 8) (word_of_nat (le_value ?x))"
    by (simp only: load_u64_def get_u64_def mask take_bit_eq_mask)
  then have "unat (load_u64 beyond bs AND pattern_mask ?n) = take_bit (?n * 8) (unat (word_of_nat (le_value ?x) :: u64))"
    by (simp only: unsigned_take_bit_eq)
  also have "\<dots> = le_value ?x mod 256 ^ ?n" by (simp only: unat_u64[OF bx] take_bit_eq_mod p)
  also have "\<dots> = le_value (take ?n bs)"
    using le_value_bound[of "take ?n bs"] assms(2) by (subst x) (simp add: le_value_append)
  finally have l: "unat (load_u64 beyond bs AND pattern_mask ?n) = le_value (take ?n bs)" .
  have r: "unat (pattern_word pat) = le_value pat" using bound[of pat] assms(1) by (simp add: pattern_word_def)
  show ?thesis
    unfolding short_match_def word_unat_eq_iff l r
    using le_value_inj[of "take ?n bs" pat] assms(2) by auto
qed

lemma contains_iff: "contains s pat \<longleftrightarrow> (\<exists>xs ys. s = xs @ pat @ ys)"
proof
  assume "contains s pat"
  then obtain i where "take (length pat) (drop i s) = pat" by (auto simp: contains_def list_ex_iff)
  then have "s = take i s @ pat @ drop (length pat) (drop i s)" by (metis append_take_drop_id)
  then show "\<exists>xs ys. s = xs @ pat @ ys" by blast
next
  assume "\<exists>xs ys. s = xs @ pat @ ys"
  then obtain xs ys where "s = xs @ pat @ ys" by blast
  then have "length xs \<in> set [0..<length s + 1]" "take (length pat) (drop (length xs) s) = pat" by auto
  then show "contains s pat" unfolding contains_def list_ex_iff by blast
qed

text \<open>What a string predicate means on a string.\<close>

fun string_holds :: "predicate_op \<Rightarrow> string \<Rightarrow> string \<Rightarrow> bool" where
  "string_holds EQ pat s = (s = pat)"
| "string_holds LIKE_PREFIX pat s = (\<exists>ys. s = pat @ ys)"
| "string_holds LIKE_CONTAINS pat s = (\<exists>xs ys. s = xs @ pat @ ys)"
| "string_holds _ pat s = False"

lemma prefix_take: "(\<exists>ys. s = pat @ ys) \<longleftrightarrow> length pat \<le> length s \<and> take (length pat) s = pat"
  by (metis append_eq_conv_conj append_take_drop_id le_add1 length_append)

lemma verify_on_tail:
  assumes "tail_fits ss" "k < length ss" "length pat < 2 ^ 63" "p_op \<in> {EQ, LIKE_PREFIX, LIKE_CONTAINS}"
  shows "verify_single beyond (build_tail ss) p_op pat k \<longleftrightarrow> string_holds p_op pat (ss ! k)"
    "verify_among beyond (build_tail ss) p_op pat k \<longleftrightarrow> string_holds p_op pat (ss ! k)"
proof -
  let ?s = "ss ! k" and ?tail = "build_tail ss"
  have t: "tail_strings (take (Suc k) ss) = tail_strings (take k ss) @ ?s @ [char_of (0::nat)]"
    using assms(2) by (simp add: take_Suc_conv_app_nth tail_strings_append)
  have ls: "length ?s < 2 ^ 63"
    using length_tail_take_le[of "Suc k" ss] assms(1) unfolding t by (simp add: tail_fits_def)
  have len: "unat (tail_len ?tail k) = length ?s" by (rule tail_len_build[OF assms(1,2)])
  have lw: "tail_len ?tail k = word_of_nat (length ?s)" by (simp flip: len)
  have le: "word_of_nat (length pat) \<le> tail_len ?tail k \<longleftrightarrow> length pat \<le> length ?s"
    using assms(3) ls by (simp add: word_le_nat_alt len)
  have eq: "tail_len ?tail k = word_of_nat (length pat) \<longleftrightarrow> length ?s = length pat"
    using assms(3) by (simp add: word_unat_eq_iff len)
  have short: "tail_len ?tail k < 8 \<longleftrightarrow> length ?s < 8" by (simp add: word_less_nat_alt len)
  obtain pad where "tail_from ?tail k = tail_strings (drop k ss) @ pad"
    using tail_from_build[OF assms(1), of k] assms(2) by auto
  then obtain rest where rest: "tail_from ?tail k = ?s @ rest"
    using assms(2) by (simp add: Cons_nth_drop_Suc[symmetric])
  have view: "tail_view ?tail k = ?s" by (rule tail_view_build[OF assms(1,2)])
  have cmp: "(if length pat < 8 then short_match beyond (tail_from ?tail k) pat else memcmp_eq (tail_from ?tail k) pat) \<longleftrightarrow>
      take (length pat) ?s = pat" if "length pat \<le> length ?s"
    using that by (simp add: rest short_match_iff memcmp_eq_def)
  show "verify_single beyond ?tail p_op pat k \<longleftrightarrow> string_holds p_op pat ?s"
    using assms(4) cmp by (auto simp: verify_single_def Let_def eq le view contains_iff prefix_take)
  show "verify_among beyond ?tail p_op pat k \<longleftrightarrow> string_holds p_op pat ?s"
    using assms(4) cmp le eq by (auto simp: verify_among_def Let_def short view contains_iff prefix_take not_less)
qed

subsection \<open>The sum over the bit planes\<close>

lemma sum_planes_eq:
  "sum_planes f pl b mx acc = acc + (\<Sum>k\<in>{b..<mx + 1}. plane_term f pl k)"
proof (induction f pl b mx acc rule: sum_planes.induct)
  case (1 f pl b mx acc)
  define T where "T i = (\<Sum>k\<in>{i..<mx + 1}. plane_term f pl k)" for i
  have head: "T i = plane_term f pl i + T (i + 1)" if "i \<le> mx" for i
    using that unfolding T_def by (subst sum.atLeast_Suc_lessThan) simp_all
  note IH = 1(1)[folded T_def] 1(2)[folded T_def]
  have "sum_planes f pl b mx acc = acc + T b"
  proof (cases "b + 3 \<le> mx")
    case True
    have "T b = plane_term f pl b + (plane_term f pl (b + 1) + (plane_term f pl (b + 2) + (plane_term f pl (b + 3) + T (b + 4))))"
      using True head[of b] head[of "b + 1"] head[of "b + 2"] head[of "b + 3"] by (simp add: numeral_eq_Suc)
    then show ?thesis using IH(1)[OF True] True by (subst sum_planes.simps) (simp add: add.assoc)
  next
    case False
    show ?thesis
    proof (cases "b \<le> mx")
      case True
      then show ?thesis using IH(2)[OF False True] False head[OF True] by (subst sum_planes.simps) (simp add: add.assoc)
    next
      case beyond: False
      then have "T b = 0" by (simp add: T_def)
      then show ?thesis using False beyond by (subst sum_planes.simps) simp
    qed
  qed
  then show ?case by (simp only: T_def)
qed

lemma block_top_bit_spec: "block_top_bit pl b \<le> b" "block_top_bit pl b < k \<Longrightarrow> k \<le> b \<Longrightarrow> pl ! k = 0"
  by (induction b) (auto simp: le_Suc_eq split: if_splits)

lemma plane_term_zero: "pl ! k = 0 \<Longrightarrow> plane_term f pl k = 0"
  by (simp add: plane_term_def popcount_card)

definition rows_of :: "u64 \<Rightarrow> nat set" where
  "rows_of m = {r. r < 64 \<and> bit m r}"

lemma finite_rows_of [simp]: "finite (rows_of m)"
  by (simp add: rows_of_def)

lemma plane_term_eq:
  assumes "length (planes t) = 64" "k < 64"
  shows "plane_term f (planes t) k = (\<Sum>r\<in>rows_of f. push_bit k (of_bool (bit (tile_scalar t r) k)))"
proof -
  have "{r. r < 64 \<and> bit (f AND planes t ! k) r} = {r \<in> rows_of f. bit (tile_scalar t r) k}"
    using assms by (auto simp: rows_of_def bit_and_iff bit_tile_scalar)
  then have "word_of_nat (popcount (f AND planes t ! k)) = (\<Sum>r\<in>rows_of f. of_bool (bit (tile_scalar t r) k) :: u64)"
    by (simp add: popcount_card sum.If_cases of_bool_def Int_def)
  then show ?thesis by (simp add: plane_term_def push_bit_eq_mult sum_distrib_right)
qed

lemma scalar_sum:
  fixes x :: u64
  shows "x = (\<Sum>k\<in>{0..<64}. push_bit k (of_bool (bit x k)))"
proof -
  have "x = take_bit 64 x" by (rule bit_word_eqI) (simp add: bit_take_bit_iff)
  also have "\<dots> = (\<Sum>k\<in>{0..<64}. push_bit k (of_bool (bit x k)))" by (rule take_bit_sum)
  finally show ?thesis .
qed

lemma sum_planes_scalars:
  assumes "length (planes t) = 64" "mx < 64" "\<And>k. mx < k \<Longrightarrow> k < 64 \<Longrightarrow> planes t ! k = 0"
  shows "sum_planes f (planes t) 0 (block_top_bit (planes t) mx) 0 = (\<Sum>r\<in>rows_of f. tile_scalar t r)"
proof -
  let ?top = "block_top_bit (planes t) mx"
  have le: "?top < 64" using block_top_bit_spec(1)[of "planes t" mx] assms(2) by simp
  have zero: "plane_term f (planes t) k = 0" if "?top < k" "k < 64" for k
    using that assms(3)[of k] block_top_bit_spec(2)[of "planes t" mx k] by (cases "k \<le> mx") (auto intro!: plane_term_zero)
  have "sum_planes f (planes t) 0 ?top 0 = (\<Sum>k\<in>{0..<?top + 1}. plane_term f (planes t) k)"
    by (simp only: sum_planes_eq add_0)
  also have "\<dots> = (\<Sum>k\<in>{0..<64}. plane_term f (planes t) k)"
    by (rule sum.mono_neutral_left) (use le zero in auto)
  also have "\<dots> = (\<Sum>k\<in>{0..<64}. \<Sum>r\<in>rows_of f. push_bit k (of_bool (bit (tile_scalar t r) k)))"
    by (rule sum.cong) (simp_all add: plane_term_eq[OF assms(1)])
  also have "\<dots> = (\<Sum>r\<in>rows_of f. \<Sum>k\<in>{0..<64}. push_bit k (of_bool (bit (tile_scalar t r) k)))"
    by (rule sum.swap)
  also have "\<dots> = (\<Sum>r\<in>rows_of f. tile_scalar t r)"
    by (rule sum.cong) (simp_all only: scalar_sum[symmetric])
  finally show ?thesis .
qed

end
