(* ===== verification/Query_Correct.thy ===== *)
theory Query_Correct
  imports Runner
begin

text \<open>
  The correctness of a query on one row group, up to single predicates: the planned program computes
  the candidate masks, the candidates of ingested rows miss no matching row for the predicates named
  \<open>exact\<close>, and the compare width of numeric predicates loses nothing.
\<close>

subsection \<open>The planned program\<close>

text \<open>A predicate on a string column uses one of the three string operations.\<close>

definition known_op :: "predicate \<Rightarrow> bool" where
  "known_op pred \<longleftrightarrow> (is_string pred \<longrightarrow> pred_op pred \<in> {EQ, LIKE_PREFIX, LIKE_CONTAINS})"

definition phys :: "string list \<Rightarrow> string \<Rightarrow> nat" where
  "phys names c = (case get_physical_idx names c 0 of Inr p \<Rightarrow> p | Inl _ \<Rightarrow> 0)"

text \<open>What the JIT part of a predicate tests on row \<open>r\<close> of a block.\<close>

definition candidate_row :: "row_group \<Rightarrow> cbst_tile list \<Rightarrow> predicate \<Rightarrow> nat \<Rightarrow> bool" where
  "candidate_row rg tiles pred r =
     (let names = column_names rg; p = phys names (pred_column pred);
          x = tile_scalar (tiles ! p) r;
          k = tile_scalar (tiles ! phys names (pred_column pred @ ''_kim'')) r;
          pat = clean_pattern (pred_op pred) (pred_value pred)
      in if is_string pred then
           (case pred_op pred of
              EQ \<Rightarrow> compare_row CMP_SKELETON (int (min 32 ((length pat + 1) * 8))) (GetSkeletonConstant (pred_value pred)) x \<and>
                compare_row CMP_KIM 64 (GenerateKimSignature (pred_value pred)) k
            | LIKE_PREFIX \<Rightarrow> compare_row CMP_SKELETON (int (min 32 (length pat * 8))) (GetSkeletonConstant (pred_value pred)) x
            | _ \<Rightarrow> compare_row CMP_KIM 64 (GenerateKimSignature pat) k)
         else compare_row (case pred_op pred of GT \<Rightarrow> CMP_GT | LT \<Rightarrow> CMP_LT | _ \<Rightarrow> CMP_EQ)
                (int (num_compare_bits (blocks rg) p (numeric_value pred))) (numeric_value pred) x)"

lemma get_physical_idx_spec:
  "get_physical_idx names c i = Inr p \<Longrightarrow> i \<le> p \<and> p < i + length names \<and> names ! (p - i) = c"
proof (induction names arbitrary: i)
  case Nil then show ?case by simp
next
  case (Cons n names)
  show ?case
  proof (cases "n = c")
    case True
    then show ?thesis using Cons.prems by simp
  next
    case False
    then have "Suc i \<le> p \<and> p < Suc i + length names \<and> names ! (p - Suc i) = c"
      using Cons.IH[of "Suc i"] Cons.prems by simp
    moreover from this have "p - i = Suc (p - Suc i)" by linarith
    ultimately show ?thesis by simp
  qed
qed

lemma phys_spec:
  assumes "get_physical_idx names c 0 = Inr p"
  shows "phys names c = p" "p < length names" "names ! p = c"
  using get_physical_idx_spec[OF assms] by (simp_all add: phys_def assms)

text \<open>
  The state of planning on tiles \<open>tiles\<close>: the operations so far run, and the mask registers hold
  the masks of the predicates so far.
\<close>

definition plan_inv :: "cbst_tile list \<Rightarrow> u64 list \<Rightarrow> plan_state \<Rightarrow> (nat \<Rightarrow> bool) list \<Rightarrow> bool" where
  "plan_inv tiles buf st Ps \<longleftrightarrow>
     (\<exists>rf. run_ops tiles (plan_ops st) (\<lambda>_. None, buf) = Some (rf, buf) \<and>
        list_all2 (\<lambda>v P. rf v = Some (Mask (row_mask P)) \<and> v < vreg_counter st) (predicate_mask_regs st) Ps) \<and>
     (predicate_mask_regs st \<noteq> [] \<longrightarrow> plan_ops st \<noteq> [] \<and> dest_reg (last (plan_ops st)) = last (predicate_mask_regs st))"

lemma plan_inv_empty: "plan_inv tiles buf empty_plan []"
  by (simp add: plan_inv_def empty_plan_def)

lemma plan_inv_add:
  assumes inv: "plan_inv tiles buf st Ps" and used: "0 < used"
    and run: "\<And>rf. \<exists>rf'. run_ops tiles (fst e) (rf, buf) = Some (rf', buf) \<and> (\<forall>v<vreg_counter st. rf' v = rf v) \<and>
        rf' m = Some (Mask (row_mask P))"
    and e: "snd e = [m]" "fst e \<noteq> []" "dest_reg (last (fst e)) = m" "m < vreg_counter st + used"
  shows "plan_inv tiles buf (add_ops e used st) (Ps @ [P])"
proof -
  obtain rf where rf: "run_ops tiles (plan_ops st) (\<lambda>_. None, buf) = Some (rf, buf)"
      "list_all2 (\<lambda>v P. rf v = Some (Mask (row_mask P)) \<and> v < vreg_counter st) (predicate_mask_regs st) Ps"
    using inv by (auto simp: plan_inv_def)
  obtain rf' where rf': "run_ops tiles (fst e) (rf, buf) = Some (rf', buf)" "\<forall>v<vreg_counter st. rf' v = rf v"
      "rf' m = Some (Mask (row_mask P))"
    using run[of rf] by auto
  have "list_all2 (\<lambda>v P. rf' v = Some (Mask (row_mask P)) \<and> v < vreg_counter st + used) (predicate_mask_regs st) Ps"
    by (rule list_all2_mono[OF rf(2)]) (use rf'(2) used in auto)
  then show ?thesis
    using rf(1) rf'(1,3) e by (auto simp: plan_inv_def add_ops_def run_ops_append list_all2_appendI)
qed

lemma plan_inv_strings: "plan_inv tiles buf (st\<lparr>plan_strings := x\<rparr>) Ps = plan_inv tiles buf st Ps"
  by (simp add: plan_inv_def)

text \<open>Tiles a program planned for \<open>rg\<close> may run on.\<close>

definition fits_schema :: "row_group \<Rightarrow> cbst_tile list \<Rightarrow> bool" where
  "fits_schema rg tiles \<longleftrightarrow> length tiles = length (column_names rg) \<and> length tiles < 2 ^ 32"

lemma fits_index:
  assumes "fits_schema rg tiles" "p < length (column_names rg)"
  shows "unat (word_of_nat p :: u64) = p" "p < length tiles"
  using assms unat_u64[of p] by (auto simp: fits_schema_def)

lemma plan_predicate_inv:
  assumes plan: "plan_predicate rg pred st = Inr st'" and inv: "plan_inv tiles buf st Ps"
    and k: "known_op pred" and fits: "fits_schema rg tiles"
  shows "plan_inv tiles buf st' (Ps @ [candidate_row rg tiles pred])"
proof (cases "is_string pred")
  case False
  then obtain p where p: "get_physical_idx (column_names rg) (pred_column pred) 0 = Inr p"
      and st': "st' = add_ops (numeric_ops pred p (num_compare_bits (blocks rg) p (numeric_value pred)) (vreg_counter st)) 2 st"
    using plan by (auto simp: plan_predicate_def ebind_eq_Inr)
  note ph = phys_spec[OF p] fits_index[OF fits phys_spec(2)[OF p]]
  have c: "candidate_row rg tiles pred = (\<lambda>r. compare_row (case pred_op pred of GT \<Rightarrow> CMP_GT | LT \<Rightarrow> CMP_LT | _ \<Rightarrow> CMP_EQ)
      (int (num_compare_bits (blocks rg) p (numeric_value pred))) (numeric_value pred) (tile_scalar (tiles ! p) r))"
    using False by (simp add: candidate_row_def fun_eq_iff Let_def ph(1))
  show ?thesis unfolding st' c
    by (rule plan_inv_add[OF inv, where m = "vreg_counter st + 1"])
      (use ph in \<open>auto simp: numeric_ops_def emit_op_def run_op_def split: predicate_op.split\<close>)
next
  case True
  then obtain p pk col where p: "get_physical_idx (column_names rg) (pred_column pred) 0 = Inr p"
      and pk: "get_physical_idx (column_names rg) (pred_column pred @ ''_kim'') 0 = Inr pk"
      and st': "st' = add_ops (string_ops pred p pk (vreg_counter st)) (int (length (fst (string_ops pred p pk (vreg_counter st)))))
        (st\<lparr>plan_strings := plan_strings st @ [(pred, col, clean_pattern (pred_op pred) (pred_value pred))]\<rparr>)"
    using plan by (auto simp: plan_predicate_def ebind_eq_Inr Let_def)
  note ph = phys_spec[OF p] fits_index[OF fits phys_spec(2)[OF p]] phys_spec[OF pk] fits_index[OF fits phys_spec(2)[OF pk]]
  let ?st = "st\<lparr>plan_strings := plan_strings st @ [(pred, col, clean_pattern (pred_op pred) (pred_value pred))]\<rparr>"
  let ?v = "vreg_counter st"
  have inv': "plan_inv tiles buf ?st Ps" using inv by (simp add: plan_inv_strings)
  have mask_and: "row_mask P AND row_mask Q = row_mask (\<lambda>r. P r \<and> Q r)" for P Q
    by (rule bit_word_eqI) (auto simp: bit_and_iff)
  consider "pred_op pred = EQ" | "pred_op pred = LIKE_PREFIX" | "pred_op pred = LIKE_CONTAINS"
    using k True by (auto simp: known_op_def)
  then show ?thesis
  proof cases
    case 1
    show ?thesis unfolding st'
      by (rule plan_inv_add[OF inv', where m = "?v + 4"])
        (use 1 True ph in \<open>auto simp: string_ops_def emit_op_def run_op_def candidate_row_def[abs_def] Let_def mask_and
           simp del: compare_row.simps\<close>)
  next
    case 2
    show ?thesis unfolding st'
      by (rule plan_inv_add[OF inv', where m = "?v + 1"])
        (use 2 True ph in \<open>auto simp: string_ops_def emit_op_def run_op_def candidate_row_def[abs_def] Let_def
           simp del: compare_row.simps\<close>)
  next
    case 3
    show ?thesis unfolding st'
      by (rule plan_inv_add[OF inv', where m = "?v + 2"])
        (use 3 True ph in \<open>auto simp: string_ops_def emit_op_def run_op_def candidate_row_def[abs_def] Let_def
           simp del: compare_row.simps\<close>)
  qed
qed

lemma plan_predicates_inv:
  assumes "plan_predicates rg preds st = Inr st'" "plan_inv tiles buf st Ps" "\<forall>pred\<in>set preds. known_op pred"
    "fits_schema rg tiles"
  shows "plan_inv tiles buf st' (Ps @ map (candidate_row rg tiles) preds)"
  using assms
proof (induction preds arbitrary: st Ps)
  case Nil
  then show ?case by simp
next
  case (Cons pred preds)
  obtain st1 where st1: "plan_predicate rg pred st = Inr st1" "plan_predicates rg preds st1 = Inr st'"
    using Cons.prems(1) by (auto simp: ebind_eq_Inr)
  have "plan_inv tiles buf st1 (Ps @ [candidate_row rg tiles pred])"
    by (rule plan_predicate_inv[OF st1(1) Cons.prems(2)]) (use Cons.prems in auto)
  then show ?case using Cons.IH[OF st1(2), of "Ps @ [candidate_row rg tiles pred]"] Cons.prems by simp
qed

lemma mask_and: "row_mask P AND row_mask Q = row_mask (\<lambda>r. P r \<and> Q r)"
  by (rule bit_word_eqI) (auto simp: bit_and_iff)

text \<open>The register an operation list leaves its result in, if it starts from register \<open>r\<close>.\<close>

definition last_dest :: "micro_op list \<Rightarrow> int \<Rightarrow> int" where
  "last_dest ops r = (if ops = [] then r else dest_reg (last ops))"

lemma and_chain_run:
  assumes "rf r = Some (Mask (row_mask P))" "list_all2 (\<lambda>u Q. rf u = Some (Mask (row_mask Q)) \<and> u < v) rs Qs" "r < v"
  shows "\<exists>rf'. run_ops tiles (and_chain rs r v) (rf, buf) = Some (rf', buf) \<and>
     rf' (last_dest (and_chain rs r v) r) = Some (Mask (row_mask (\<lambda>i. P i \<and> (\<forall>Q\<in>set Qs. Q i))))"
  using assms
proof (induction rs arbitrary: r v rf P Qs)
  case Nil
  then show ?case by (simp add: last_dest_def)
next
  case (Cons u rs)
  obtain Q Qs' where Qs: "Qs = Q # Qs'" "rf u = Some (Mask (row_mask Q))" "u < v"
      "list_all2 (\<lambda>u Q. rf u = Some (Mask (row_mask Q)) \<and> u < v) rs Qs'"
    using Cons.prems(2) by (auto simp: list_all2_Cons1)
  let ?rf = "rf(v \<mapsto> Mask (row_mask (\<lambda>r. P r \<and> Q r)))"
  have step: "run_op tiles (emit_op BIT_AND v r u 0) (rf, buf) = Some (?rf, buf)"
    using Cons.prems(1) Qs(2) by (simp add: run_op_def emit_op_def mask_and)
  have p1: "?rf v = Some (Mask (row_mask (\<lambda>r. P r \<and> Q r)))" and lt: "v < v + 1" by simp_all
  have rest: "list_all2 (\<lambda>u Q. ?rf u = Some (Mask (row_mask Q)) \<and> u < v + 1) rs Qs'"
    by (rule list_all2_mono[OF Qs(4)]) auto
  obtain rf' where rf': "run_ops tiles (and_chain rs v (v + 1)) (?rf, buf) = Some (rf', buf)"
      "rf' (last_dest (and_chain rs v (v + 1)) v) = Some (Mask (row_mask (\<lambda>i. (P i \<and> Q i) \<and> (\<forall>R\<in>set Qs'. R i))))"
    using Cons.IH[OF p1 rest lt] by blast
  have "last_dest (and_chain (u # rs) r v) r = last_dest (and_chain rs v (v + 1)) v"
    by (simp add: last_dest_def emit_op_def)
  then show ?case using step rf' by (simp add: Qs(1) conj_assoc)
qed

lemma final_ops_scan:
  assumes plan: "plan_predicates rg preds empty_plan = Inr st" and ops: "final_ops st = Some ops"
    and k: "\<forall>pred\<in>set preds. known_op pred" and fits: "fits_schema rg tiles"
  shows "jit_scan ops tiles dmask = Some (row_mask (\<lambda>r. \<forall>pred\<in>set preds. candidate_row rg tiles pred r) AND dmask)"
proof -
  let ?buf = "replicate 64 (0 :: u64)"
  have inv: "plan_inv tiles ?buf st (map (candidate_row rg tiles) preds)"
    using plan_predicates_inv[OF plan plan_inv_empty k fits] by simp
  obtain r rs where r: "predicate_mask_regs st = r # rs" and ops': "ops = plan_ops st @ and_chain rs r (vreg_counter st)"
    using ops by (auto simp: final_ops_def split: list.splits)
  obtain rf where rf: "run_ops tiles (plan_ops st) (\<lambda>_. None, ?buf) = Some (rf, ?buf)"
      "list_all2 (\<lambda>v P. rf v = Some (Mask (row_mask P)) \<and> v < vreg_counter st) (r # rs) (map (candidate_row rg tiles) preds)"
    using inv r by (auto simp: plan_inv_def)
  obtain pred preds' where p: "preds = pred # preds'" "rf r = Some (Mask (row_mask (candidate_row rg tiles pred)))"
      "r < vreg_counter st"
      "list_all2 (\<lambda>v P. rf v = Some (Mask (row_mask P)) \<and> v < vreg_counter st) rs (map (candidate_row rg tiles) preds')"
    using rf(2) by (cases preds) auto
  obtain rf' where rf': "run_ops tiles (and_chain rs r (vreg_counter st)) (rf, ?buf) = Some (rf', ?buf)"
      "rf' (last_dest (and_chain rs r (vreg_counter st)) r) =
        Some (Mask (row_mask (\<lambda>i. candidate_row rg tiles pred i \<and> (\<forall>Q\<in>set (map (candidate_row rg tiles) preds'). Q i))))"
    using and_chain_run[OF p(2,4,3)] by blast
  have ne: "plan_ops st \<noteq> []" "dest_reg (last (plan_ops st)) = last (r # rs)" using inv r by (auto simp: plan_inv_def)
  have chain: "and_chain rs r v = [] \<longleftrightarrow> rs = []" for v by (cases rs) simp_all
  have "dest_reg (last ops) = last_dest (and_chain rs r (vreg_counter st)) r"
    using ne chain by (cases "rs = []") (auto simp: ops' last_dest_def)
  then show ?thesis
    using rf(1) rf' ne(1) by (simp add: jit_scan_def scan_block_def ops' run_ops_append p(1))
qed

subsection \<open>Where the columns of a schema are\<close>

text \<open>
  No two physical columns share a name, and no numeric column is followed by one named like its
  KIM companion (the planner would take it for a string column).
\<close>

fun no_false_kim :: "(string \<times> u32) list \<Rightarrow> bool" where
  "no_false_kim ((n, t) # (m, u) # fs) = ((is_string_type t \<or> m \<noteq> n @ ''_kim'') \<and> no_false_kim ((m, u) # fs))"
| "no_false_kim _ = True"

definition plain_schema :: "(string \<times> u32) list \<Rightarrow> bool" where
  "plain_schema fs \<longleftrightarrow> distinct (physical_names fs) \<and> no_false_kim fs"

lemma logical_columns_physical:
  "no_false_kim fs \<Longrightarrow> logical_columns (physical_names fs) = map (\<lambda>(n, t). (n, is_string_type t)) fs"
proof (induction fs rule: no_false_kim.induct)
  case (1 n t m u fs)
  then show ?case by (cases "is_string_type u") auto
qed (auto simp: split_paired_all)

lemma length_physical_names [simp, length_simps]: "length (physical_names fs) = physical_width (map snd fs)"
  by (induction fs) auto

lemma set_fst_physical: "set (map fst fs) \<subseteq> set (physical_names fs)"
  by (induction fs) auto

lemma distinct_logical: "distinct (physical_names fs) \<Longrightarrow> distinct (map fst fs)"
proof (induction fs)
  case Nil then show ?case by simp
next
  case (Cons x fs)
  then show ?case using set_fst_physical[of fs] by (cases x) (auto split: if_splits)
qed

lemma get_physical_nth: "distinct names \<Longrightarrow> i < length names \<Longrightarrow> get_physical_idx names (names ! i) k = Inr (k + i)"
proof (induction names arbitrary: i k)
  case Nil then show ?case by simp
next
  case (Cons n names)
  then show ?case by (cases i) auto
qed

lemma phys_nth: "distinct names \<Longrightarrow> i < length names \<Longrightarrow> phys names (names ! i) = i"
  by (simp add: phys_def get_physical_nth)

lemma physical_names_append: "physical_names (xs @ ys) = physical_names xs @ physical_names ys"
  by (induction xs) auto

lemma physical_name_at:
  assumes "f < length fs"
  defines "p \<equiv> physical_width (take f (map snd fs))"
  shows "p < physical_width (map snd fs)" "physical_names fs ! p = fst (fs ! f)"
    "is_string_type (snd (fs ! f)) \<Longrightarrow> p + 1 < physical_width (map snd fs)"
    "is_string_type (snd (fs ! f)) \<Longrightarrow> physical_names fs ! (p + 1) = fst (fs ! f) @ ''_kim''"
proof -
  obtain n t where nt: "fs ! f = (n, t)" by (cases "fs ! f")
  have fs: "fs = take f fs @ (n, t) # drop (Suc f) fs" using id_take_nth_drop[OF assms(1)] nt by simp
  have p: "p = length (physical_names (take f fs))" by (simp add: p_def take_map)
  have names: "physical_names fs = physical_names (take f fs) @
      (if is_string_type t then [n, n @ ''_kim''] else [n]) @ physical_names (drop (Suc f) fs)"
    by (subst fs) (simp add: physical_names_append)
  have len: "physical_width (map snd fs) = length (physical_names fs)" by simp
  show "p < physical_width (map snd fs)" "physical_names fs ! p = fst (fs ! f)"
    "is_string_type (snd (fs ! f)) \<Longrightarrow> p + 1 < physical_width (map snd fs)"
    "is_string_type (snd (fs ! f)) \<Longrightarrow> physical_names fs ! (p + 1) = fst (fs ! f) @ ''_kim''"
    unfolding len names by (simp_all add: p nt nth_append)
qed

lemma get_str_col_idx_nth:
  "distinct (map fst fs) \<Longrightarrow> f < length fs \<Longrightarrow>
   get_str_col_idx (map (\<lambda>(n, t). (n, is_string_type t)) fs) (fst (fs ! f)) c = Inr (c + string_index (map snd fs) f)"
proof (induction fs arbitrary: f c)
  case Nil then show ?case by simp
next
  case (Cons x fs)
  then show ?case by (cases f; cases x) auto
qed

subsection \<open>What a predicate means on a batch\<close>

text \<open>The value a scan sees: a null is 0, or the empty string.\<close>

definition column_number :: "arrow_array \<Rightarrow> nat \<Rightarrow> u64" where
  "column_number c k = (case array_cell c k of Num w \<Rightarrow> w | _ \<Rightarrow> 0)"

definition column_text :: "arrow_array \<Rightarrow> nat \<Rightarrow> string" where
  "column_text c k = (case array_cell c k of Str s \<Rightarrow> s | _ \<Rightarrow> [])"

fun number_holds :: "predicate_op \<Rightarrow> u64 \<Rightarrow> u64 \<Rightarrow> bool" where
  "number_holds GT v x = (v < x)"
| "number_holds LT v x = (x < v)"
| "number_holds _ v x = (x = v)"

definition pred_holds :: "record_batch \<Rightarrow> nat \<Rightarrow> predicate \<Rightarrow> bool" where
  "pred_holds batch k pred = (case column_by_name batch (pred_column pred) of
       None \<Rightarrow> False
     | Some c \<Rightarrow>
         if is_string pred then string_holds (pred_op pred) (clean_pattern (pred_op pred) (pred_value pred)) (column_text c k)
         else number_holds (pred_op pred) (numeric_value pred) (column_number c k))"

text \<open>
  The patterns for which the filters miss nothing: an equality whose \<open>%\<close> at the end, if any, is not
  among the first four bytes, a prefix that is not empty, and a substring that is not one byte.
\<close>

definition exact_pattern :: "predicate_op \<Rightarrow> string \<Rightarrow> bool" where
  "exact_pattern p_op v \<longleftrightarrow> length v < 2 ^ 63 \<and>
     (case p_op of
        EQ \<Rightarrow> v = [] \<or> last v \<noteq> CHR ''%'' \<or> 4 < length v
      | LIKE_PREFIX \<Rightarrow> clean_pattern LIKE_PREFIX v \<noteq> []
      | LIKE_CONTAINS \<Rightarrow> length (clean_pattern LIKE_CONTAINS v) \<noteq> 1
      | _ \<Rightarrow> False)"

definition exact_predicate :: "record_batch \<Rightarrow> predicate \<Rightarrow> bool" where
  "exact_predicate batch pred = (case column_by_name batch (pred_column pred) of
       None \<Rightarrow> False
     | Some c \<Rightarrow> is_string pred = is_string_type (type_id c) \<and> length (pred_value pred) < 2 ^ 63 \<and>
         (if is_string pred then exact_pattern (pred_op pred) (pred_value pred) else True))"

lemma exact_known: "exact_predicate batch pred \<Longrightarrow> known_op pred"
  by (auto simp: exact_predicate_def known_op_def exact_pattern_def split: option.splits if_splits predicate_op.splits)

subsection \<open>The filters miss no row\<close>

lemma low_bits_id: "(\<And>k. n \<le> k \<Longrightarrow> k < 64 \<Longrightarrow> \<not> bit x k) \<Longrightarrow> low_bits n x = x"
  by (rule bit_word_eqI) (simp add: low_bits_def bit_take_bit_iff, metis not_less)

lemma low_bits_64 [simp]: "low_bits 64 x = x"
  by (rule low_bits_id) simp

lemma compare_bits_exact: "0 < n \<Longrightarrow> int n \<le> cap \<Longrightarrow> compare_bits cap (int n) = n"
  by (simp add: compare_bits_def)

lemma low_bits_skeleton:
  assumes "m \<le> 4" "take m s = take m t" "m \<le> length s" "m \<le> length t"
  shows "low_bits (8 * m) (skeleton_of s) = low_bits (8 * m) (skeleton_of t)"
proof -
  have p: "(256::nat) ^ m = 2 ^ (8 * m)"
  proof -
    have "(256::nat) = 2 ^ 8" by simp
    then show ?thesis by (simp only: power_mult[symmetric] mult.commute)
  qed
  have l: "le_value (take 4 u) mod 2 ^ (8 * m) = le_value (take m u)" if "m \<le> length u" for u
  proof -
    have "take 4 u = take m u @ drop m (take 4 u)"
      using assms(1) append_take_drop_id[of m "take 4 u"] by (simp add: min_def)
    then have "le_value (take 4 u) = le_value (take m u) + 256 ^ m * le_value (drop m (take 4 u))"
      using that by (metis le_value_append length_take min.absorb2)
    then show ?thesis using le_value_bound[of "take m u"] that p by simp
  qed
  have "low_bits (8 * m) (skeleton_of u) = word_of_nat (le_value (take m u))" if "m \<le> length u" for u
  proof -
    have "low_bits (8 * m) (skeleton_of u) = word_of_nat (take_bit (8 * m) (le_value (take 4 u)))"
      using assms(1) by (simp add: low_bits_def skeleton_of_def take_bit_of_nat)
    then show ?thesis using l[OF that] by (simp add: take_bit_eq_mod)
  qed
  then show ?thesis using assms by simp
qed

lemma skeleton_filter:
  assumes "exact_pattern EQ v"
  shows "low_bits n (skeleton_of v) = low_bits n (GetSkeletonConstant v)"
proof -
  have "take 4 (strip_back v) = take 4 v"
    using assms by (cases v rule: rev_cases) (auto simp: exact_pattern_def strip_back_def)
  then show ?thesis by (simp add: GetSkeletonConstant_def skeleton_of_def)
qed

lemma string_filter_complete:
  assumes "exact_pattern p_op v" "string_holds p_op (clean_pattern p_op v) s"
  shows "case p_op of
      EQ \<Rightarrow> compare_row CMP_SKELETON (int (min 32 ((length v + 1) * 8))) (GetSkeletonConstant v) (skeleton_of s) \<and>
        compare_row CMP_KIM 64 (GenerateKimSignature v) (GenerateKimSignature s)
    | LIKE_PREFIX \<Rightarrow> compare_row CMP_SKELETON (int (min 32 (length (strip_back v) * 8))) (GetSkeletonConstant v) (skeleton_of s)
    | _ \<Rightarrow> compare_row CMP_KIM 64 (GenerateKimSignature (strip_back (strip_front v))) (GenerateKimSignature s)"
proof (cases p_op)
  case EQ
  then show ?thesis using assms skeleton_filter[of v] by (simp add: compare_bits_def)
next
  case LIKE_PREFIX
  let ?p = "strip_back v" and ?m = "min 4 (length (strip_back v))"
  obtain ys where s: "s = ?p @ ys" using assms LIKE_PREFIX by auto
  have ne: "?p \<noteq> []" using assms LIKE_PREFIX by (simp add: exact_pattern_def)
  have nb: "compare_bits 32 (int (min 32 (length ?p * 8))) = 8 * ?m"
    using ne by (subst compare_bits_exact) auto
  have "low_bits (8 * ?m) (skeleton_of s) = low_bits (8 * ?m) (skeleton_of ?p)"
    by (rule low_bits_skeleton) (auto simp: s min_def)
  then show ?thesis using LIKE_PREFIX nb by (simp add: GetSkeletonConstant_def)
next
  case LIKE_CONTAINS
  let ?p = "strip_back (strip_front v)"
  obtain xs ys where s: "s = xs @ ?p @ ys" using assms LIKE_CONTAINS by auto
  have "?p = [] \<or> 2 \<le> length ?p"
    using assms LIKE_CONTAINS by (cases ?p; cases "tl ?p") (auto simp: exact_pattern_def)
  then have "kim_covers (GenerateKimSignature s) (GenerateKimSignature ?p)"
    using kim_covers_infix[of ?p xs ys] by (auto simp: s GenerateKimSignature_def[of "[]"] kim_covers_def)
  then show ?thesis using LIKE_CONTAINS by (simp add: kim_covers_def compare_bits_def)
qed (use assms in \<open>auto simp: exact_pattern_def\<close>)

lemma find_rev_None: "find P (rev [0..<n]) = None \<Longrightarrow> k < n \<Longrightarrow> \<not> P k"
  by (auto simp: find_None_iff)

lemma find_rev_Some: "find P (rev [0..<n]) = Some b \<Longrightarrow> b < n \<and> P b \<and> (\<forall>k. b < k \<and> k < n \<longrightarrow> \<not> P k)"
proof (induction n)
  case 0 then show ?case by simp
next
  case (Suc n) then show ?case by (auto split: if_splits simp: less_Suc_eq)
qed

lemma msb_index_above: "msb_index v < k \<Longrightarrow> k < 64 \<Longrightarrow> \<not> bit v k"
  using find_rev_None[of "bit v" 64 k] find_rev_Some[of "bit v" 64]
  unfolding msb_index_def by (auto split: option.splits)

lemma msb_index_less: "msb_index v < 64"
  using find_rev_Some[of "bit v" 64] unfolding msb_index_def by (auto split: option.splits)

lemma max_active_above:
  "max_active_bit bs p < k \<Longrightarrow> k < 64 \<Longrightarrow> blk \<in> set bs \<Longrightarrow> planes (columns blk ! p) ! k = 0"
proof -
  assume a: "max_active_bit bs p < k" "k < 64" "blk \<in> set bs"
  then have "\<not> plane_active bs p k"
    using find_rev_None[of "plane_active bs p" 64 k] find_rev_Some[of "plane_active bs p" 64]
    unfolding max_active_bit_def by (auto split: option.splits)
  then show ?thesis using a(3) by (auto simp: plane_active_def list_ex_iff)
qed

lemma max_active_less: "max_active_bit bs p < 64"
  using find_rev_Some[of "plane_active bs p" 64] unfolding max_active_bit_def by (auto split: option.splits)

text \<open>The compare width loses nothing: it covers the threshold and every value of the row group.\<close>

lemma numeric_compare_exact:
  assumes "blk \<in> set bs" "length (planes (columns blk ! p)) = 64" "r < 64"
  shows "compare_row (case p_op of GT \<Rightarrow> CMP_GT | LT \<Rightarrow> CMP_LT | _ \<Rightarrow> CMP_EQ) (int (num_compare_bits bs p v)) v
      (tile_scalar (columns blk ! p) r) \<longleftrightarrow> number_holds p_op v (tile_scalar (columns blk ! p) r)"
proof -
  let ?n = "num_compare_bits bs p v" and ?x = "tile_scalar (columns blk ! p) r"
  have n: "0 < ?n" "?n \<le> 64" "max_active_bit bs p < ?n" "msb_index v < ?n"
    using max_active_less[of bs p] msb_index_less[of v] by (auto simp: num_compare_bits_def)
  have nb: "compare_bits 64 (int ?n) = ?n" using n by (intro compare_bits_exact) auto
  have x: "low_bits ?n ?x = ?x"
  proof (rule low_bits_id)
    fix k assume k: "?n \<le> k" "k < 64"
    then have "planes (columns blk ! p) ! k = 0" using max_active_above[OF _ k(2) assms(1)] n(3) by simp
    then show "\<not> bit ?x k" using bit_tile_scalar[OF assms(2,3) k(2)] by simp
  qed
  have v: "low_bits ?n v = v" by (rule low_bits_id) (use msb_index_above n(4) in auto)
  show ?thesis by (cases p_op) (simp_all add: nb x v)
qed

subsection \<open>A row group that stores a batch\<close>

definition with_deletes :: "row_group \<Rightarrow> (nat \<Rightarrow> u64) \<Rightarrow> row_group" where
  "with_deletes rg dm = rg\<lparr>blocks := map (\<lambda>b. (blocks rg ! b)\<lparr>delete_mask := dm b\<rparr>) [0..<length (blocks rg)]\<rparr>"

text \<open>
  \<open>rg\<close> is what ingesting \<open>batch\<close> builds, after any deletions. The schema is plain, and every block's
  strings fit their payload.
\<close>

definition stored :: "record_batch \<Rightarrow> row_group \<Rightarrow> bool" where
  "stored batch rg \<longleftrightarrow> arrow_batch batch \<and> plain_schema (schema_fields batch) \<and>
     (\<forall>c\<in>set (batch_columns batch). supported_type (type_id c)) \<and>
     (\<forall>b. block_strings batch b = [] \<or> tail_fits (block_strings batch b)) \<and>
     length (physical_names (schema_fields batch)) < 2 ^ 32 \<and>
     (\<exists>rg0 dm. Ingest batch = Inr rg0 \<and> rg = with_deletes rg0 dm)"

lemma storedD:
  assumes "stored batch rg"
  shows "arrow_batch batch" "plain_schema (schema_fields batch)" "\<forall>c\<in>set (batch_columns batch). supported_type (type_id c)"
    "map snd (schema_fields batch) = map type_id (batch_columns batch)" "length (schema_fields batch) = length (batch_columns batch)"
    "column_names rg = physical_names (schema_fields batch)" "num_rows rg = word_of_nat (batch_rows batch)"
    "batch_rows batch < 2 ^ 63" "length (blocks rg) = block_total (batch_rows batch)"
    "length (physical_names (schema_fields batch)) < 2 ^ 32"
  using assms by (auto simp: stored_def Ingest_eq with_deletes_def arrow_batch_def dest: map_eq_imp_length_eq)

lemma stored_block:
  assumes "stored batch rg" "b < block_total (batch_rows batch)"
  shows "columns (blocks rg ! b) = columns (ingested_block batch b)"
    "tail_payload (blocks rg ! b) = build_tail (block_strings batch b)" "blocks rg ! b \<in> set (blocks rg)"
  using assms by (auto simp: stored_def Ingest_eq with_deletes_def ingested_block_def block_strings_def)

lemma stored_fits:
  assumes "stored batch rg" "b < block_total (batch_rows batch)"
  shows "fits_schema rg (columns (blocks rg ! b))"
  using assms storedD[OF assms(1)] stored_block[OF assms]
  by (simp add: fits_schema_def ingested_block_def length_concat_tiles)

lemma stored_rows:
  assumes "stored batch rg" "b < block_total (batch_rows batch)"
  shows "rows_in_block rg b = rows_of_block (batch_rows batch) b"
proof -
  note d = storedD[OF assms(1)]
  have lt: "b * 64 < batch_rows batch" using assms(2) by (rule block_in_range)
  have "num_rows rg - word_of_nat (b * 64) = word_of_nat (batch_rows batch - b * 64)"
    using lt by (simp add: d(7) of_nat_diff)
  moreover have "unat (word_of_nat (batch_rows batch - b * 64) :: u64) = batch_rows batch - b * 64"
    using d(8) by (intro unat_u64) simp
  ultimately show ?thesis
    by (auto simp: rows_in_block_def rows_of_block_def min_def word_le_nat_alt)
qed

lemma column_index:
  assumes "arrow_batch batch" "column_by_name batch name = Some c"
  obtains f where "f < length (batch_columns batch)" "batch_columns batch ! f = c" "fst (schema_fields batch ! f) = name"
proof -
  have "map_of (zip (map fst (schema_fields batch)) (batch_columns batch)) name = Some c"
    using assms by (simp add: arrow_batch_def)
  then have "(name, c) \<in> set (zip (map fst (schema_fields batch)) (batch_columns batch))" by (rule map_of_SomeD)
  then obtain f where "f < length (batch_columns batch)" "f < length (schema_fields batch)"
      "zip (map fst (schema_fields batch)) (batch_columns batch) ! f = (name, c)"
    by (auto simp: in_set_conv_nth)
  then show ?thesis using that[of f] by auto
qed

text \<open>Where the planner finds a column of the batch.\<close>

lemma stored_column:
  assumes st: "stored batch rg" and c: "column_by_name batch name = Some c"
  obtains f where "f < length (batch_columns batch)" "batch_columns batch ! f = c"
    "phys (column_names rg) name = logical_to_physical (map type_id (batch_columns batch)) 0 ! f"
    "is_string_type (type_id c) \<Longrightarrow> phys (column_names rg) (name @ ''_kim'') =
       logical_to_physical (map type_id (batch_columns batch)) 0 ! f + 1"
    "get_str_col_idx (logical_columns (column_names rg)) name 0 = Inr (string_index (map type_id (batch_columns batch)) f)"
proof -
  note d = storedD[OF st]
  obtain f where f: "f < length (batch_columns batch)" "batch_columns batch ! f = c" "fst (schema_fields batch ! f) = name"
    using column_index[OF d(1) c] by blast
  have fl: "f < length (schema_fields batch)" using f(1) d(5) by simp
  have ty: "snd (schema_fields batch ! f) = type_id c"
    using arg_cong[OF d(4), of "\<lambda>xs. xs ! f"] f fl by simp
  note nm = physical_name_at[OF fl]
  have dist: "distinct (physical_names (schema_fields batch))" using d(2) by (simp add: plain_schema_def)
  let ?p = "physical_width (take f (map snd (schema_fields batch)))"
  have lp: "logical_to_physical (map type_id (batch_columns batch)) 0 ! f = ?p"
    using nth_logical_to_physical[of f "map type_id (batch_columns batch)" 0] f(1) by (simp add: d(4))
  have "phys (column_names rg) name = ?p"
    using phys_nth[OF dist, of ?p] nm(1,2) f(3) by (simp add: d(6))
  moreover have "phys (column_names rg) (name @ ''_kim'') = ?p + 1" if "is_string_type (type_id c)"
    using phys_nth[OF dist, of "?p + 1"] nm(3,4) f(3) that ty by (simp add: d(6))
  moreover have "get_str_col_idx (logical_columns (column_names rg)) name 0 =
      Inr (string_index (map type_id (batch_columns batch)) f)"
    using get_str_col_idx_nth[OF distinct_logical[OF dist] fl, of 0] d(2) f(3)
    by (simp add: d(6) plain_schema_def logical_columns_physical d(4)[symmetric])
  ultimately show ?thesis using that[OF f(1,2)] lp by simp
qed

lemma stored_number:
  assumes st: "stored batch rg" and b: "b < block_total (batch_rows batch)" and c: "column_by_name batch name = Some c"
    and num: "\<not> is_string_type (type_id c)" and r: "r < rows_of_block (batch_rows batch) b"
  shows "tile_scalar (columns (blocks rg ! b) ! phys (column_names rg) name) r = column_number c (b * 64 + r)"
proof -
  note d = storedD[OF st]
  obtain f where f: "f < length (batch_columns batch)" "batch_columns batch ! f = c"
      "phys (column_names rg) name = logical_to_physical (map type_id (batch_columns batch)) 0 ! f"
    using stored_column[OF st c] by blast
  have sup: "supported_type (type_id c)" using d(3) f by auto
  have rows: "rows_of_block (batch_rows batch) b \<le> 64" by (simp add: rows_of_block_def)
  have "columns (blocks rg ! b) ! phys (column_names rg) name =
      column_tiles c (b * 64) (rows_of_block (batch_rows batch) b) ! 0"
    using nth_block_tile[of f "batch_columns batch" 0 "b * 64" "rows_of_block (batch_rows batch) b"] f
    by (simp add: stored_block(1)[OF st b] ingested_block_def length_column_tiles)
  then show ?thesis using numeric_tile(2,3)[OF num sup r rows] by (simp add: column_number_def)
qed

lemma stored_text:
  assumes st: "stored batch rg" and b: "b < block_total (batch_rows batch)" and c: "column_by_name batch name = Some c"
    and str: "is_string_type (type_id c)" and r: "r < rows_of_block (batch_rows batch) b"
  shows "tile_scalar (columns (blocks rg ! b) ! phys (column_names rg) name) r = skeleton_of (column_text c (b * 64 + r))"
    "tile_scalar (columns (blocks rg ! b) ! phys (column_names rg) (name @ ''_kim'')) r =
       GenerateKimSignature (column_text c (b * 64 + r))"
    "\<exists>i. get_str_col_idx (logical_columns (column_names rg)) name 0 = Inr i \<and>
       i * rows_of_block (batch_rows batch) b + r < length (block_strings batch b) \<and>
       block_strings batch b ! (i * rows_of_block (batch_rows batch) b + r) = column_text c (b * 64 + r)"
proof -
  let ?rows = "rows_of_block (batch_rows batch) b"
  obtain f where f: "f < length (batch_columns batch)" "batch_columns batch ! f = c"
      "phys (column_names rg) name = logical_to_physical (map type_id (batch_columns batch)) 0 ! f"
      "phys (column_names rg) (name @ ''_kim'') = logical_to_physical (map type_id (batch_columns batch)) 0 ! f + 1"
      "get_str_col_idx (logical_columns (column_names rg)) name 0 = Inr (string_index (map type_id (batch_columns batch)) f)"
    using stored_column[OF st c] str by blast
  have rows: "?rows \<le> 64" by (simp add: rows_of_block_def)
  have t0: "columns (blocks rg ! b) ! phys (column_names rg) name = column_tiles c (b * 64) ?rows ! 0"
    using nth_block_tile[of f "batch_columns batch" 0 "b * 64" ?rows] f
    by (simp add: stored_block(1)[OF st b] ingested_block_def length_column_tiles)
  have t1: "columns (blocks rg ! b) ! phys (column_names rg) (name @ ''_kim'') = column_tiles c (b * 64) ?rows ! 1"
    using nth_block_tile[of f "batch_columns batch" 1 "b * 64" ?rows] f str
    by (simp add: stored_block(1)[OF st b] ingested_block_def length_column_tiles)
  have txtv: "column_text c k = (if is_null c k then [] else get_view c k)" for k
    using str by (simp add: column_text_def array_cell_def)
  have z: "skeleton_of [] = 0" "GenerateKimSignature [] = 0" by (simp_all add: skeleton_of_def GenerateKimSignature_def)
  show "tile_scalar (columns (blocks rg ! b) ! phys (column_names rg) name) r = skeleton_of (column_text c (b * 64 + r))"
    using string_tiles(2)[OF str r rows, of "b * 64"] by (simp add: t0 txtv z)
  show "tile_scalar (columns (blocks rg ! b) ! phys (column_names rg) (name @ ''_kim'')) r =
       GenerateKimSignature (column_text c (b * 64 + r))"
    using string_tiles(3)[OF str r rows, of "b * 64"] by (simp add: t1 txtv z)
  show "\<exists>i. get_str_col_idx (logical_columns (column_names rg)) name 0 = Inr i \<and>
       i * ?rows + r < length (block_strings batch b) \<and> block_strings batch b ! (i * ?rows + r) = column_text c (b * 64 + r)"
    using nth_block_string[of f batch r b] f str r by (simp add: txtv)
qed

text \<open>The JIT filter of a predicate: exact for numbers, complete for strings.\<close>

lemma candidate_exact:
  assumes st: "stored batch rg" and b: "b < block_total (batch_rows batch)" and r: "r < rows_of_block (batch_rows batch) b"
    and ex: "exact_predicate batch pred" and num: "\<not> is_string pred"
  shows "candidate_row rg (columns (blocks rg ! b)) pred r \<longleftrightarrow> pred_holds batch (b * 64 + r) pred"
proof -
  obtain c where c: "column_by_name batch (pred_column pred) = Some c" "\<not> is_string_type (type_id c)"
    using ex num by (auto simp: exact_predicate_def split: option.splits)
  let ?p = "phys (column_names rg) (pred_column pred)"
  have r64: "r < 64" using r by (simp add: rows_of_block_def)
  note x = stored_number[OF st b c r]
  obtain f where f: "f < length (batch_columns batch)" "batch_columns batch ! f = c"
      "?p = logical_to_physical (map type_id (batch_columns batch)) 0 ! f"
    using stored_column[OF st c(1)] by blast
  have "columns (blocks rg ! b) ! ?p = column_tiles c (b * 64) (rows_of_block (batch_rows batch) b) ! 0"
    using nth_block_tile[of f "batch_columns batch" 0 "b * 64" "rows_of_block (batch_rows batch) b"] f
    by (simp add: stored_block(1)[OF st b] ingested_block_def length_column_tiles)
  then have len: "length (planes (columns (blocks rg ! b) ! ?p)) = 64"
    using c(2) by (simp add: column_tiles_def ExtractColumnBlock_def ExtractBoolBlock_def transpose_into_def transpose64_def)
  show ?thesis
    using numeric_compare_exact[OF stored_block(3)[OF st b] len r64, of "pred_op pred" "numeric_value pred"] num
    by (simp add: candidate_row_def Let_def pred_holds_def c(1) x)
qed

lemma candidate_complete:
  assumes st: "stored batch rg" and b: "b < block_total (batch_rows batch)" and r: "r < rows_of_block (batch_rows batch) b"
    and ex: "exact_predicate batch pred" and str: "is_string pred" and holds: "pred_holds batch (b * 64 + r) pred"
  shows "candidate_row rg (columns (blocks rg ! b)) pred r"
proof -
  obtain c where c: "column_by_name batch (pred_column pred) = Some c" "is_string_type (type_id c)"
      "exact_pattern (pred_op pred) (pred_value pred)"
    using ex str by (auto simp: exact_predicate_def split: option.splits)
  have h: "string_holds (pred_op pred) (clean_pattern (pred_op pred) (pred_value pred)) (column_text c (b * 64 + r))"
    using holds str by (simp add: pred_holds_def c(1))
  show ?thesis
    using string_filter_complete[OF c(3) h] str c(3)
    by (cases "pred_op pred")
      (auto simp: candidate_row_def Let_def stored_text(1,2)[OF st b c(1,2) r] exact_pattern_def simp del: compare_row.simps)
qed

end
