(* ===== verification/Execute_Correct.thy ===== *)
theory Execute_Correct
  imports Query_Correct
begin

text \<open>
  \<open>Execute\<close> on a row group that stores a batch: from the masks of the blocks to the number of
  selected rows and the sum of their values. For exact predicates the selected rows are the
  matching rows.
\<close>

subsection \<open>Execute on a stored batch\<close>

definition planned_string :: "row_group \<Rightarrow> predicate \<Rightarrow> predicate \<times> nat \<times> string \<Rightarrow> bool" where
  "planned_string rg pred e = (case e of (pred', i, pat) \<Rightarrow> pred' = pred \<and>
     pat = clean_pattern (pred_op pred) (pred_value pred) \<and>
     get_str_col_idx (logical_columns (column_names rg)) (pred_column pred) 0 = Inr i)"

lemma planned_fst: "planned_string rg pred e \<Longrightarrow> fst e = pred"
  by (auto simp: planned_string_def)

lemma plan_predicate_strings:
  assumes "plan_predicate rg pred st = Inr st'"
  shows "\<exists>new. plan_strings st' = plan_strings st @ new \<and>
    list_all2 (planned_string rg) (filter is_string [pred]) new"
  using assms by (auto simp: plan_predicate_def ebind_eq_Inr add_ops_def Let_def planned_string_def split: if_splits)

lemma plan_predicates_strings:
  assumes "plan_predicates rg preds st = Inr st'"
  shows "\<exists>new. plan_strings st' = plan_strings st @ new \<and>
    list_all2 (planned_string rg) (filter is_string preds) new"
  using assms
proof (induction preds arbitrary: st)
  case Nil
  then show ?case by simp
next
  case (Cons pred preds)
  obtain st1 where st1: "plan_predicate rg pred st = Inr st1" "plan_predicates rg preds st1 = Inr st'"
    using Cons.prems by (auto simp: ebind_eq_Inr)
  obtain new1 where n1: "plan_strings st1 = plan_strings st @ new1" "list_all2 (planned_string rg) (filter is_string [pred]) new1"
    using plan_predicate_strings[OF st1(1)] by blast
  obtain new2 where n2: "plan_strings st' = plan_strings st1 @ new2" "list_all2 (planned_string rg) (filter is_string preds) new2"
    using Cons.IH[OF st1(2)] by blast
  have "filter is_string (pred # preds) = filter is_string [pred] @ filter is_string preds" by simp
  then have "list_all2 (planned_string rg) (filter is_string (pred # preds)) (new1 @ new2)"
    using list_all2_appendI[OF n1(2) n2(2)] by simp
  then show ?case using n1(1) n2(1) by auto
qed

text \<open>What \<open>Plan\<close> leaves in the runner.\<close>

lemma Plan_runner:
  assumes "Plan rt_add helper preds rg agg kind = Inr q"
  obtains st ops where "plan_predicates rg preds empty_plan = Inr st" "final_ops st = Some ops" "scan_func q = jit_scan ops"
    "runner_strings q = map (\<lambda>(pred, i, pat). (pred_op pred, i, pat)) (plan_strings st)"
    "agg = [] \<Longrightarrow> agg_col_idx q = -1"
    "agg \<noteq> [] \<Longrightarrow> agg_col_idx q = int (phys (column_names rg) agg) \<and> max_agg_bit q = max_active_bit (blocks rg) (phys (column_names rg) agg) \<and>
       phys (column_names rg) agg < length (column_names rg)"
proof -
  have z: "zip (map pred_op (map fst xs)) (zip (map (\<lambda>(_, i, _). i) xs) (map (\<lambda>(_, _, pat). pat) xs)) =
      map (\<lambda>(pred, i, pat). (pred_op pred, i, pat)) xs" for xs :: "(predicate \<times> nat \<times> string) list"
    by (induction xs) auto
  let ?A = "if agg \<noteq> [] then ebind (get_physical_idx (column_names rg) agg 0) (\<lambda>p_agg.
      Inr (int p_agg, max_active_bit (blocks rg) p_agg, agg)) else Inr (-1, 0, [])"
  obtain st where st: "plan_predicates rg preds empty_plan = Inr st"
    using assms unfolding Plan_def ebind_eq_Inr by blast
  obtain ops where ops: "final_ops st = Some ops"
    using assms by (cases "final_ops st") (auto simp: Plan_def st)
  obtain idx mx name where a: "?A = Inr (idx, mx, name)"
    using assms by (cases ?A) (auto simp: Plan_def st ops)
  obtain code where code: "Compile rt_add helper ops = Inr code"
    using assms a by (cases "Compile rt_add helper ops") (auto simp: Plan_def st ops)
  have q: "q = \<lparr>scan_func = jit_scan ops, string_predicates = map fst (plan_strings st), all_predicates = preds,
                string_col_indices = map (\<lambda>(_, i, _). i) (plan_strings st),
                clean_string_patterns = map (\<lambda>(_, _, pat). pat) (plan_strings st),
                agg_col_idx = idx, max_agg_bit = mx, agg_col_name = name, agg_type = kind\<rparr>"
    using assms a code by (simp add: Plan_def st ops)
  show ?thesis
  proof (rule that[OF st ops])
    show "scan_func q = jit_scan ops" by (simp add: q)
    show "runner_strings q = map (\<lambda>(pred, i, pat). (pred_op pred, i, pat)) (plan_strings st)"
      by (simp only: q runner_strings_def query_runner.select_convs z)
    show "agg = [] \<Longrightarrow> agg_col_idx q = -1" using a by (simp add: q)
    show "agg \<noteq> [] \<Longrightarrow> agg_col_idx q = int (phys (column_names rg) agg) \<and>
        max_agg_bit q = max_active_bit (blocks rg) (phys (column_names rg) agg) \<and>
        phys (column_names rg) agg < length (column_names rg)"
      using a phys_spec(1,2) by (auto simp: q ebind_eq_Inr)
  qed
qed

lemma verify_all_eq:
  "verify_all beyond tail rows ps i \<longleftrightarrow> (\<forall>(p_op, col, pat)\<in>set ps. verify_among beyond tail p_op pat (col * rows + i))"
  by (induction ps) (auto split: if_splits)

text \<open>A predicate whose kind agrees with its column and whose operation fits its kind.\<close>

definition sane_predicate :: "record_batch \<Rightarrow> predicate \<Rightarrow> bool" where
  "sane_predicate batch pred = (case column_by_name batch (pred_column pred) of
       None \<Rightarrow> False
     | Some c \<Rightarrow> is_string pred = is_string_type (type_id c) \<and> known_op pred \<and> length (pred_value pred) < 2 ^ 63)"

lemma sane_known: "sane_predicate batch pred \<Longrightarrow> known_op pred"
  by (auto simp: sane_predicate_def split: option.splits)

text \<open>One string predicate of a stored row, checked on the payload.\<close>

lemma verify_stored:
  assumes st: "stored batch rg" and b: "b < block_total (batch_rows batch)" and r: "r < rows_of_block (batch_rows batch) b"
    and ex: "sane_predicate batch pred" and str: "is_string pred"
    and i: "get_str_col_idx (logical_columns (column_names rg)) (pred_column pred) 0 = Inr i"
  defines "k \<equiv> i * rows_of_block (batch_rows batch) b + r" and "pat \<equiv> clean_pattern (pred_op pred) (pred_value pred)"
  shows "verify_single beyond (tail_payload (blocks rg ! b)) (pred_op pred) pat k \<longleftrightarrow> pred_holds batch (b * 64 + r) pred"
    "verify_among beyond (tail_payload (blocks rg ! b)) (pred_op pred) pat k \<longleftrightarrow> pred_holds batch (b * 64 + r) pred"
    "tail_payload (blocks rg ! b) \<noteq> []"
proof -
  obtain c where c: "column_by_name batch (pred_column pred) = Some c" "is_string_type (type_id c)"
      "known_op pred" "length (pred_value pred) < 2 ^ 63"
    using ex str by (auto simp: sane_predicate_def split: option.splits)
  have k: "k < length (block_strings batch b)" "block_strings batch b ! k = column_text c (b * 64 + r)"
    using stored_text(3)[OF st b c(1,2) r] i by (auto simp: k_def)
  then have fits: "tail_fits (block_strings batch b)"
    using st unfolding stored_def by (metis length_0_conv not_less_zero)
  have op: "pred_op pred \<in> {EQ, LIKE_PREFIX, LIKE_CONTAINS}"
    using c(3) str by (simp add: known_op_def)
  have "length pat \<le> length (pred_value pred)"
    by (cases "pred_op pred") (auto simp: pat_def strip_back_def strip_front_def)
  then have len: "length pat < 2 ^ 63" using c(4) by simp
  have holds: "pred_holds batch (b * 64 + r) pred \<longleftrightarrow> string_holds (pred_op pred) pat (block_strings batch b ! k)"
    using str by (simp add: pred_holds_def c(1) k(2) pat_def)
  show "verify_single beyond (tail_payload (blocks rg ! b)) (pred_op pred) pat k \<longleftrightarrow> pred_holds batch (b * 64 + r) pred"
    "verify_among beyond (tail_payload (blocks rg ! b)) (pred_op pred) pat k \<longleftrightarrow> pred_holds batch (b * 64 + r) pred"
    using verify_on_tail[OF fits k(1) len op] by (simp_all add: stored_block(2)[OF st b] holds)
  have "8 \<le> length (build_tail (block_strings batch b))"
    using fits by (simp add: build_tail_def Let_def tail_fits_def)
  then show "tail_payload (blocks rg ! b) \<noteq> []" by (auto simp: stored_block(2)[OF st b])
qed

definition live_row :: "row_group \<Rightarrow> nat \<Rightarrow> bool" where
  "live_row rg k \<longleftrightarrow> bit (delete_mask (blocks rg ! (k div 64))) (k mod 64)"

lemma block_matches_stored:
  assumes st: "stored batch rg" and b: "b < block_total (batch_rows batch)"
    and plan: "Plan rt_add helper preds rg agg kind = Inr q" and ex: "\<forall>pred\<in>set preds. sane_predicate batch pred"
  shows "\<exists>m. block_matches beyond q rg b = Some m \<and> (\<forall>r<64. bit m r \<longleftrightarrow> r < rows_of_block (batch_rows batch) b \<and>
     bit (delete_mask (blocks rg ! b)) r \<and> (\<forall>pred\<in>set preds. candidate_row rg (columns (blocks rg ! b)) pred r \<and>
       (is_string pred \<longrightarrow> pred_holds batch (b * 64 + r) pred)))"
proof -
  let ?blk = "blocks rg ! b" and ?rows = "rows_of_block (batch_rows batch) b"
  obtain pst ops where p: "plan_predicates rg preds empty_plan = Inr pst" "final_ops pst = Some ops" "scan_func q = jit_scan ops"
      "runner_strings q = map (\<lambda>(pred, i, pat). (pred_op pred, i, pat)) (plan_strings pst)"
    using Plan_runner[OF plan] by metis
  define cand where "cand = (\<lambda>r. \<forall>pred\<in>set preds. candidate_row rg (columns ?blk) pred r)"
  define m where "m = row_mask cand AND delete_mask ?blk"
  define cm where "cm = (if ?rows < 64 then m AND (push_bit ?rows 1 - 1) else m)"
  have scan: "scan_func q (columns ?blk) (delete_mask ?blk) = Some m"
  proof -
    have "\<forall>pred\<in>set preds. known_op pred" using ex sane_known by blast
    then show ?thesis using final_ops_scan[OF p(1,2) _ stored_fits[OF st b], of "delete_mask ?blk"]
      by (simp only: p(3) m_def cand_def)
  qed
  have rows64: "?rows \<le> 64" by (simp add: rows_of_block_def)
  have cm: "bit cm r \<longleftrightarrow> r < ?rows \<and> bit (delete_mask ?blk) r \<and> cand r" if "r < 64" for r
    using that rows64 by (auto simp: cm_def m_def bit_and_iff mask_eq_exp_minus_1[symmetric] push_bit_eq_mult bit_mask_iff)
  define strs where "strs = plan_strings pst"
  have strs: "list_all2 (planned_string rg) (filter is_string preds) strs"
    using plan_predicates_strings[OF p(1)] by (auto simp: empty_plan_def strs_def)
  have entry: "pred \<in> set preds \<and> is_string pred \<and> pat = clean_pattern (pred_op pred) (pred_value pred) \<and>
      get_str_col_idx (logical_columns (column_names rg)) (pred_column pred) 0 = Inr i" if mem: "(pred, i, pat) \<in> set strs" for pred i pat
  proof -
    obtain n where "n < length strs" "strs ! n = (pred, i, pat)" using mem by (auto simp: in_set_conv_nth)
    moreover have "filter is_string preds ! n \<in> set (filter is_string preds)"
      by (rule nth_mem) (use calculation list_all2_lengthD[OF strs] in simp)
    ultimately have "planned_string rg (filter is_string preds ! n) (pred, i, pat)" "filter is_string preds ! n \<in> set (filter is_string preds)"
      using list_all2_nthD2[OF strs, of n] by auto
    then show ?thesis by (auto simp: planned_string_def)
  qed
  have all: "(\<forall>(pred, i, pat)\<in>set strs. P pred) \<longleftrightarrow> (\<forall>pred\<in>set preds. is_string pred \<longrightarrow> P pred)" for P
  proof -
    have "map fst strs = filter is_string preds"
      using strs by (intro nth_equalityI) (auto simp: list_all2_conv_all_nth intro!: planned_fst)
    then have "fst ` set strs = {pred \<in> set preds. is_string pred}" by (metis list.set_map set_filter)
    then show ?thesis by (auto simp: split_def) (metis (mono_tags, lifting) imageE mem_Collect_eq)
  qed
  have ver: "verify_single beyond (tail_payload ?blk) (pred_op pred) pat (i * ?rows + r) \<longleftrightarrow> pred_holds batch (b * 64 + r) pred"
    "verify_among beyond (tail_payload ?blk) (pred_op pred) pat (i * ?rows + r) \<longleftrightarrow> pred_holds batch (b * 64 + r) pred"
    if "(pred, i, pat) \<in> set strs" "r < ?rows" for pred i pat r
    using verify_stored(1)[OF st b that(2), where pred = pred and i = i and beyond = beyond]
      verify_stored(2)[OF st b that(2), where pred = pred and i = i and beyond = beyond] entry[OF that(1)] ex by auto
  define fin where "fin = (if cm = 0 then 0 else block_final_mask beyond q ?blk ?rows cm)"
  have fin: "bit fin r \<longleftrightarrow> bit cm r \<and> (\<forall>(pred, i, pat)\<in>set strs. pred_holds batch (b * 64 + r) pred)" if r: "r < 64" for r
  proof (cases "cm = 0 \<or> \<not> r < ?rows")
    case True
    have "bit (block_final_mask beyond q ?blk ?rows cm) r \<longrightarrow> bit cm r"
      using r by (auto simp: block_final_mask_def bit_collect_mask split: list.splits)
    then show ?thesis using True cm[OF r] by (auto simp: fin_def)
  next
    case False
    have rs: "runner_strings q = map (\<lambda>(pred, i, pat). (pred_op pred, i, pat)) strs" by (simp add: p(4) strs_def)
    consider "strs = []" | pred i pat where "strs = [(pred, i, pat)]" | x y zs where "strs = x # y # zs"
      by (cases strs rule: list.exhaust, simp, case_tac x21, case_tac x22) auto
    then show ?thesis
    proof cases
      case 1
      then show ?thesis using False by (simp add: fin_def block_final_mask_def rs)
    next
      case 2
      then show ?thesis using False r ver(1)[of pred i pat r] by (simp add: fin_def block_final_mask_def rs bit_collect_mask)
    next
      case 3
      have "block_final_mask beyond q ?blk ?rows cm =
          collect_mask (verify_all beyond (tail_payload ?blk) ?rows (map (\<lambda>(pred, i, pat). (pred_op pred, i, pat)) strs)) cm"
        using 3 by (cases x; cases y) (simp add: block_final_mask_def rs)
      then show ?thesis using False r ver(2) by (auto simp: fin_def bit_collect_mask verify_all_eq)
    qed
  qed
  have tail: "\<not> (tail_payload ?blk = [] \<and> runner_strings q \<noteq> [])" if nz: "cm \<noteq> 0"
  proof
    assume a: "tail_payload ?blk = [] \<and> runner_strings q \<noteq> []"
    obtain r where r: "r < 64" "bit cm r" using nz by (auto simp: bit_eq_iff)
    obtain pred i pat where e: "(pred, i, pat) \<in> set strs" using a by (cases strs) (auto simp: p(4) strs_def)
    show False using verify_stored(3)[OF st b, of r pred i] cm[OF r(1)] r(2) entry[OF e] ex a by auto
  qed
  have "block_matches beyond q rg b = Some fin"
    using tail by (cases "cm = 0") (simp_all add: block_matches_def Let_def scan stored_rows[OF st b] cm_def[symmetric] fin_def)
  moreover have "bit fin r \<longleftrightarrow> r < ?rows \<and> bit (delete_mask ?blk) r \<and> (\<forall>pred\<in>set preds.
      candidate_row rg (columns ?blk) pred r \<and> (is_string pred \<longrightarrow> pred_holds batch (b * 64 + r) pred))" if r: "r < 64" for r
    using fin[OF r] cm[OF r] all unfolding cand_def by auto
  ultimately show ?thesis by blast
qed

text \<open>
  The rows a query selects: those the JIT filter keeps and the verification confirms. For exact
  predicates they are the rows that satisfy all predicates.
\<close>

definition selected_rows :: "record_batch \<Rightarrow> row_group \<Rightarrow> predicate list \<Rightarrow> nat set" where
  "selected_rows batch rg preds = {k. k < batch_rows batch \<and> live_row rg k \<and> (\<forall>pred\<in>set preds.
     candidate_row rg (columns (blocks rg ! (k div 64))) pred (k mod 64) \<and> (is_string pred \<longrightarrow> pred_holds batch k pred))}"

definition matching_rows :: "record_batch \<Rightarrow> row_group \<Rightarrow> predicate list \<Rightarrow> nat set" where
  "matching_rows batch rg preds =
     {k. k < batch_rows batch \<and> live_row rg k \<and> (\<forall>pred\<in>set preds. pred_holds batch k pred)}"

definition sum_column :: "record_batch \<Rightarrow> string \<Rightarrow> nat set \<Rightarrow> u64" where
  "sum_column batch agg ks = (\<Sum>k\<in>ks. case column_by_name batch agg of None \<Rightarrow> 0 | Some c \<Rightarrow> column_number c k)"

lemma block_split:
  assumes "r < 64"
  shows "r < rows_of_block n b \<longleftrightarrow> b * 64 + r < n" "(b * 64 + r) div 64 = b" "(b * 64 + r) mod 64 = r"
  using assms by (auto simp: rows_of_block_def)

lemma execute_blocks_eq:
  assumes "\<forall>b\<in>set bs. block_matches beyond q rg b = Some (m b)"
  shows "execute_blocks beyond q rg bs (c, s) =
    Some (c + (\<Sum>b\<leftarrow>bs. word_of_nat (popcount (m b))), s + (\<Sum>b\<leftarrow>bs. block_sum q (blocks rg ! b) (m b)))"
  using assms by (induction bs arbitrary: c s) (auto simp: add.assoc)

lemma sum_over_blocks:
  fixes h :: "nat \<Rightarrow> u64"
  assumes m: "\<And>b r. b < block_total n \<Longrightarrow> r < 64 \<Longrightarrow> bit (m b) r \<longleftrightarrow> b * 64 + r \<in> M" and M: "M \<subseteq> {..<n}"
  shows "(\<Sum>b\<leftarrow>[0..<block_total n]. \<Sum>r\<in>rows_of (m b). h (b * 64 + r)) = (\<Sum>k\<in>M. h k)"
proof -
  have "(\<Sum>r\<in>rows_of (m b). h (b * 64 + r)) = (\<Sum>k\<in>{k \<in> M. k div 64 = b}. h k)" if "b < block_total n" for b
    by (rule sum.reindex_bij_witness[of _ "\<lambda>k. k mod 64" "\<lambda>r. b * 64 + r"])
      (use m[OF that] in \<open>auto simp: rows_of_def block_split\<close>)
  note per_block = this
  have "(\<Sum>b\<leftarrow>[0..<block_total n]. \<Sum>r\<in>rows_of (m b). h (b * 64 + r)) =
      (\<Sum>b\<in>set [0..<block_total n]. \<Sum>r\<in>rows_of (m b). h (b * 64 + r))"
    by (rule sum_list_distinct_conv_sum_set) simp
  also have "\<dots> = (\<Sum>b\<in>{0..<block_total n}. \<Sum>k\<in>{k \<in> M. k div 64 = b}. h k)"
    by (rule sum.cong) (simp_all only: set_upt atLeastLessThan_iff per_block)
  also have "\<dots> = (\<Sum>k\<in>M. h k)"
  proof (rule sum.group)
    show "finite M" using M by (rule finite_subset) simp
    show "(\<lambda>k. k div 64) ` M \<subseteq> {0..<block_total n}"
    proof
      fix b assume "b \<in> (\<lambda>k. k div 64) ` M"
      then obtain k where "k < n" "b = k div 64" using M by auto
      then show "b \<in> {0..<block_total n}" unfolding block_total_def atLeastLessThan_iff by linarith
    qed
  qed simp
  finally show ?thesis .
qed

lemma Execute_stored:
  assumes st: "stored batch rg" and plan: "Plan rt_add helper preds rg agg kind = Inr q"
    and ex: "\<forall>pred\<in>set preds. sane_predicate batch pred"
    and agg: "agg = [] \<or> (\<exists>c. column_by_name batch agg = Some c \<and> \<not> is_string_type (type_id c))"
  shows "Execute beyond q rg = Some (word_of_nat (card (selected_rows batch rg preds)),
     if agg = [] then 0 else sum_column batch agg (selected_rows batch rg preds))"
proof -
  let ?n = "batch_rows batch" and ?M = "selected_rows batch rg preds" and ?p = "phys (column_names rg) agg"
  define m where "m b = the (block_matches beyond q rg b)" for b
  have m: "block_matches beyond q rg b = Some (m b)"
      "r < 64 \<Longrightarrow> bit (m b) r \<longleftrightarrow> r < rows_of_block ?n b \<and> bit (delete_mask (blocks rg ! b)) r \<and> (\<forall>pred\<in>set preds.
         candidate_row rg (columns (blocks rg ! b)) pred r \<and> (is_string pred \<longrightarrow> pred_holds batch (b * 64 + r) pred))" if "b < block_total ?n" for b r
    using block_matches_stored[OF st that plan ex, of beyond] by (auto simp: m_def)
  have bits: "bit (m b) r \<longleftrightarrow> b * 64 + r \<in> ?M" if "b < block_total ?n" "r < 64" for b r
    using m(2)[OF that(1), of r] that by (auto simp: selected_rows_def live_row_def block_split)
  have sub: "?M \<subseteq> {..<?n}" by (auto simp: selected_rows_def)
  have "execute_blocks beyond q rg [0..<block_total ?n] (0, 0) =
      Some (0 + (\<Sum>b\<leftarrow>[0..<block_total ?n]. word_of_nat (popcount (m b))),
            0 + (\<Sum>b\<leftarrow>[0..<block_total ?n]. block_sum q (blocks rg ! b) (m b)))"
    by (rule execute_blocks_eq) (simp add: m(1))
  then have exec: "Execute beyond q rg = Some (\<Sum>b\<leftarrow>[0..<block_total ?n]. word_of_nat (popcount (m b)),
      \<Sum>b\<leftarrow>[0..<block_total ?n]. block_sum q (blocks rg ! b) (m b))"
    by (simp add: Execute_def storedD(9)[OF st])
  have "word_of_nat (popcount (m b)) = (\<Sum>r\<in>rows_of (m b). 1 :: u64)" for b
    by (simp add: popcount_card rows_of_def)
  then have count: "(\<Sum>b\<leftarrow>[0..<block_total ?n]. word_of_nat (popcount (m b))) = (word_of_nat (card ?M) :: u64)"
    using sum_over_blocks[of ?n m ?M "\<lambda>_. 1"] bits sub by simp
  obtain pst ops where q: "agg = [] \<Longrightarrow> agg_col_idx q = -1"
      "agg \<noteq> [] \<Longrightarrow> agg_col_idx q = int ?p \<and> max_agg_bit q = max_active_bit (blocks rg) ?p \<and> ?p < length (column_names rg)"
    using Plan_runner[OF plan] by metis
  have total: "(\<Sum>b\<leftarrow>[0..<block_total ?n]. block_sum q (blocks rg ! b) (m b)) =
      (if agg = [] then 0 else sum_column batch agg ?M)"
  proof (cases "agg = []")
    case True
    then show ?thesis using q(1) by (simp add: block_sum_def)
  next
    case False
    then obtain c where c: "column_by_name batch agg = Some c" "\<not> is_string_type (type_id c)" using agg by auto
    have "block_sum q (blocks rg ! b) (m b) = (\<Sum>r\<in>rows_of (m b). column_number c (b * 64 + r))"
      if b: "b < block_total ?n" for b
    proof -
      let ?t = "columns (blocks rg ! b) ! ?p"
      obtain f where f: "f < length (batch_columns batch)" "batch_columns batch ! f = c"
          "?p = logical_to_physical (map type_id (batch_columns batch)) 0 ! f"
        using stored_column[OF st c(1)] by blast
      have "?t = column_tiles c (b * 64) (rows_of_block ?n b) ! 0"
        using nth_block_tile[of f "batch_columns batch" 0 "b * 64" "rows_of_block ?n b"] f
        by (simp add: stored_block(1)[OF st b] ingested_block_def length_column_tiles)
      then have len: "length (planes ?t) = 64"
        using c(2) by (simp add: column_tiles_def ExtractColumnBlock_def ExtractBoolBlock_def transpose_into_def transpose64_def)
      have "sum_planes (m b) (planes ?t) 0 (block_top_bit (planes ?t) (max_agg_bit q)) 0 = (\<Sum>r\<in>rows_of (m b). tile_scalar ?t r)"
        using q(2)[OF False] max_active_above[OF _ _ stored_block(3)[OF st b], of ?p] max_active_less[of "blocks rg" ?p]
        by (intro sum_planes_scalars[OF len]) auto
      also have "\<dots> = (\<Sum>r\<in>rows_of (m b). column_number c (b * 64 + r))"
        by (rule sum.cong) (use m(2)[OF b] stored_number[OF st b c] in \<open>auto simp: rows_of_def\<close>)
      finally show ?thesis using q(2)[OF False] by (auto simp: block_sum_def Let_def rows_of_def)
    qed
    then have "(\<Sum>b\<leftarrow>[0..<block_total ?n]. block_sum q (blocks rg ! b) (m b)) =
        (\<Sum>b\<leftarrow>[0..<block_total ?n]. \<Sum>r\<in>rows_of (m b). column_number c (b * 64 + r))"
      by (intro arg_cong[of _ _ sum_list] map_cong) auto
    then show ?thesis
      using sum_over_blocks[of ?n m ?M "column_number c"] bits sub False by (simp add: sum_column_def c(1))
  qed
  show ?thesis unfolding exec count total ..
qed

lemma exact_sane: "exact_predicate batch pred \<Longrightarrow> sane_predicate batch pred"
  using exact_known[of batch pred] by (auto simp: exact_predicate_def sane_predicate_def split: option.splits)

lemma selected_exact:
  assumes st: "stored batch rg" and ex: "\<forall>pred\<in>set preds. exact_predicate batch pred"
  shows "selected_rows batch rg preds = matching_rows batch rg preds"
proof -
  have "candidate_row rg (columns (blocks rg ! (k div 64))) pred (k mod 64) \<and> (is_string pred \<longrightarrow> pred_holds batch k pred) \<longleftrightarrow>
      pred_holds batch k pred" if k: "k < batch_rows batch" and p: "pred \<in> set preds" for k pred
  proof -
    have "k div 64 * 64 + k mod 64 < batch_rows batch" using k by simp
    then have r: "k mod 64 < rows_of_block (batch_rows batch) (k div 64)"
      by (simp only: block_split(1) mod_less_divisor zero_less_numeral)
    have b: "k div 64 < block_total (batch_rows batch)" using k unfolding block_total_def by linarith
    show ?thesis
      using candidate_exact[OF st b r bspec[OF ex p]] candidate_complete[OF st b r bspec[OF ex p]]
      by (cases "is_string pred") auto
  qed
  then show ?thesis unfolding selected_rows_def matching_rows_def by blast
qed

end
