(* ===== verification/Compiler_Correct.thy ===== *)
theory Compiler_Correct
  imports Compiler
begin

text \<open>
  The correctness of the code \<open>Compile\<close> emits: the unrolled bit loops compute the comparison
  masks, the allocator never lets two live values share a register, and a call of the function
  returns the mask the micro operations mean, with the stack and the callee-saved registers as it
  found them.
\<close>

subsection \<open>The bit loops\<close>

text \<open>
  What a comparison needs of the code for one bit. \<open>used r\<close> are the registers it accumulates in;
  \<open>holds r nb v pl k s\<close> says that in state \<open>s\<close> they account for the bits from \<open>k\<close> up to \<open>nb\<close> of
  the value \<open>v\<close> and the planes \<open>pl\<close>.
\<close>

fun countdown :: "nat \<Rightarrow> gp list \<Rightarrow> (gp \<times> nat) list" where
  "countdown n [] = []"
| "countdown n (t # ts) = (t, n - 1) # countdown (n - 1) ts"

lemma fst_countdown [simp]: "map fst (countdown n ts) = ts"
  by (induction ts arbitrary: n) simp_all

lemma run_loads:
  assumes "distinct (map fst ps)" "tile \<notin> fst ` set ps"
  shows "\<exists>s'. run_code e (map (\<lambda>(t, k). LDR t tile (k * 8)) ps) s = Some s' \<and> only_regs (fst ` set ps) s s' \<and>
     (\<forall>(t, k)\<in>set ps. regs s' t = mem s (regs s tile + word_of_nat (k * 8)))"
  using assms
proof (induction ps arbitrary: s)
  case Nil
  then show ?case by simp
next
  case (Cons p ps)
  obtain t k where p: "p = (t, k)" by (cases p)
  let ?s = "set_reg t (mem s (regs s tile + word_of_nat (k * 8))) s"
  obtain s' where s': "run_code e (map (\<lambda>(t, k). LDR t tile (k * 8)) ps) ?s = Some s'"
      "only_regs (fst ` set ps) ?s s'" "\<forall>(u, j)\<in>set ps. regs s' u = mem ?s (regs ?s tile + word_of_nat (j * 8))"
    using Cons.IH[of ?s] Cons.prems by auto
  have "only_regs (fst ` set (p # ps)) s s'"
    using s'(2) by (auto simp: only_regs_def p)
  moreover have "regs s' t = regs ?s t"
    using s'(2) Cons.prems(1) unfolding only_regs_def p by (auto simp: image_iff)
  ultimately show ?case using s' Cons.prems by (auto simp: p)
qed

locale bit_emitter =
  fixes emit :: "'r \<Rightarrow> u64 \<Rightarrow> gp \<Rightarrow> a64_inst list"
    and used :: "'r \<Rightarrow> gp list"
    and holds :: "'r \<Rightarrow> nat \<Rightarrow> u64 \<Rightarrow> (nat \<Rightarrow> u64) \<Rightarrow> nat \<Rightarrow> a64_state \<Rightarrow> bool"
  assumes emit_step: "distinct (tmp # used r) \<Longrightarrow> k < nb \<Longrightarrow> nb \<le> 64 \<Longrightarrow> holds r nb v pl (Suc k) s \<Longrightarrow> regs s tmp = pl k \<Longrightarrow>
      \<exists>s'. run_code e (emit r (imm_bit v k) tmp) s = Some s' \<and> holds r nb v pl k s' \<and> only_regs (set (used r)) s s'"
    and holds_frame: "only_regs R s s' \<Longrightarrow> R \<inter> set (used r) = {} \<Longrightarrow> holds r nb v pl k s \<Longrightarrow> holds r nb v pl k s'"
begin

text \<open>\<open>planes_at s tile pl n\<close>: the first \<open>n\<close> planes stand in memory at the address in \<open>tile\<close>.\<close>

lemma load_then_emit:
  assumes "distinct (tmp # used r)" "tile \<notin> set (used r)" "k < nb" "nb \<le> 64" "holds r nb v pl (Suc k) s" "regs s tmp = pl k"
  obtains s' where "run_code e (emit r (imm_bit v k) tmp) s = Some s'" "holds r nb v pl k s'"
    "only_regs (set (used r)) s s'"
  using emit_step[OF assms(1,3,4,5,6)] by blast

lemma run_singles:
  assumes "distinct (t0 # tile # used r)" "nb \<le> 64"
  shows "n \<le> nb \<Longrightarrow> holds r nb v pl n s \<Longrightarrow> (\<And>j. j < nb \<Longrightarrow> mem s (regs s tile + word_of_nat (j * 8)) = pl j) \<Longrightarrow>
    \<exists>s'. run_code e (emit_singles (\<lambda>k. emit r (imm_bit v k)) tile t0 n) s = Some s' \<and> holds r nb v pl 0 s' \<and>
      only_regs (insert t0 (set (used r))) s s'"
proof (induction n arbitrary: s)
  case 0
  then show ?case by auto
next
  case (Suc k)
  let ?s = "set_reg t0 (mem s (regs s tile + word_of_nat (k * 8))) s"
  have l: "only_regs {t0} s ?s" by (simp add: only_regs_set)
  have h: "holds r nb v pl (Suc k) ?s" by (rule holds_frame[OF l _ Suc.prems(2)]) (use assms in auto)
  have p: "regs ?s t0 = pl k" using Suc.prems(1,3) by simp
  obtain s1 where s1: "run_code e (emit r (imm_bit v k) t0) ?s = Some s1" "holds r nb v pl k s1"
      "only_regs (set (used r)) ?s s1"
    using emit_step[of t0 r k nb v pl ?s e] assms h p Suc.prems(1) by auto
  have "mem s1 (regs s1 tile + word_of_nat (j * 8)) = pl j" if "j < nb" for j
    using s1(3) assms Suc.prems(3)[OF that] by (auto simp: only_regs_def)
  then obtain s2 where s2: "run_code e (emit_singles (\<lambda>k. emit r (imm_bit v k)) tile t0 k) s1 = Some s2"
      "holds r nb v pl 0 s2" "only_regs (insert t0 (set (used r))) s1 s2"
    using Suc.IH[OF _ s1(2)] Suc.prems(1) by auto
  have "only_regs (insert t0 (set (used r))) s s2"
    by (rule only_regs_trans[OF only_regs_trans[OF only_regs_mono[OF l] only_regs_mono[OF s1(3)]] s2(3)]) auto
  then show ?case using s1(1) s2 by (auto simp: run_code_append)
qed

lemma run_emits:
  assumes "distinct (ts @ used r)" "n \<le> nb" "nb \<le> 64" "length ts \<le> n" "holds r nb v pl n s"
    and "\<forall>(t, k)\<in>set (countdown n ts). regs s t = pl k"
  shows "\<exists>s'. run_code e (concat (map (\<lambda>(t, k). emit r (imm_bit v k) t) (countdown n ts))) s = Some s' \<and>
     holds r nb v pl (n - length ts) s' \<and> only_regs (set (used r)) s s'"
  using assms
proof (induction ts arbitrary: n s)
  case Nil
  then show ?case by simp
next
  case (Cons t ts)
  obtain k where n: "n = Suc k" using Cons.prems(4) by (cases n) auto
  obtain s1 where s1: "run_code e (emit r (imm_bit v k) t) s = Some s1" "holds r nb v pl k s1"
      "only_regs (set (used r)) s s1"
    using emit_step[of t r k nb v pl s e] Cons.prems by (auto simp: n)
  have "regs s1 u = regs s u" if "(u, j) \<in> set (countdown k ts)" for u j
  proof -
    have "u \<in> set ts" using that fst_countdown[of k ts] by (metis fst_conv imageI list.set_map)
    then show ?thesis using s1(3) Cons.prems(1) by (auto simp: only_regs_def)
  qed
  then have "\<forall>(u, j)\<in>set (countdown k ts). regs s1 u = pl j" using Cons.prems(6) by (auto simp: n)
  then obtain s2 where s2: "run_code e (concat (map (\<lambda>(t, k). emit r (imm_bit v k) t) (countdown k ts))) s1 = Some s2"
      "holds r nb v pl (k - length ts) s2" "only_regs (set (used r)) s1 s2"
    using Cons.IH[of k s1] Cons.prems s1(2) by (auto simp: n)
  have "only_regs (set (used r)) s s2" by (rule only_regs_trans[OF s1(3) s2(3)])
  then show ?case using s1(1) s2 by (auto simp: n run_code_append)
qed

text \<open>One round of an unrolled loop: load the planes of the next bits, then process them.\<close>

lemma run_round:
  assumes "distinct (ts @ tile # used r)" "n \<le> nb" "nb \<le> 64" "length ts \<le> n" "holds r nb v pl n s"
    and "\<And>j. j < nb \<Longrightarrow> mem s (regs s tile + word_of_nat (j * 8)) = pl j"
  obtains s' where "run_code e (map (\<lambda>(t, k). LDR t tile (k * 8)) (countdown n ts) @
      concat (map (\<lambda>(t, k). emit r (imm_bit v k) t) (countdown n ts))) s = Some s'"
    "holds r nb v pl (n - length ts) s'" "only_regs (set ts \<union> set (used r)) s s'"
    "\<And>j. j < nb \<Longrightarrow> mem s' (regs s' tile + word_of_nat (j * 8)) = pl j"
proof -
  have fs: "fst ` set (countdown n ts) = set ts" by (metis fst_countdown list.set_map)
  have below: "(t, k) \<in> set (countdown n ts) \<Longrightarrow> length ts \<le> n \<Longrightarrow> k < n" for t k n and ts :: "gp list"
    by (induction ts arbitrary: n) (auto, force+)
  obtain s1 where s1: "run_code e (map (\<lambda>(t, k). LDR t tile (k * 8)) (countdown n ts)) s = Some s1"
      "only_regs (set ts) s s1" "\<forall>(t, k)\<in>set (countdown n ts). regs s1 t = mem s (regs s tile + word_of_nat (k * 8))"
    using run_loads[of "countdown n ts" tile e s] assms(1) by (auto simp: fs)
  have h: "holds r nb v pl n s1" by (rule holds_frame[OF s1(2) _ assms(5)]) (use assms(1) in auto)
  have "\<forall>(t, k)\<in>set (countdown n ts). regs s1 t = pl k"
    using s1(3) below[of _ _ n ts] assms(2,4,6) by fastforce
  then obtain s2 where s2: "run_code e (concat (map (\<lambda>(t, k). emit r (imm_bit v k) t) (countdown n ts))) s1 = Some s2"
      "holds r nb v pl (n - length ts) s2" "only_regs (set (used r)) s1 s2"
    using run_emits[OF _ assms(2,3,4) h, of e] assms(1) by auto
  have o: "only_regs (set ts \<union> set (used r)) s s2"
    by (rule only_regs_trans[OF only_regs_mono[OF s1(2)] only_regs_mono[OF s2(3)]]) auto
  have "mem s2 (regs s2 tile + word_of_nat (j * 8)) = pl j" if "j < nb" for j
    using o assms(1) assms(6)[OF that] by (auto simp: only_regs_def)
  with s1(1) s2(1,2) o show ?thesis by (intro that[of s2]) (auto simp: run_code_append)
qed

lemma run_quads:
  assumes "distinct ([t0, t1, t2, t3] @ tile # used r)" "nb \<le> 64"
  shows "n \<le> nb \<Longrightarrow> holds r nb v pl n s \<Longrightarrow> (\<And>j. j < nb \<Longrightarrow> mem s (regs s tile + word_of_nat (j * 8)) = pl j) \<Longrightarrow>
    \<exists>s'. run_code e (emit_quads (\<lambda>k. emit r (imm_bit v k)) tile (t0, t1, t2, t3) n) s = Some s' \<and>
      holds r nb v pl 0 s' \<and> only_regs ({t0, t1, t2, t3} \<union> set (used r)) s s'"
proof (induction n arbitrary: s rule: less_induct)
  case (less n)
  show ?case
  proof (cases "4 \<le> n")
    case False
    then show ?thesis
      using run_singles[of t0 tile r nb n v pl s e] assms less.prems
      by (subst emit_quads.simps) (auto simp del: emit_singles.simps elim!: only_regs_mono)
  next
    case True
    let ?ts = "[t0, t1, t2, t3]"
    have len: "length ?ts = 4" by simp
    have lt: "n - 4 < n" and le: "n - 4 \<le> nb" using True less.prems(1) by linarith+
    obtain s1 where s1: "run_code e (map (\<lambda>(t, k). LDR t tile (k * 8)) (countdown n ?ts) @
        concat (map (\<lambda>(t, k). emit r (imm_bit v k) t) (countdown n ?ts))) s = Some s1"
      "holds r nb v pl (n - length ?ts) s1" "only_regs (set ?ts \<union> set (used r)) s s1"
      "\<And>j. j < nb \<Longrightarrow> mem s1 (regs s1 tile + word_of_nat (j * 8)) = pl j"
      by (rule run_round[OF assms(1) less.prems(1) assms(2) _ less.prems(2,3)]) (use True in auto)
    obtain s2 where s2: "run_code e (emit_quads (\<lambda>k. emit r (imm_bit v k)) tile (t0, t1, t2, t3) (n - 4)) s1 = Some s2"
      "holds r nb v pl 0 s2" "only_regs ({t0, t1, t2, t3} \<union> set (used r)) s1 s2"
      using less.IH[OF lt le s1(2)[unfolded len] s1(4)] by blast
    have code: "emit_quads (\<lambda>k. emit r (imm_bit v k)) tile (t0, t1, t2, t3) n =
        (map (\<lambda>(t, k). LDR t tile (k * 8)) (countdown n ?ts) @
         concat (map (\<lambda>(t, k). emit r (imm_bit v k) t) (countdown n ?ts))) @
        emit_quads (\<lambda>k. emit r (imm_bit v k)) tile (t0, t1, t2, t3) (n - 4)"
      using True by (subst emit_quads.simps) (simp add: numeral_eq_Suc)
    have "only_regs ({t0, t1, t2, t3} \<union> set (used r)) s s2"
      using only_regs_trans[OF _ s2(3)] s1(3) by simp
    then show ?thesis
      unfolding code run_code_append[of e "map _ _ @ _"] s1(1) using s2(1,2) by simp
  qed
qed

lemma run_pairs:
  assumes "distinct ([t0, t1] @ tile # used r)" "nb \<le> 64"
  shows "n \<le> nb \<Longrightarrow> holds r nb v pl n s \<Longrightarrow> (\<And>j. j < nb \<Longrightarrow> mem s (regs s tile + word_of_nat (j * 8)) = pl j) \<Longrightarrow>
    \<exists>s'. run_code e (emit_pairs (\<lambda>k. emit r (imm_bit v k)) tile (t0, t1) n) s = Some s' \<and>
      holds r nb v pl 0 s' \<and> only_regs ({t0, t1} \<union> set (used r)) s s'"
proof (induction n arbitrary: s rule: less_induct)
  case (less n)
  consider "n = 0" | "n = 1" | "2 \<le> n" by linarith
  then show ?case
  proof cases
    case 1
    then show ?thesis using less.prems(2) by (subst emit_pairs.simps) auto
  next
    case 2
    obtain s1 where "run_code e (map (\<lambda>(t, k). LDR t tile (k * 8)) (countdown n [t0]) @
        concat (map (\<lambda>(t, k). emit r (imm_bit v k) t) (countdown n [t0]))) s = Some s1"
      "holds r nb v pl (n - length [t0]) s1" "only_regs (set [t0] \<union> set (used r)) s s1"
      by (rule run_round[of "[t0]", OF _ less.prems(1) assms(2) _ less.prems(2,3)]) (use assms 2 in auto)
    then show ?thesis using 2 by (subst emit_pairs.simps) (auto elim!: only_regs_mono)
  next
    case 3
    let ?ts = "[t0, t1]"
    have len: "length ?ts = 2" by simp
    have lt: "n - 2 < n" and le: "n - 2 \<le> nb" using 3 less.prems(1) by linarith+
    obtain s1 where s1: "run_code e (map (\<lambda>(t, k). LDR t tile (k * 8)) (countdown n ?ts) @
        concat (map (\<lambda>(t, k). emit r (imm_bit v k) t) (countdown n ?ts))) s = Some s1"
      "holds r nb v pl (n - length ?ts) s1" "only_regs (set ?ts \<union> set (used r)) s s1"
      "\<And>j. j < nb \<Longrightarrow> mem s1 (regs s1 tile + word_of_nat (j * 8)) = pl j"
      by (rule run_round[OF assms(1) less.prems(1) assms(2) _ less.prems(2,3)]) (use 3 in auto)
    obtain s2 where s2: "run_code e (emit_pairs (\<lambda>k. emit r (imm_bit v k)) tile (t0, t1) (n - 2)) s1 = Some s2"
      "holds r nb v pl 0 s2" "only_regs ({t0, t1} \<union> set (used r)) s1 s2"
      using less.IH[OF lt le s1(2)[unfolded len] s1(4)] by blast
    have code: "emit_pairs (\<lambda>k. emit r (imm_bit v k)) tile (t0, t1) n =
        (map (\<lambda>(t, k). LDR t tile (k * 8)) (countdown n ?ts) @
         concat (map (\<lambda>(t, k). emit r (imm_bit v k) t) (countdown n ?ts))) @
        emit_pairs (\<lambda>k. emit r (imm_bit v k)) tile (t0, t1) (n - 2)"
      using 3 by (subst emit_pairs.simps) (simp add: numeral_eq_Suc)
    have "only_regs ({t0, t1} \<union> set (used r)) s s2"
      using only_regs_trans[OF _ s2(3)] s1(3) by simp
    then show ?thesis
      unfolding code run_code_append[of e "map _ _ @ _"] s1(1) using s2(1,2) by simp
  qed
qed

end

subsection \<open>The four emitters\<close>

lemma imm_bit_eq: "imm_bit (v :: 'a::len word) k = (if bit v k then 1 else 0)"
proof (rule bit_word_eqI)
  fix n assume "n < LENGTH('a)"
  show "bit (imm_bit v k) n = bit (if bit v k then 1 else 0 :: 'a word) n"
    by (cases n) (auto simp: imm_bit_def bit_simps)
qed

definition mask_is :: "u64 \<Rightarrow> (nat \<Rightarrow> bool) \<Rightarrow> bool" where
  "mask_is w P \<longleftrightarrow> (\<forall>r<64. bit w r = P r)"

text \<open>Row \<open>r\<close> of the planes agrees with \<open>v\<close> on the bits from \<open>k\<close> to \<open>nb\<close>.\<close>

definition agrees :: "nat \<Rightarrow> u64 \<Rightarrow> (nat \<Rightarrow> u64) \<Rightarrow> nat \<Rightarrow> nat \<Rightarrow> bool" where
  "agrees nb v pl k r \<longleftrightarrow> (\<forall>j\<in>{k..<nb}. bit (pl j) r = bit v j)"

definition covers :: "nat \<Rightarrow> u64 \<Rightarrow> (nat \<Rightarrow> u64) \<Rightarrow> nat \<Rightarrow> nat \<Rightarrow> bool" where
  "covers nb v pl k r \<longleftrightarrow> (\<forall>j\<in>{k..<nb}. bit v j \<longrightarrow> bit (pl j) r)"

text \<open>\<open>decided b\<close>: on the highest bit where row and value differ, the row has \<open>b\<close>.\<close>

definition decided :: "bool \<Rightarrow> nat \<Rightarrow> u64 \<Rightarrow> (nat \<Rightarrow> u64) \<Rightarrow> nat \<Rightarrow> nat \<Rightarrow> bool" where
  "decided b nb v pl k r \<longleftrightarrow>
     (\<exists>j\<in>{k..<nb}. bit (pl j) r = b \<and> bit v j = (\<not> b) \<and> agrees nb v pl (Suc j) r)"

lemma range_step: "k < nb \<Longrightarrow> {k..<nb} = insert k {Suc k..<nb}"
  by auto

lemma bits_step:
  assumes "k < nb"
  shows "agrees nb v pl k r \<longleftrightarrow> agrees nb v pl (Suc k) r \<and> bit (pl k) r = bit v k"
    "covers nb v pl k r \<longleftrightarrow> (bit v k \<longrightarrow> bit (pl k) r) \<and> covers nb v pl (Suc k) r"
    "decided b nb v pl k r \<longleftrightarrow>
       decided b nb v pl (Suc k) r \<or> agrees nb v pl (Suc k) r \<and> bit (pl k) r = b \<and> bit v k = (\<not> b)"
  by (auto simp: agrees_def covers_def decided_def range_step[OF assms])

lemma bits_top [simp]: "agrees nb v pl nb r" "covers nb v pl nb r" "\<not> decided b nb v pl nb r"
  by (simp_all add: agrees_def covers_def decided_def)

interpretation eq_bits: bit_emitter emit_eq "\<lambda>eq. [eq]"
  "\<lambda>eq nb v pl k s. mask_is (regs s eq) (agrees nb v pl k)"
  by unfold_locales
    (auto simp: emit_eq_def imm_bit_eq mask_is_def bits_step bit_simps only_regs_def)

interpretation kim_bits: bit_emitter emit_kim "\<lambda>eq. [eq]"
  "\<lambda>eq nb v pl k s. mask_is (regs s eq) (covers nb v pl k)"
  by unfold_locales
    (auto simp: emit_kim_def imm_bit_eq mask_is_def bits_step bit_simps only_regs_def)

interpretation gt_bits: bit_emitter emit_gt "\<lambda>(gt, eq, tmp_and). [gt, eq, tmp_and]"
  "\<lambda>(gt, eq, tmp_and) nb v pl k s. mask_is (regs s eq) (agrees nb v pl k) \<and> mask_is (regs s gt) (decided True nb v pl k)"
proof (unfold_locales, goal_cases)
  case (1 tmp r k nb v pl s e)
  then show ?case
    by (cases r; cases "bit v k")
      (simp_all add: emit_gt_def imm_bit_eq mask_is_def bits_step bit_simps only_regs_def)
next
  case (2 R s s' r nb v pl k)
  then show ?case by (cases r) (simp add: only_regs_def)
qed

interpretation lt_bits: bit_emitter emit_lt "\<lambda>(lt, eq, tmp_and). [lt, eq, tmp_and]"
  "\<lambda>(lt, eq, tmp_and) nb v pl k s. mask_is (regs s eq) (agrees nb v pl k) \<and> mask_is (regs s lt) (decided False nb v pl k)"
proof (unfold_locales, goal_cases)
  case (1 tmp r k nb v pl s e)
  then show ?case
    by (cases r; cases "bit v k")
      (simp_all add: emit_lt_def imm_bit_eq mask_is_def bits_step bit_simps only_regs_def)
next
  case (2 R s s' r nb v pl k)
  then show ?case by (cases r) (simp add: only_regs_def)
qed

lemma low_bits_less_iff:
  assumes "n \<le> 64"
  shows "low_bits n v < low_bits n x \<longleftrightarrow>
    (\<exists>j<n. bit x j \<and> \<not> bit v j \<and> (\<forall>i. j < i \<and> i < n \<longrightarrow> bit x i = bit v i))"
  using assms
proof (induction n)
  case 0
  then show ?case by (simp add: low_bits_def)
next
  case (Suc n)
  have val: "unat (low_bits (Suc n) w) = unat (low_bits n w) + (if bit w n then 2 ^ n else 0)" for w :: u64
    using Suc.prems by (simp add: low_bits_def unsigned_take_bit_eq take_bit_Suc_from_most bit_unsigned_iff)
  have bound: "unat (low_bits n w) < 2 ^ n" for w :: u64
    using Suc.prems by (simp add: low_bits_def unsigned_take_bit_eq)
  have IH: "unat (low_bits n v) < unat (low_bits n x) \<longleftrightarrow>
      (\<exists>j<n. bit x j \<and> \<not> bit v j \<and> (\<forall>i. j < i \<and> i < n \<longrightarrow> bit x i = bit v i))"
    using Suc by (simp add: word_less_nat_alt)
  have ex: "(\<exists>j<Suc n. P j) \<longleftrightarrow> P n \<or> (\<exists>j<n. P j)" for P by (auto simp: less_Suc_eq)
  have all: "(\<forall>i. j < i \<and> i < Suc n \<longrightarrow> Q i) \<longleftrightarrow> (\<forall>i. j < i \<and> i < n \<longrightarrow> Q i) \<and> (j < n \<longrightarrow> Q n)" for j and Q :: "nat \<Rightarrow> bool"
    by (auto simp: less_Suc_eq)
  show ?case
    unfolding word_less_nat_alt val ex all
    using IH bound[of v] bound[of x] by (cases "bit x n"; cases "bit v n") auto
qed

lemma mask_is_row_mask: "mask_is w P \<Longrightarrow> (\<And>r. r < 64 \<Longrightarrow> P r = Q r) \<Longrightarrow> w = row_mask Q"
  by (rule bit_word_eqI) (simp add: mask_is_def)

lemma below_width: "n \<le> 64 \<Longrightarrow> (\<forall>j<n. P j) \<longleftrightarrow> (\<forall>j<(64::nat). j < n \<longrightarrow> P j)"
  by auto

lemma low_bits_eq_iff: "n \<le> 64 \<Longrightarrow> low_bits n x = low_bits n v \<longleftrightarrow> (\<forall>j<n. bit x j = bit v j)"
  unfolding below_width by (auto simp: low_bits_def bit_eq_iff bit_take_bit_iff)

lemma low_bits_cover_iff:
  "n \<le> 64 \<Longrightarrow> x AND low_bits n v = low_bits n v \<longleftrightarrow> (\<forall>j<n. bit v j \<longrightarrow> bit x j)"
  unfolding below_width by (auto simp: low_bits_def bit_eq_iff bit_simps)

lemma bits_scalar:
  assumes "wf_tile t" "r < 64" "n \<le> 64"
  shows "agrees n v ((!) (planes t)) 0 r \<longleftrightarrow> low_bits n (tile_scalar t r) = low_bits n v"
    "covers n v ((!) (planes t)) 0 r \<longleftrightarrow> tile_scalar t r AND low_bits n v = low_bits n v"
    "decided True n v ((!) (planes t)) 0 r \<longleftrightarrow> low_bits n v < low_bits n (tile_scalar t r)"
    "decided False n v ((!) (planes t)) 0 r \<longleftrightarrow> low_bits n (tile_scalar t r) < low_bits n v"
proof -
  have b: "bit (planes t ! j) r = bit (tile_scalar t r) j" if "j < n" for j
    using assms that by (simp add: bit_tile_scalar wf_tile_def)
  show "agrees n v ((!) (planes t)) 0 r \<longleftrightarrow> low_bits n (tile_scalar t r) = low_bits n v"
    using b assms(3) by (auto simp: agrees_def low_bits_eq_iff)
  show "covers n v ((!) (planes t)) 0 r \<longleftrightarrow> tile_scalar t r AND low_bits n v = low_bits n v"
    using b assms(3) by (auto simp: covers_def low_bits_cover_iff)
  have a: "agrees n v ((!) (planes t)) (Suc j) r \<longleftrightarrow> (\<forall>i. j < i \<and> i < n \<longrightarrow> bit (tile_scalar t r) i = bit v i)" for j
    using b by (auto simp: agrees_def Suc_le_eq)
  have d: "decided c n v ((!) (planes t)) 0 r \<longleftrightarrow> (\<exists>j<n. bit (tile_scalar t r) j = c \<and> bit v j = (\<not> c) \<and>
      (\<forall>i. j < i \<and> i < n \<longrightarrow> bit (tile_scalar t r) i = bit v i))" for c
    unfolding decided_def a using b by auto
  show "decided True n v ((!) (planes t)) 0 r \<longleftrightarrow> low_bits n v < low_bits n (tile_scalar t r)"
    unfolding d low_bits_less_iff[OF assms(3)] by simp
  have "decided False n v ((!) (planes t)) 0 r \<longleftrightarrow> (\<exists>j<n. bit v j \<and> \<not> bit (tile_scalar t r) j \<and>
      (\<forall>i. j < i \<and> i < n \<longrightarrow> bit v i = bit (tile_scalar t r) i))"
    unfolding d by (simp add: eq_commute conj_commute conj_left_commute)
  then show "decided False n v ((!) (planes t)) 0 r \<longleftrightarrow> low_bits n (tile_scalar t r) < low_bits n v"
    unfolding low_bits_less_iff[OF assms(3)] .
qed

subsection \<open>The register allocator\<close>

definition wf_alloc :: "alloc \<Rightarrow> bool" where
  "wf_alloc al \<longleftrightarrow> next_gp al \<le> length gp_pool \<and> distinct (map fst (reg_map al)) \<and>
     map snd (reg_map al) = rev (take (next_gp al) gp_pool)"

lemma gp_pool_facts: "distinct gp_pool" "length gp_pool = 14" "g \<in> set gp_pool \<Longrightarrow> g \<notin> {0, 1, 8, 19, 20, 21, 29, 30}"
  by (auto simp: gp_pool_def)

lemma wf_alloc_empty [simp]: "wf_alloc \<lparr>reg_map = [], next_gp = 0\<rparr>"
  by (simp add: wf_alloc_def)

lemma alloc_in_pool:
  assumes "wf_alloc al" "map_of (reg_map al) v = Some g"
  shows "g \<in> set (take (next_gp al) gp_pool)"
proof -
  have "g \<in> set (map snd (reg_map al))" using assms(2) by (force dest: map_of_SomeD)
  also have "\<dots> = set (take (next_gp al) gp_pool)" using assms(1) by (simp add: wf_alloc_def)
  finally show ?thesis .
qed

lemma alloc_inj:
  assumes "wf_alloc al" "map_of (reg_map al) v = Some g" "map_of (reg_map al) u = Some g"
  shows "v = u"
proof -
  have "distinct (map snd (reg_map al))"
    using assms(1) gp_pool_facts(1) by (simp add: wf_alloc_def)
  moreover have "(v, g) \<in> set (reg_map al)" "(u, g) \<in> set (reg_map al)" using assms by (auto dest: map_of_SomeD)
  ultimately show ?thesis by (fastforce simp: distinct_map inj_on_def)
qed

lemma in_fst_image: "(a, b) \<in> S \<Longrightarrow> a \<in> fst ` S"
  by force

lemma get_reg_spec:
  assumes "get_reg v al = Inr (g, al')" "wf_alloc al"
  shows "wf_alloc al'" "map_of (reg_map al') v = Some g" "map_of (reg_map al) \<subseteq>\<^sub>m map_of (reg_map al')"
    "g \<in> set gp_pool"
proof -
  show w: "wf_alloc al'" and m: "map_of (reg_map al') v = Some g" and "map_of (reg_map al) \<subseteq>\<^sub>m map_of (reg_map al')"
    using assms
    by (auto simp: get_reg_def wf_alloc_def Let_def map_le_def take_Suc_conv_app_nth map_of_eq_None_iff
        split: option.splits if_splits dest: in_fst_image)
  show "g \<in> set gp_pool" using alloc_in_pool[OF w m] by (rule in_set_takeD)
qed

lemma get_reg_same: "map_of (reg_map al) v = Some g \<Longrightarrow> get_reg v al = Inr (g, al)"
  by (simp add: get_reg_def)

lemma get_scratch_spec:
  assumes "get_scratch_reg al exclude = Inr r"
  shows "r \<in> set gp_pool" "r \<notin> set exclude" "map_of (reg_map al) v \<noteq> Some r"
proof -
  have r: "r \<in> set gp_pool \<and> r \<notin> snd ` set (reg_map al) \<and> r \<notin> set exclude"
    using assms by (auto simp: get_scratch_reg_def find_Some_iff split: option.splits)
  then show "r \<in> set gp_pool" "r \<notin> set exclude" by auto
  show "map_of (reg_map al) v \<noteq> Some r" using r by (force dest: map_of_SomeD)
qed

lemma four_scratch_spec:
  assumes "four_scratch al eq tile = Inr (t0, t1, t2, t3)"
  shows "distinct [t0, t1, t2, t3]" "{t0, t1, t2, t3} \<inter> {eq, tile} = {}" "{t0, t1, t2, t3} \<subseteq> set gp_pool"
    "t \<in> {t0, t1, t2, t3} \<Longrightarrow> map_of (reg_map al) v \<noteq> Some t"
proof -
  have f: "get_scratch_reg al [eq, tile] = Inr t0" "get_scratch_reg al [eq, tile, t0] = Inr t1"
      "get_scratch_reg al [eq, tile, t0, t1] = Inr t2" "get_scratch_reg al [eq, tile, t0, t1, t2] = Inr t3"
    using assms by (auto simp: four_scratch_def ebind_eq_Inr)
  note specs = f[THEN get_scratch_spec(1)] f[THEN get_scratch_spec(2)] f[THEN get_scratch_spec(3)]
  show "distinct [t0, t1, t2, t3]" "{t0, t1, t2, t3} \<inter> {eq, tile} = {}" "{t0, t1, t2, t3} \<subseteq> set gp_pool"
    "t \<in> {t0, t1, t2, t3} \<Longrightarrow> map_of (reg_map al) v \<noteq> Some t"
    using specs by auto
qed

subsection \<open>One operation\<close>

fun encode :: "u64 \<Rightarrow> vval \<Rightarrow> u64" where
  "encode base (Tile c) = base + word_of_nat c * sizeof_tile"
| "encode base (Mask m) = m"

definition tiles_at :: "(u64 \<Rightarrow> u64) \<Rightarrow> u64 \<Rightarrow> cbst_tile list \<Rightarrow> bool" where
  "tiles_at m base tiles \<longleftrightarrow> (\<forall>c<length tiles. \<forall>j<64.
     m (base + word_of_nat c * sizeof_tile + word_of_nat (j * 8)) = planes (tiles ! c) ! j)"

definition tiles_apart :: "u64 \<Rightarrow> u64 \<Rightarrow> cbst_tile list \<Rightarrow> bool" where
  "tiles_apart base dest tiles \<longleftrightarrow> (\<forall>c<length tiles. \<forall>j<64.
     \<not> in_words dest (base + word_of_nat c * sizeof_tile + word_of_nat (j * 8)))"

text \<open>
  The machine state that stands for virtual registers and buffer: every value is in the register
  the allocator gave it, x19 and x21 hold the parameters, and memory holds tiles and buffer.
\<close>

definition related :: "u64 \<Rightarrow> u64 \<Rightarrow> cbst_tile list \<Rightarrow> alloc \<Rightarrow> vregs \<times> u64 list \<Rightarrow> a64_state \<Rightarrow> bool" where
  "related base dest tiles al st s \<longleftrightarrow> wf_alloc al \<and>
     (\<forall>v x. fst st v = Some x \<longrightarrow> (\<exists>g. map_of (reg_map al) v = Some g \<and> regs s g = encode base x)) \<and>
     regs s 19 = base \<and> regs s 21 = dest \<and> tiles_at (mem s) base tiles \<and> read_words (mem s) dest = snd st"

lemma related_alloc:
  "related base dest tiles al st s \<Longrightarrow> get_reg v al = Inr (g, al') \<Longrightarrow> related base dest tiles al' st s"
  using get_reg_spec[of v al g al'] unfolding related_def map_le_def by (metis domIff option.distinct(1))

lemma related_reg:
  assumes "related base dest tiles al st s" "fst st v = Some x" "get_reg v al = Inr (g, al')"
  shows "al' = al" "regs s g = encode base x"
  using assms get_reg_same[of al v] unfolding related_def by fastforce+

lemma related_set:
  assumes r: "related base dest tiles al (rf, buf) s" and v: "map_of (reg_map al) v = Some g"
    and o: "only_regs (insert g T) s s'" and T: "T \<subseteq> insert 8 (set gp_pool)" "\<And>t u. t \<in> T \<Longrightarrow> map_of (reg_map al) u \<noteq> Some t"
    and x: "regs s' g = encode base x"
  shows "related base dest tiles al (rf(v \<mapsto> x), buf) s'"
proof -
  have w: "wf_alloc al" using r by (simp add: related_def)
  have g: "g \<in> set gp_pool" using alloc_in_pool[OF w v] by (rule in_set_takeD)
  have keep: "regs s' 19 = regs s 19" "regs s' 21 = regs s 21"
  proof -
    have "19 \<notin> insert g T" "21 \<notin> insert g T" using g T(1) by (auto simp: gp_pool_def)
    then show "regs s' 19 = regs s 19" "regs s' 21 = regs s 21" using o by (simp_all add: only_regs_def)
  qed
  have "\<exists>h. map_of (reg_map al) u = Some h \<and> regs s' h = encode base y" if "(rf(v \<mapsto> x)) u = Some y" for u y
  proof (cases "u = v")
    case True
    then show ?thesis using that v x by simp
  next
    case False
    then have "fst (rf, buf) u = Some y" using that by simp
    then obtain h where h: "map_of (reg_map al) u = Some h" "regs s h = encode base y"
      using r unfolding related_def by blast
    have "h \<noteq> g" using alloc_inj[OF w, of u h v] h v False by auto
    then have "regs s' h = regs s h" using o T(2) h(1) unfolding only_regs_def by auto
    then show ?thesis using h by simp
  qed
  then show ?thesis using r o keep by (auto simp: related_def only_regs_def)
qed

lemma mov_imm64_correct:
  "run_code e (emit_mov_imm64 d v) s = Some (set_reg d v s)"
proof -
  have "((((v AND 0xFFFF) AND NOT (push_bit 16 0xFFFF) OR push_bit 16 (drop_bit 16 v AND 0xFFFF))
      AND NOT (push_bit 32 0xFFFF) OR push_bit 32 (drop_bit 32 v AND 0xFFFF))
      AND NOT (push_bit 48 0xFFFF) OR push_bit 48 (drop_bit 48 v AND 0xFFFF)) = (v :: u64)"
  proof (rule bit_word_eqI)
    fix n assume "n < LENGTH(64)"
    moreover have "(0xFFFF :: u64) = mask 16" by (simp add: mask_eq_exp_minus_1)
    ultimately show "bit ((((v AND 0xFFFF) AND NOT (push_bit 16 0xFFFF) OR push_bit 16 (drop_bit 16 v AND 0xFFFF))
      AND NOT (push_bit 32 0xFFFF) OR push_bit 32 (drop_bit 32 v AND 0xFFFF))
      AND NOT (push_bit 48 0xFFFF) OR push_bit 48 (drop_bit 48 v AND 0xFFFF)) n = bit v n"
      using le_add_diff_inverse[of 16 n] le_add_diff_inverse[of 32 n] le_add_diff_inverse[of 48 n]
      by (cases "n < 16"; cases "n < 32"; cases "n < 48"; simp only: bit_simps; force)
  qed
  then show ?thesis by (simp add: emit_mov_imm64_def set_reg_def)
qed

lemma compile_load_tile_correct:
  assumes "compile_load_tile m al = Inr (code, al')" "related base dest tiles al (rf, buf) s"
  shows "\<exists>s'. run_code e code s = Some s' \<and> related base dest tiles al' (rf(dest_reg m \<mapsto> Tile (unat (imm m))), buf) s' \<and>
    stack s' = stack s \<and> sp s' = sp s"
proof -
  obtain g where g: "get_reg (dest_reg m) al = Inr (g, al')"
      and code: "code = (if imm m * sizeof_tile = 0 then [MOV g 19] else emit_mov_imm64 8 (imm m * sizeof_tile) @ [ADD g 19 8])"
    using assms(1) by (auto simp: compile_load_tile_def ebind_eq_Inr Let_def)
  have r: "related base dest tiles al' (rf, buf) s" by (rule related_alloc[OF assms(2) g])
  have w: "wf_alloc al" using assms(2) by (simp add: related_def)
  note spec = get_reg_spec[OF g w]
  have g8: "g \<noteq> 8" "g \<noteq> 19" using gp_pool_facts(3)[OF spec(4)] by auto
  let ?s = "if imm m * sizeof_tile = 0 then set_reg g (regs s 19) s
            else set_reg g (regs s 19 + imm m * sizeof_tile) (set_reg 8 (imm m * sizeof_tile) s)"
  have run: "run_code e code s = Some ?s"
    by (simp add: code run_code_append mov_imm64_correct)
  have un: "map_of (reg_map al') u \<noteq> Some 8" for u
    using alloc_in_pool[OF spec(1), of u 8] gp_pool_facts(3)[of 8] by (auto dest: in_set_takeD)
  have "related base dest tiles al' (rf(dest_reg m \<mapsto> Tile (unat (imm m))), buf) ?s"
    by (rule related_set[OF r spec(2), where T = "{8}"])
      (use r un g8 in \<open>auto simp: only_regs_def related_def\<close>)
  then show ?thesis using run by (intro exI[of _ ?s]) simp
qed

lemma compile_bitwise_correct:
  assumes "compile_bitwise inst m al = Inr (code, al')" "related base dest tiles al (rf, buf) s"
    and "rf (src_reg1 m) = Some (Mask a)" "rf (src_reg2 m) = Some (Mask b)"
    and sem: "\<And>d x y s. step e (inst d x y) s = Some (set_reg d (f (regs s x) (regs s y)) s)"
  shows "\<exists>s'. run_code e code s = Some s' \<and> related base dest tiles al' (rf(dest_reg m \<mapsto> Mask (f a b)), buf) s' \<and>
    stack s' = stack s \<and> sp s' = sp s"
proof -
  obtain d x y al1 al2 where g: "get_reg (dest_reg m) al = Inr (d, al1)" "get_reg (src_reg1 m) al1 = Inr (x, al2)"
      "get_reg (src_reg2 m) al2 = Inr (y, al')" and code: "code = [inst d x y]"
    using assms(1) by (auto simp: compile_bitwise_def ebind_eq_Inr)
  have r: "related base dest tiles al1 (rf, buf) s" by (rule related_alloc[OF assms(2) g(1)])
  have x: "al2 = al1" "regs s x = a" using related_reg[OF r _ g(2)] assms(3) by auto
  have y: "al' = al1" "regs s y = b" using related_reg[OF r _ g(3)[unfolded x(1)]] assms(4) by auto
  have w: "wf_alloc al" using assms(2) by (simp add: related_def)
  note spec = get_reg_spec[OF g(1) w]
  have "related base dest tiles al1 (rf(dest_reg m \<mapsto> Mask (f a b)), buf) (set_reg d (f (regs s x) (regs s y)) s)"
    by (rule related_set[OF r spec(2), where T = "{}"]) (simp_all add: only_regs_set x y)
  then show ?thesis by (simp add: code sem y(1))
qed

text \<open>Addresses and allocation of a comparison.\<close>

lemma compare_setup:
  assumes "get_reg (dest_reg m) al = Inr (d, al1)" "get_reg (src_reg1 m) al1 = Inr (t, al2)"
    and r: "related base dest tiles al (rf, buf) s" and c: "rf (src_reg1 m) = Some (Tile c)" "c < length tiles"
    and ne: "dest_reg m \<noteq> src_reg1 m"
  shows "al2 = al1" "wf_alloc al1" "map_of (reg_map al1) (dest_reg m) = Some d" "related base dest tiles al1 (rf, buf) s"
    "d \<noteq> t" "d \<in> set gp_pool" "t \<in> set gp_pool" "regs s t = base + word_of_nat c * sizeof_tile"
    "j < 64 \<Longrightarrow> mem s (regs s t + word_of_nat (j * 8)) = planes (tiles ! c) ! j"
proof -
  have w: "wf_alloc al" using r by (simp add: related_def)
  note spec = get_reg_spec[OF assms(1) w]
  show r1: "related base dest tiles al1 (rf, buf) s" by (rule related_alloc[OF r assms(1)])
  show al2: "al2 = al1" and rt: "regs s t = base + word_of_nat c * sizeof_tile"
    using related_reg[OF r1 _ assms(2)] c by auto
  show "wf_alloc al1" "map_of (reg_map al1) (dest_reg m) = Some d" "d \<in> set gp_pool" using spec by auto
  note spec2 = get_reg_spec[OF assms(2) spec(1)]
  show "t \<in> set gp_pool" by (rule spec2(4))
  show "d \<noteq> t" using alloc_inj[OF spec(1) spec(2), of "src_reg1 m"] spec2(2) ne by (auto simp: al2)
  show "j < 64 \<Longrightarrow> mem s (regs s t + word_of_nat (j * 8)) = planes (tiles ! c) ! j"
    using r c(2) by (simp add: related_def tiles_at_def rt)
qed

lemma emit_singles_cong:
  "(\<And>k. k < n \<Longrightarrow> f k = g k) \<Longrightarrow> emit_singles f tile t0 n = emit_singles g tile t0 n"
  by (induction n) simp_all

lemma emit_quads_cong:
  "(\<And>k. k < n \<Longrightarrow> f k = g k) \<Longrightarrow> emit_quads f tile ts n = emit_quads g tile ts n"
proof (induction n rule: less_induct)
  case (less n)
  obtain t0 t1 t2 t3 where ts: "ts = (t0, t1, t2, t3)" by (cases ts)
  show ?case
  proof (cases "4 \<le> n")
    case True
    then have "emit_quads f tile ts (n - 4) = emit_quads g tile ts (n - 4)" using less by simp
    then show ?thesis using True less.prems by (simp add: ts emit_quads.simps[of _ _ _ _ _ _ n])
  next
    case False
    then show ?thesis using emit_singles_cong[of n f g tile t0] less.prems
      by (simp add: ts emit_quads.simps[of _ _ _ _ _ _ n])
  qed
qed

lemma compile_quads_correct:
  assumes comp: "compile_quads emit c nb m al = Inr (code, al')" and r: "related base dest tiles al (rf, buf) s"
    and src: "rf (src_reg1 m) = Some (Tile t)" "t < length tiles" "dest_reg m \<noteq> src_reg1 m" "wf_tile (tiles ! t)"
    and em: "bit_emitter emit (\<lambda>eq. [eq]) (\<lambda>eq nb v pl k s. mask_is (regs s eq) (P nb v pl k))"
    and nb: "nb \<le> 64" "\<And>k. k < nb \<Longrightarrow> c k = imm_bit v k" and top: "\<And>r. P nb v ((!) (planes (tiles ! t))) nb r"
    and final: "\<And>r. r < 64 \<Longrightarrow> P nb v ((!) (planes (tiles ! t))) 0 r = Q (tile_scalar (tiles ! t) r)"
  shows "\<exists>s'. run_code e code s = Some s' \<and>
    related base dest tiles al' (rf(dest_reg m \<mapsto> Mask (row_mask (\<lambda>r. Q (tile_scalar (tiles ! t) r)))), buf) s' \<and>
    stack s' = stack s \<and> sp s' = sp s"
proof -
  obtain d ta al1 al2 t0 t1 t2 t3 where g: "get_reg (dest_reg m) al = Inr (d, al1)" "get_reg (src_reg1 m) al1 = Inr (ta, al2)"
      and sc: "four_scratch al2 d ta = Inr (t0, t1, t2, t3)" and al': "al' = al2"
      and code: "code = MOV_IMM d (- 1) # emit_quads (\<lambda>k. emit d (c k)) ta (t0, t1, t2, t3) nb"
    using comp by (auto simp: compile_quads_def ebind_eq_Inr)
  note st = compare_setup[OF g r src(1,2,3)]
  note sp = four_scratch_spec[OF sc]
  let ?s = "set_reg d (- 1) s" and ?pl = "(!) (planes (tiles ! t))"
  have dist: "distinct ([t0, t1, t2, t3] @ ta # [d])" using sp(1,2) st(5) by auto
  have h0: "mask_is (regs ?s d) (P nb v ?pl nb)" using top by (simp add: mask_is_def)
  have m0: "mem ?s (regs ?s ta + word_of_nat (j * 8)) = ?pl j" if "j < nb" for j
    using st(5) st(9)[of j] that nb(1) by simp
  obtain s1 where s1: "run_code e (emit_quads (\<lambda>k. emit d (imm_bit v k)) ta (t0, t1, t2, t3) nb) ?s = Some s1"
      "mask_is (regs s1 d) (P nb v ?pl 0)" "only_regs ({t0, t1, t2, t3} \<union> set [d]) ?s s1"
    using bit_emitter.run_quads[OF em dist nb(1) order_refl h0 m0] by auto
  have o: "only_regs (insert d {t0, t1, t2, t3}) s s1"
    by (rule only_regs_trans[OF only_regs_set only_regs_mono[OF s1(3)]]) auto
  have "regs s1 d = row_mask (\<lambda>r. Q (tile_scalar (tiles ! t) r))"
    by (rule mask_is_row_mask[OF s1(2)]) (rule final)
  then have "related base dest tiles al1 (rf(dest_reg m \<mapsto> Mask (row_mask (\<lambda>r. Q (tile_scalar (tiles ! t) r)))), buf) s1"
    using sp(3,4) by (intro related_set[OF st(4) st(3) o]) (auto simp: st(1))
  moreover have "emit_quads (\<lambda>k. emit d (c k)) ta (t0, t1, t2, t3) nb = emit_quads (\<lambda>k. emit d (imm_bit v k)) ta (t0, t1, t2, t3) nb"
    by (rule emit_quads_cong) (simp add: nb(2))
  then have "run_code e code s = Some s1" using s1(1) by (simp add: code)
  ultimately show ?thesis using o by (intro exI[of _ s1]) (simp add: al' st(1) only_regs_def)
qed

lemma compile_pairs_correct:
  assumes comp: "compile_pairs emit m al = Inr (code, al')" and r: "related base dest tiles al (rf, buf) s"
    and src: "rf (src_reg1 m) = Some (Tile t)" "t < length tiles" "dest_reg m \<noteq> src_reg1 m" "wf_tile (tiles ! t)"
    and em: "bit_emitter emit (\<lambda>(res, eq, tmp_and). [res, eq, tmp_and]) (\<lambda>(res, eq, tmp_and) nb v pl k s.
       mask_is (regs s eq) (agrees nb v pl k) \<and> mask_is (regs s res) (decided b nb v pl k))"
    and final: "\<And>r. r < 64 \<Longrightarrow> decided b (compare_bits 64 (src_reg2 m)) (imm m) ((!) (planes (tiles ! t))) 0 r =
       Q (tile_scalar (tiles ! t) r)"
  shows "\<exists>s'. run_code e code s = Some s' \<and>
    related base dest tiles al' (rf(dest_reg m \<mapsto> Mask (row_mask (\<lambda>r. Q (tile_scalar (tiles ! t) r)))), buf) s' \<and>
    stack s' = stack s \<and> sp s' = sp s"
proof -
  let ?nb = "compare_bits 64 (src_reg2 m)" and ?v = "imm m" and ?pl = "(!) (planes (tiles ! t))"
  obtain d ta al1 al2 eq tmp t0 t1 where g: "get_reg (dest_reg m) al = Inr (d, al1)" "get_reg (src_reg1 m) al1 = Inr (ta, al2)"
      and sc: "four_scratch al2 d ta = Inr (eq, tmp, t0, t1)" and al': "al' = al2"
      and code: "code = MOV_IMM d 0 # MOV_IMM eq (- 1) # emit_pairs (\<lambda>k. emit (d, eq, tmp) (imm_bit ?v k)) ta (t0, t1) ?nb"
    using comp by (auto simp: compile_pairs_def ebind_eq_Inr)
  note st = compare_setup[OF g r src(1,2,3)]
  note sp = four_scratch_spec[OF sc]
  let ?s = "set_reg eq (- 1) (set_reg d 0 s)" and ?r = "(d, eq, tmp)"
  have nb: "?nb \<le> 64" using compare_bits_le(1)[of 64 "src_reg2 m"] by simp
  have dist: "distinct ([t0, t1] @ ta # [d, eq, tmp])" using sp(1,2) st(5) by auto
  have h0: "mask_is (regs ?s eq) (agrees ?nb ?v ?pl ?nb) \<and> mask_is (regs ?s d) (decided b ?nb ?v ?pl ?nb)"
    using sp(2) by (auto simp: mask_is_def)
  have m0: "mem ?s (regs ?s ta + word_of_nat (j * 8)) = ?pl j" if "j < ?nb" for j
    using st(5) st(9)[of j] that nb sp(2) by simp
  obtain s1 where s1: "run_code e (emit_pairs (\<lambda>k. emit ?r (imm_bit ?v k)) ta (t0, t1) ?nb) ?s = Some s1"
      "mask_is (regs s1 d) (decided b ?nb ?v ?pl 0)"
      "only_regs ({t0, t1} \<union> set [d, eq, tmp]) ?s s1"
    using bit_emitter.run_pairs[OF em, where r = ?r and ?t0.0 = t0 and ?t1.0 = t1 and tile = ta and nb = ?nb and v = ?v
        and pl = ?pl and n = ?nb and s = ?s and e = e] dist h0 m0 nb
    unfolding prod.case by blast
  have o: "only_regs (insert d {eq, tmp, t0, t1}) s s1"
    by (rule only_regs_trans[OF only_regs_trans[OF only_regs_set only_regs_set] only_regs_mono[OF s1(3)]]) auto
  have "regs s1 d = row_mask (\<lambda>r. Q (tile_scalar (tiles ! t) r))"
    by (rule mask_is_row_mask[OF s1(2)]) (rule final)
  then have "related base dest tiles al1 (rf(dest_reg m \<mapsto> Mask (row_mask (\<lambda>r. Q (tile_scalar (tiles ! t) r)))), buf) s1"
    using sp(3,4) by (intro related_set[OF st(4) st(3) o]) (auto simp: st(1))
  moreover have "run_code e code s = Some s1" using s1(1) by (simp add: code)
  ultimately show ?thesis using o by (intro exI[of _ s1]) (simp add: al' st(1) only_regs_def)
qed

lemma run_materialize:
  assumes "helper_addr e = helper" "ta \<in> set gp_pool"
  shows "\<exists>s'. run_code e ([STP_PRE 9 10, STP_PRE 11 12, STP_PRE 13 14, STR_PRE 15, MOV 0 ta, MOV 1 21] @
        emit_mov_imm64 8 helper @ [BLR 8, LDR_POST 15, LDP_POST 13 14, LDP_POST 11 12, LDP_POST 9 10]) s = Some s' \<and>
     (\<forall>g\<in>set (19 # 21 # gp_pool). regs s' g = regs s g) \<and> stack s' = stack s \<and> sp s' = sp s \<and>
     mem s' = write_words (mem s) (regs s 21) (greengate_butterfly_transpose (read_words (mem s) (regs s ta)))"
proof -
  have "ta \<noteq> 0" "ta \<noteq> 1" using gp_pool_facts(3)[OF assms(2)] by auto
  then show ?thesis
    by (simp add: assms(1) run_code_append mov_imm64_correct caller_saved_def gp_pool_def)
qed

lemma compile_materialize_correct:
  assumes comp: "compile_materialize helper m al = Inr (code, al')" and r: "related base dest tiles al (rf, buf) s"
    and src: "rf (src_reg1 m) = Some (Tile t)" "t < length tiles" "wf_tile (tiles ! t)"
    and env: "helper_addr e = helper" and apart: "tiles_apart base dest tiles"
  shows "\<exists>s'. run_code e code s = Some s' \<and> related base dest tiles al' (rf, map (tile_scalar (tiles ! t)) [0..<64]) s' \<and>
    stack s' = stack s \<and> sp s' = sp s"
proof -
  obtain ta where g: "get_reg (src_reg1 m) al = Inr (ta, al')"
      and code: "code = [STP_PRE 9 10, STP_PRE 11 12, STP_PRE 13 14, STR_PRE 15, MOV 0 ta, MOV 1 21] @
        emit_mov_imm64 8 helper @ [BLR 8, LDR_POST 15, LDP_POST 13 14, LDP_POST 11 12, LDP_POST 9 10]"
    using comp by (auto simp: compile_materialize_def ebind_eq_Inr)
  have w: "wf_alloc al" using r by (simp add: related_def)
  have ta: "al' = al" "regs s ta = base + word_of_nat t * sizeof_tile"
    using related_reg[OF r _ g] src(1) by auto
  let ?a = "base + word_of_nat t * sizeof_tile" and ?ws = "greengate_butterfly_transpose (planes (tiles ! t))"
  have pl: "length (planes (tiles ! t)) = 64" using src(3) by (simp add: wf_tile_def)
  have "read_words (mem s) ?a = planes (tiles ! t)"
  proof (rule nth_equalityI)
    fix j assume "j < length (read_words (mem s) ?a)"
    then show "read_words (mem s) ?a ! j = planes (tiles ! t) ! j"
      using r src(2) by (simp add: read_words_def related_def tiles_at_def mult.commute)
  qed (simp add: pl)
  then obtain s' where s': "run_code e code s = Some s'" "\<forall>g\<in>set (19 # 21 # gp_pool). regs s' g = regs s g"
      "stack s' = stack s" "sp s' = sp s" "mem s' = write_words (mem s) dest ?ws"
    using run_materialize[OF env get_reg_spec(4)[OF g w], of s] r by (auto simp: code ta(2) related_def)
  have len: "length ?ws = 64"
    using pl by (simp add: greengate_butterfly_transpose_def transpose64_def)
  have ws: "?ws = map (tile_scalar (tiles ! t)) [0..<64]"
    by (rule nth_equalityI) (use len in \<open>auto simp: tile_scalar_def\<close>)
  have "tiles_at (mem s') base tiles"
    using r apart by (simp add: s'(5) related_def tiles_at_def tiles_apart_def write_words_other)
  moreover have "read_words (mem s') dest = ?ws" by (simp add: s'(5) read_write_words[OF len])
  moreover have "\<exists>h. map_of (reg_map al) u = Some h \<and> regs s' h = encode base y" if "rf u = Some y" for u y
  proof -
    obtain h where h: "map_of (reg_map al) u = Some h" "regs s h = encode base y"
      using r \<open>rf u = Some y\<close> unfolding related_def fst_conv by blast
    have "h \<in> set gp_pool" using alloc_in_pool[OF w h(1)] by (rule in_set_takeD)
    then show ?thesis using h s'(2) by auto
  qed
  ultimately have "related base dest tiles al' (rf, map (tile_scalar (tiles ! t)) [0..<64]) s'"
    using r s'(2) ws by (simp add: related_def ta(1))
  then show ?thesis using s' by blast
qed

lemma imm_bit_skeleton: "k < 32 \<Longrightarrow> ucast (imm_bit (ucast (v :: u64) :: u32) k) = imm_bit v k"
  by (simp add: imm_bit_eq bit_ucast_iff)

text \<open>Every operation of the program means in machine code what it means on virtual registers.\<close>

lemma compile_op_correct:
  assumes comp: "compile_op helper m al = Inr (code, al')" and r: "related base dest tiles al st s"
    and run: "run_op tiles m st = Some st'" and wf: "\<forall>t\<in>set tiles. wf_tile t"
    and env: "helper_addr e = helper" "tiles_apart base dest tiles"
  shows "\<exists>s'. run_code e code s = Some s' \<and> related base dest tiles al' st' s' \<and> stack s' = stack s \<and> sp s' = sp s"
proof -
  obtain rf buf where st: "st = (rf, buf)" by (cases st)
  note r = r[unfolded st] and run = run[unfolded st]
  have cb: "compare_bits 64 n \<le> 64" "compare_bits 32 n \<le> 32" for n
    using compare_bits_le(1)[of 64 n] compare_bits_le(1)[of 32 n] by simp_all
  show ?thesis
  proof (cases "op m")
    case LOAD_TILE
    then show ?thesis
      using comp run compile_load_tile_correct[of m al code al' base dest tiles rf buf s e] r
      by (auto simp: compile_op_def run_op_def split: if_splits)
  next
    case MATERIALIZE_SCALAR
    then show ?thesis
      using comp run compile_materialize_correct[of helper m al code al' base dest tiles rf buf s _ e] r wf env
      by (auto simp: compile_op_def run_op_def split: if_splits option.splits vval.splits)
  next
    case BIT_AND
    then show ?thesis
      using comp run compile_bitwise_correct[of AND_R m al code al' base dest tiles rf buf s _ _ e "(AND)"] r
      by (auto simp: compile_op_def run_op_def split: if_splits option.splits vval.splits)
  next
    case BIT_OR
    then show ?thesis
      using comp run compile_bitwise_correct[of ORR m al code al' base dest tiles rf buf s _ _ e "(OR)"] r
      by (auto simp: compile_op_def run_op_def split: if_splits option.splits vval.splits)
  next
    case BIT_XOR
    then show ?thesis
      using comp run compile_bitwise_correct[of EOR m al code al' base dest tiles rf buf s _ _ e "(XOR)"] r
      by (auto simp: compile_op_def run_op_def split: if_splits option.splits vval.splits)
  next
    case BIT_BIC
    then show ?thesis
      using comp run compile_bitwise_correct[of BIC m al code al' base dest tiles rf buf s _ _ e "\<lambda>a b. a AND NOT b"] r
      by (auto simp: compile_op_def run_op_def split: if_splits option.splits vval.splits)
  next
    case CMP_EQ
    then obtain t where t: "rf (src_reg1 m) = Some (Tile t)" "t < length tiles" "dest_reg m \<noteq> src_reg1 m"
        "st' = (rf(dest_reg m \<mapsto> Mask (row_mask (\<lambda>r. compare_row CMP_EQ (src_reg2 m) (imm m) (tile_scalar (tiles ! t) r)))), buf)"
      using run by (auto simp: run_op_def split: option.splits vval.splits if_splits)
    have w: "wf_tile (tiles ! t)" using wf t(2) by simp
    show ?thesis unfolding t(4)
      by (rule compile_quads_correct[OF _ r t(1,2,3) w eq_bits.bit_emitter_axioms cb(1)])
        (use CMP_EQ comp bits_scalar(1)[OF w _ cb(1)] in \<open>auto simp: compile_op_def\<close>)
  next
    case CMP_SKELETON
    then obtain t where t: "rf (src_reg1 m) = Some (Tile t)" "t < length tiles" "dest_reg m \<noteq> src_reg1 m"
        "st' = (rf(dest_reg m \<mapsto> Mask (row_mask (\<lambda>r. compare_row CMP_SKELETON (src_reg2 m) (imm m) (tile_scalar (tiles ! t) r)))), buf)"
      using run by (auto simp: run_op_def split: option.splits vval.splits if_splits)
    have w: "wf_tile (tiles ! t)" using wf t(2) by simp
    have le: "compare_bits 32 (src_reg2 m) \<le> 64" using cb(2)[of "src_reg2 m"] by simp
    show ?thesis unfolding t(4)
      by (rule compile_quads_correct[OF comp[unfolded compile_op_def CMP_SKELETON opcode.case] r t(1,2,3) w eq_bits.bit_emitter_axioms le])
        (use bits_scalar(1)[OF w _ le] cb(2)[of "src_reg2 m"] in \<open>auto simp: compile_op_def imm_bit_skeleton\<close>)
  next
    case CMP_KIM
    then obtain t where t: "rf (src_reg1 m) = Some (Tile t)" "t < length tiles" "dest_reg m \<noteq> src_reg1 m"
        "st' = (rf(dest_reg m \<mapsto> Mask (row_mask (\<lambda>r. compare_row CMP_KIM (src_reg2 m) (imm m) (tile_scalar (tiles ! t) r)))), buf)"
      using run by (auto simp: run_op_def split: option.splits vval.splits if_splits)
    have w: "wf_tile (tiles ! t)" using wf t(2) by simp
    show ?thesis unfolding t(4)
      by (rule compile_quads_correct[OF _ r t(1,2,3) w kim_bits.bit_emitter_axioms cb(1)])
        (use CMP_KIM comp bits_scalar(2)[OF w _ cb(1)] in \<open>auto simp: compile_op_def\<close>)
  next
    case CMP_GT
    then obtain t where t: "rf (src_reg1 m) = Some (Tile t)" "t < length tiles" "dest_reg m \<noteq> src_reg1 m"
        "st' = (rf(dest_reg m \<mapsto> Mask (row_mask (\<lambda>r. compare_row CMP_GT (src_reg2 m) (imm m) (tile_scalar (tiles ! t) r)))), buf)"
      using run by (auto simp: run_op_def split: option.splits vval.splits if_splits)
    have w: "wf_tile (tiles ! t)" using wf t(2) by simp
    show ?thesis unfolding t(4)
      by (rule compile_pairs_correct[OF _ r t(1,2,3) w gt_bits.bit_emitter_axioms])
        (use CMP_GT comp bits_scalar(3)[OF w _ cb(1)] in \<open>auto simp: compile_op_def\<close>)
  next
    case CMP_LT
    then obtain t where t: "rf (src_reg1 m) = Some (Tile t)" "t < length tiles" "dest_reg m \<noteq> src_reg1 m"
        "st' = (rf(dest_reg m \<mapsto> Mask (row_mask (\<lambda>r. compare_row CMP_LT (src_reg2 m) (imm m) (tile_scalar (tiles ! t) r)))), buf)"
      using run by (auto simp: run_op_def split: option.splits vval.splits if_splits)
    have w: "wf_tile (tiles ! t)" using wf t(2) by simp
    show ?thesis unfolding t(4)
      by (rule compile_pairs_correct[OF _ r t(1,2,3) w lt_bits.bit_emitter_axioms])
        (use CMP_LT comp bits_scalar(4)[OF w _ cb(1)] in \<open>auto simp: compile_op_def\<close>)
  qed
qed

subsection \<open>The whole function\<close>

lemma compile_ops_correct:
  assumes "compile_ops helper ms al = Inr (code, al')" "related base dest tiles al st s"
    and "run_ops tiles ms st = Some st'" "\<forall>t\<in>set tiles. wf_tile t" "helper_addr e = helper" "tiles_apart base dest tiles"
  shows "\<exists>s'. run_code e code s = Some s' \<and> related base dest tiles al' st' s' \<and> stack s' = stack s \<and> sp s' = sp s"
  using assms(1,2,3)
proof (induction ms arbitrary: al st s code)
  case Nil
  then show ?case by simp
next
  case (Cons m ms)
  obtain c1 al1 c2 st1 where c: "compile_op helper m al = Inr (c1, al1)" "compile_ops helper ms al1 = Inr (c2, al')"
      "code = c1 @ c2" and st1: "run_op tiles m st = Some st1" "run_ops tiles ms st1 = Some st'"
    using Cons.prems(1,3) by (auto simp: ebind_eq_Inr split: option.splits)
  obtain s1 where s1: "run_code e c1 s = Some s1" "related base dest tiles al1 st1 s1" "stack s1 = stack s" "sp s1 = sp s"
    using compile_op_correct[OF c(1) Cons.prems(2) st1(1) assms(4,5,6)] by auto
  then show ?case
    using Cons.IH[OF c(2) s1(2) st1(2)] by (auto simp: c(3) run_code_append)
qed

lemma run_prologue:
  "run_code e prologue s = Some (s\<lparr>regs := (regs s)(29 := sp s - 16, 19 := regs s 0, 20 := regs s 1, 21 := regs s 2),
     sp := sp s - 112,
     stack := [(regs s 3, None), (regs s 27, Some (regs s 28)), (regs s 25, Some (regs s 26)), (regs s 23, Some (regs s 24)),
       (regs s 21, Some (regs s 22)), (regs s 19, Some (regs s 20)), (regs s 29, Some (regs s 30))] @ stack s\<rparr>)"
  by (simp add: prologue_def set_reg_def fun_upd_twist)

definition preserved :: "gp \<Rightarrow> bool" where
  "preserved r \<longleftrightarrow> 19 \<le> r \<and> r \<le> 30"

lemma preserved_cases: "preserved r \<longleftrightarrow> r \<in> {19, 20, 21, 22, 23, 24, 25, 26, 27, 28, 29, 30}"
  unfolding preserved_def by (simp; presburger)

lemma run_epilogue:
  assumes "stack s = (m3, None) # (v27, Some v28) # (v25, Some v26) # (v23, Some v24) # (v21, Some v22) #
     (v19, Some v20) # (v29, Some v30) # st"
  shows "run_code e epilogue s = Some (s\<lparr>regs := (regs s)(27 := v27, 28 := v28, 25 := v25, 26 := v26, 23 := v23, 24 := v24,
       21 := v21, 22 := v22, 19 := v19, 20 := v20, 29 := v29, 30 := v30), sp := sp s + 112, stack := st\<rparr>)"
  using assms by (simp add: epilogue_def set_reg_def)

text \<open>The memory a call of the function may rely on.\<close>

definition scan_inputs :: "a64_env \<Rightarrow> u64 \<Rightarrow> cbst_tile list \<Rightarrow> u64 list \<Rightarrow> a64_state \<Rightarrow> bool" where
  "scan_inputs e helper tiles buf s \<longleftrightarrow> helper_addr e = helper \<and> (\<forall>t\<in>set tiles. wf_tile t) \<and>
     tiles_at (mem s) (regs s 0) tiles \<and> tiles_apart (regs s 0) (regs s 2) tiles \<and> read_words (mem s) (regs s 2) = buf"

lemma Compile_scan:
  assumes comp: "Compile rt_add helper ops = Inr code" and ins: "scan_inputs e helper tiles buf s"
    and scan: "scan_block ops tiles (regs s 3) buf = Some (hits, buf')"
  shows "\<exists>s'. call_code e code s = Some s' \<and> regs s' 0 = hits \<and> read_words (mem s') (regs s 2) = buf' \<and>
     (\<forall>r. preserved r \<longrightarrow> regs s' r = regs s r) \<and> sp s' = sp s \<and> stack s' = stack s"
proof -
  obtain body al res where c: "compile_ops helper ops \<lparr>reg_map = [], next_gp = 0\<rparr> = Inr (body, al)"
      "compile_result ops al = Inr res" and code: "code = (prologue @ body @ res @ epilogue) @ [RET 30]"
    using comp by (auto simp: Compile_def ebind_eq_Inr Let_def split: if_splits)
  define s0 where "s0 = the (run_code e prologue s)"
  have s0: "run_code e prologue s = Some s0" by (simp add: s0_def run_prologue)
  let ?saved = "[(regs s 27, Some (regs s 28)), (regs s 25, Some (regs s 26)), (regs s 23, Some (regs s 24)),
       (regs s 21, Some (regs s 22)), (regs s 19, Some (regs s 20)), (regs s 29, Some (regs s 30))] @ stack s"
  have st0: "stack s0 = (regs s 3, None) # ?saved" "sp s0 = sp s - 112"
    by (simp_all add: s0_def run_prologue)
  have r0: "related (regs s 0) (regs s 2) tiles \<lparr>reg_map = [], next_gp = 0\<rparr> (\<lambda>_. None, buf) s0"
    using ins by (simp add: related_def s0_def run_prologue scan_inputs_def)
  have "\<exists>s2. run_code e (body @ res) s0 = Some s2 \<and> regs s2 0 = hits \<and> stack s2 = stack s0 \<and> sp s2 = sp s0 \<and>
      read_words (mem s2) (regs s 2) = buf'"
  proof (cases "ops = []")
    case True
    then show ?thesis using c scan r0 by (auto simp: compile_result_def scan_block_def related_def)
  next
    case False
    then obtain rf m where run: "run_ops tiles ops (\<lambda>_. None, buf) = Some (rf, buf')" and
        m: "rf (dest_reg (last ops)) = Some (Mask m)" and hits: "hits = m AND regs s 3"
      using scan by (auto simp: scan_block_def split: option.splits vval.splits)
    obtain s1 where s1: "run_code e body s0 = Some s1" "related (regs s 0) (regs s 2) tiles al (rf, buf') s1"
        "stack s1 = stack s0" "sp s1 = sp s0"
      using compile_ops_correct[OF c(1) r0 run, of e] ins by (auto simp: scan_inputs_def)
    obtain g al2 where g: "get_reg (dest_reg (last ops)) al = Inr (g, al2)" and res: "res = [LDR_SP 8, AND_R 0 g 8]"
      using c(2) False by (auto simp: compile_result_def ebind_eq_Inr)
    have gm: "regs s1 g = m" using related_reg(2)[OF s1(2) _ g] m by auto
    have "g \<noteq> 8" using get_reg_spec(4)[OF g] s1(2) gp_pool_facts(3)[of g] by (auto simp: related_def)
    then have "run_code e (body @ res) s0 = Some (set_reg 0 (m AND regs s 3) (set_reg 8 (regs s 3) s1))"
      using s1 by (simp add: run_code_append res st0 gm)
    then show ?thesis using s1 hits by (simp add: related_def)
  qed
  then obtain s2 where s2: "run_code e (body @ res) s0 = Some s2" "regs s2 0 = hits" "stack s2 = stack s0" "sp s2 = sp s0"
      "read_words (mem s2) (regs s 2) = buf'" by blast
  define s3 where "s3 = the (run_code e epilogue s2)"
  have ep: "run_code e epilogue s2 = Some s3"
    using run_epilogue[of s2 "regs s 3", OF s2(3)[unfolded st0, simplified]] by (simp add: s3_def)
  have s3: "regs s3 0 = hits" "mem s3 = mem s2" "sp s3 = sp s" "stack s3 = stack s" "\<forall>r. preserved r \<longrightarrow> regs s3 r = regs s r"
    using run_epilogue[of s2 "regs s 3", OF s2(3)[unfolded st0, simplified]] s2(2,4) st0(2)
    by (auto simp: s3_def preserved_cases)
  have "run_code e (prologue @ ((body @ res) @ epilogue)) s = Some s3"
    using s0 s2(1) ep run_code_append[of e "body @ res" epilogue s0]
    by (simp add: run_code_append[of e prologue] del: append_assoc)
  then have "run_code e (prologue @ body @ res @ epilogue) s = Some s3" by (simp only: append_assoc)
  then show ?thesis using s3 s2(5) call_code_run unfolding code by fastforce
qed

subsection \<open>Registers\<close>

text \<open>The virtual registers an operation names.\<close>

definition op_vregs :: "micro_op \<Rightarrow> int set" where
  "op_vregs m = (case op m of
      LOAD_TILE \<Rightarrow> {dest_reg m}
    | MATERIALIZE_SCALAR \<Rightarrow> {src_reg1 m}
    | _ \<Rightarrow> if op m \<in> {BIT_AND, BIT_OR, BIT_XOR, BIT_BIC} then {dest_reg m, src_reg1 m, src_reg2 m}
           else {dest_reg m, src_reg1 m})"

definition allocated :: "alloc \<Rightarrow> int set" where
  "allocated al = dom (map_of (reg_map al))"

lemma finite_allocated [simp]: "finite (allocated al)"
  by (simp add: allocated_def finite_dom_map_of)

lemma card_allocated: "wf_alloc al \<Longrightarrow> card (allocated al) = next_gp al"
proof -
  assume w: "wf_alloc al"
  then have "length (map snd (reg_map al)) = next_gp al" by (simp add: wf_alloc_def)
  then show ?thesis using w distinct_card[of "map fst (reg_map al)"]
    by (simp add: allocated_def dom_map_of_conv_image_fst wf_alloc_def)
qed

lemma get_reg_ok:
  assumes "wf_alloc al" "card (insert v (allocated al)) \<le> 14"
  obtains g al' where "get_reg v al = Inr (g, al')" "allocated al' = insert v (allocated al)" "wf_alloc al'"
proof (cases "map_of (reg_map al) v")
  case (Some g)
  then show ?thesis using that[of g al] assms(1) by (auto simp: get_reg_def allocated_def)
next
  case None
  then have "v \<notin> allocated al" by (simp add: allocated_def domIff)
  then have "next_gp al < length gp_pool" using assms card_allocated[OF assms(1)] by (simp add: gp_pool_facts(2))
  then obtain g al' where g: "get_reg v al = Inr (g, al')" "allocated al' = insert v (allocated al)"
    using None by (auto simp: get_reg_def Let_def allocated_def)
  then show ?thesis using that get_reg_spec(1)[OF g(1) assms(1)] by blast
qed

lemma get_reg_fails:
  assumes "wf_alloc al" "card (insert v (allocated al)) > 14"
  shows "get_reg v al = Inl Out_of_physical_GPR"
proof -
  have n: "next_gp al \<le> 14" using assms(1) by (simp add: wf_alloc_def gp_pool_facts(2))
  have "v \<notin> allocated al" using assms card_allocated[OF assms(1)] n by (auto simp: insert_absorb)
  then have "map_of (reg_map al) v = None" "next_gp al = 14"
    using assms(2) card_allocated[OF assms(1)] n card_insert_disjoint[OF finite_allocated[of al], of v]
    by (simp_all add: allocated_def domIff)
  then show ?thesis by (simp add: get_reg_def gp_pool_facts(2))
qed

text \<open>A scratch register is found as long as mapped and excluded registers leave one of the pool.\<close>

lemma get_scratch_ok:
  assumes "wf_alloc al" "card (set exclude - snd ` set (reg_map al)) + next_gp al < 14"
  shows "\<exists>r. get_scratch_reg al exclude = Inr r"
proof -
  let ?used = "snd ` set (reg_map al)"
  have "card ?used \<le> next_gp al"
  proof -
    have "length (map snd (reg_map al)) = next_gp al" using assms(1) by (simp add: wf_alloc_def)
    then show ?thesis using card_length[of "map snd (reg_map al)"] by simp
  qed
  moreover have "card (?used \<union> set exclude) \<le> card ?used + card (set exclude - ?used)"
    by (metis Un_Diff_cancel card_Un_le)
  moreover have "card (set gp_pool) = 14" by (simp add: gp_pool_def)
  ultimately have "\<not> set gp_pool \<subseteq> ?used \<union> set exclude"
    using assms(2) card_mono[of "?used \<union> set exclude" "set gp_pool"] by auto
  then have "find (\<lambda>r. r \<notin> ?used \<and> r \<notin> set exclude) gp_pool \<noteq> None"
    by (auto simp: find_None_iff)
  then show ?thesis by (auto simp: get_scratch_reg_def)
qed

lemma get_scratch_fails:
  assumes "set gp_pool \<subseteq> snd ` set (reg_map al) \<union> set exclude"
  shows "get_scratch_reg al exclude = Inl Out_of_scratch"
proof -
  have "find (\<lambda>r. r \<notin> snd ` set (reg_map al) \<and> r \<notin> set exclude) gp_pool = None"
    using assms by (auto simp: find_None_iff)
  then show ?thesis by (simp add: get_scratch_reg_def)
qed

lemma four_scratch_ok:
  assumes "wf_alloc al" "map_of (reg_map al) v = Some eq" "map_of (reg_map al) u = Some tile" "next_gp al \<le> 10"
  shows "\<exists>ts. four_scratch al eq tile = Inr ts"
proof -
  let ?used = "snd ` set (reg_map al)"
  have mapped: "eq \<in> ?used" "tile \<in> ?used" using assms(2,3) by (force dest: map_of_SomeD)+
  have free: "\<exists>r. get_scratch_reg al (eq # tile # ts) = Inr r" if "length ts \<le> 3" for ts
  proof (rule get_scratch_ok[OF assms(1)])
    have "set (eq # tile # ts) - ?used \<subseteq> set ts" using mapped by auto
    then have "card (set (eq # tile # ts) - ?used) \<le> card (set ts)" by (intro card_mono) simp_all
    then show "card (set (eq # tile # ts) - ?used) + next_gp al < 14"
      using card_length[of ts] that assms(4) by linarith
  qed
  obtain t0 where t0: "get_scratch_reg al [eq, tile] = Inr t0" using free[of "[]"] by auto
  obtain t1 where t1: "get_scratch_reg al [eq, tile, t0] = Inr t1" using free[of "[t0]"] by auto
  obtain t2 where t2: "get_scratch_reg al [eq, tile, t0, t1] = Inr t2" using free[of "[t0, t1]"] by auto
  obtain t3 where "get_scratch_reg al [eq, tile, t0, t1, t2] = Inr t3" using free[of "[t0, t1, t2]"] by auto
  then show ?thesis by (simp add: four_scratch_def t0 t1 t2)
qed

lemma four_scratch_fails:
  assumes "wf_alloc al" "11 \<le> next_gp al"
  shows "\<exists>err. four_scratch al eq tile = Inl err"
proof (rule ccontr)
  assume "\<nexists>err. four_scratch al eq tile = Inl err"
  then obtain t0 t1 t2 t3 where ts: "four_scratch al eq tile = Inr (t0, t1, t2, t3)"
    by (cases "four_scratch al eq tile") auto
  note sp = four_scratch_spec[OF ts]
  let ?used = "snd ` set (reg_map al)"
  have used: "?used = set (take (next_gp al) gp_pool)"
    using assms(1) unfolding wf_alloc_def by (metis set_map set_rev)
  have card: "card ?used = next_gp al"
    unfolding used using assms(1) distinct_take[OF gp_pool_facts(1)] by (simp add: distinct_card wf_alloc_def)
  have "t \<notin> ?used" if "t \<in> {t0, t1, t2, t3}" for t
  proof
    assume "t \<in> ?used"
    then obtain v where "(v, t) \<in> set (reg_map al)" by auto
    then have "map_of (reg_map al) v = Some t" using assms(1) by (simp add: wf_alloc_def)
    then show False using sp(4)[OF that] by blast
  qed
  then have "?used \<inter> {t0, t1, t2, t3} = {}" by blast
  then have "card (?used \<union> {t0, t1, t2, t3}) = next_gp al + 4"
    using sp(1) card by (subst card_Un_disjoint) auto
  moreover have "?used \<union> {t0, t1, t2, t3} \<subseteq> set gp_pool" using sp(3) used by (auto dest: in_set_takeD)
  moreover have "card (set gp_pool) = 14" by (simp add: gp_pool_def)
  ultimately show False using card_mono[of "set gp_pool" "?used \<union> {t0, t1, t2, t3}"] assms(2) by simp
qed

definition is_compare :: "opcode \<Rightarrow> bool" where
  "is_compare c \<longleftrightarrow> c \<in> {CMP_SKELETON, CMP_KIM, CMP_GT, CMP_LT, CMP_EQ}"

lemma get_reg_allocated:
  assumes "get_reg v al = Inr (g, al')"
  shows "allocated al' = insert v (allocated al)"
  using assms by (auto simp: get_reg_def allocated_def Let_def split: option.splits if_splits)

lemma compile_op_allocated:
  assumes "compile_op helper m al = Inr (code, al')" "wf_alloc al"
  shows "allocated al' = op_vregs m \<union> allocated al" "wf_alloc al'"
    "is_compare (op m) \<Longrightarrow> card (allocated al') \<le> 10"
proof -
  have sc: "next_gp al \<le> 10" if "wf_alloc al" "four_scratch al eq t = Inr ts" for al eq t ts
    using four_scratch_fails[OF that(1), of eq t] that(2) by fastforce
  show "allocated al' = op_vregs m \<union> allocated al" "wf_alloc al'"
    using assms
    by (cases "op m"; fastforce simp: compile_op_def compile_load_tile_def compile_bitwise_def compile_quads_def compile_pairs_def
        compile_materialize_def ebind_eq_Inr Let_def op_vregs_def dest: get_reg_allocated get_reg_spec(1))+
  assume "is_compare (op m)"
  then obtain d al1 t ts where "get_reg (dest_reg m) al = Inr (d, al1)" "get_reg (src_reg1 m) al1 = Inr (t, al')"
      "four_scratch al' d t = Inr ts"
    using assms(1) by (cases "op m") (auto simp: is_compare_def compile_op_def compile_quads_def compile_pairs_def ebind_eq_Inr)
  then have "wf_alloc al' \<and> next_gp al' \<le> 10"
    using sc get_reg_spec(1) assms(2) by blast
  then show "card (allocated al') \<le> 10" using card_allocated by simp
qed

definition prog_vregs :: "micro_op list \<Rightarrow> int set" where
  "prog_vregs ops = (\<Union>m\<in>set ops. op_vregs m)"

lemma finite_op_vregs [simp]: "finite (op_vregs m)"
  by (cases "op m") (auto simp: op_vregs_def)

lemma finite_prog_vregs [simp]: "finite (prog_vregs ops)"
  by (simp add: prog_vregs_def)

lemma prog_vregs_simps [simp]:
  "prog_vregs [] = {}" "prog_vregs (m # ms) = op_vregs m \<union> prog_vregs ms"
  by (auto simp: prog_vregs_def)

lemma compile_op_ok:
  assumes "wf_alloc al" "card (op_vregs m \<union> allocated al) \<le> 14"
    and few: "is_compare (op m) \<Longrightarrow> card (op_vregs m \<union> allocated al) \<le> 10"
  shows "\<exists>code al'. compile_op helper m al = Inr (code, al')"
proof -
  have sub: "card (insert v (allocated al1)) \<le> card (op_vregs m \<union> allocated al)" if "allocated al1 \<subseteq> op_vregs m \<union> allocated al" "v \<in> op_vregs m" for al1 v
    using that card_mono[of "op_vregs m \<union> allocated al" "insert v (allocated al1)"] by simp
  have reg: "\<exists>g al2. get_reg v al1 = Inr (g, al2) \<and> wf_alloc al2 \<and> allocated al2 \<subseteq> op_vregs m \<union> allocated al \<and>
      map_of (reg_map al2) v = Some g \<and> map_of (reg_map al1) \<subseteq>\<^sub>m map_of (reg_map al2) \<and> next_gp al2 \<le> card (op_vregs m \<union> allocated al)"
    if pre: "allocated al1 \<subseteq> op_vregs m \<union> allocated al" "v \<in> op_vregs m" "wf_alloc al1" for al1 v
  proof -
    obtain g al2 where g: "get_reg v al1 = Inr (g, al2)" "allocated al2 = insert v (allocated al1)" "wf_alloc al2"
      using get_reg_ok[OF pre(3), of v] sub[OF pre(1,2)] assms(2) by auto
    have "next_gp al2 \<le> card (op_vregs m \<union> allocated al)" using card_allocated[OF g(3)] g(2) sub[OF pre(1,2)] by simp
    then show ?thesis using g pre get_reg_spec[OF g(1) pre(3)] by auto
  qed
  show ?thesis
  proof (cases "is_compare (op m)")
    case True
    then have v: "dest_reg m \<in> op_vregs m" "src_reg1 m \<in> op_vregs m"
      by (auto simp: is_compare_def op_vregs_def)
    obtain d al1 where d: "get_reg (dest_reg m) al = Inr (d, al1)" "wf_alloc al1" "allocated al1 \<subseteq> op_vregs m \<union> allocated al"
        "map_of (reg_map al1) (dest_reg m) = Some d"
      using reg[OF _ v(1) assms(1)] by auto
    obtain t al2 where t: "get_reg (src_reg1 m) al1 = Inr (t, al2)" "wf_alloc al2" "map_of (reg_map al2) (src_reg1 m) = Some t"
        "map_of (reg_map al1) \<subseteq>\<^sub>m map_of (reg_map al2)" "next_gp al2 \<le> 10"
      using reg[OF d(3) v(2) d(2)] few[OF True] by (meson order_trans)
    have "map_of (reg_map al2) (dest_reg m) = Some d"
      using t(4) d(4) by (simp add: map_le_def dom_def)
    then obtain ts where "four_scratch al2 d t = Inr ts" using four_scratch_ok[OF t(2) _ t(3,5)] by blast
    then show ?thesis using True d(1) t(1)
      by (cases ts; cases "op m") (auto simp: is_compare_def compile_op_def compile_quads_def compile_pairs_def)
  next
    case False
    consider "op m = LOAD_TILE" | "op m = MATERIALIZE_SCALAR" | "op m \<in> {BIT_AND, BIT_OR, BIT_XOR, BIT_BIC}"
      using False by (cases "op m") (auto simp: is_compare_def)
    then show ?thesis
    proof cases
      case 1
      then obtain g al2 where "get_reg (dest_reg m) al = Inr (g, al2)"
        using reg[of al "dest_reg m"] assms(1) by (auto simp: op_vregs_def)
      then show ?thesis using 1 by (simp add: compile_op_def compile_load_tile_def Let_def)
    next
      case 2
      then obtain g al2 where "get_reg (src_reg1 m) al = Inr (g, al2)"
        using reg[of al "src_reg1 m"] assms(1) by (auto simp: op_vregs_def)
      then show ?thesis using 2 by (simp add: compile_op_def compile_materialize_def)
    next
      case 3
      then have v: "dest_reg m \<in> op_vregs m" "src_reg1 m \<in> op_vregs m" "src_reg2 m \<in> op_vregs m"
        by (auto simp: op_vregs_def)
      obtain d al1 where d: "get_reg (dest_reg m) al = Inr (d, al1)" "wf_alloc al1" "allocated al1 \<subseteq> op_vregs m \<union> allocated al"
        using reg[OF _ v(1) assms(1)] by auto
      obtain a al2 where a: "get_reg (src_reg1 m) al1 = Inr (a, al2)" "wf_alloc al2" "allocated al2 \<subseteq> op_vregs m \<union> allocated al"
        using reg[OF d(3) v(2) d(2)] by auto
      obtain b al3 where "get_reg (src_reg2 m) al2 = Inr (b, al3)" using reg[OF a(3) v(3) a(2)] by auto
      then show ?thesis using 3 d(1) a(1) by (auto simp: compile_op_def compile_bitwise_def)
    qed
  qed
qed

text \<open>Whether every comparison is reached with at most ten virtual registers named.\<close>

fun scratch_left :: "micro_op list \<Rightarrow> int set \<Rightarrow> bool" where
  "scratch_left [] named = True"
| "scratch_left (m # ms) named =
     ((if is_compare (op m) then card (op_vregs m \<union> named) \<le> 10 else True) \<and> scratch_left ms (op_vregs m \<union> named))"

lemma compile_ops_ok:
  assumes "wf_alloc al" "card (prog_vregs ms \<union> allocated al) \<le> 14" "scratch_left ms (allocated al)"
  shows "\<exists>code al'. compile_ops helper ms al = Inr (code, al')"
  using assms
proof (induction ms arbitrary: al)
  case Nil
  then show ?case by simp
next
  case (Cons m ms)
  have "card (op_vregs m \<union> allocated al) \<le> 14"
    by (rule order_trans[OF card_mono Cons.prems(2)]) auto
  then obtain c al1 where c: "compile_op helper m al = Inr (c, al1)"
    using compile_op_ok[OF Cons.prems(1), of m helper] Cons.prems(3) by (fastforce split: if_splits)
  note fact = compile_op_allocated[OF c Cons.prems(1)]
  have "prog_vregs ms \<union> allocated al1 = prog_vregs (m # ms) \<union> allocated al" using fact(1) by auto
  then show ?case using Cons.IH[OF fact(2)] Cons.prems(2,3) c fact(1) by auto
qed

lemma compile_ops_allocated:
  assumes "compile_ops helper ms al = Inr (code, al')" "wf_alloc al"
  shows "allocated al' = prog_vregs ms \<union> allocated al" "wf_alloc al'" "scratch_left ms (allocated al)"
proof -
  have "allocated al' = prog_vregs ms \<union> allocated al \<and> wf_alloc al' \<and> scratch_left ms (allocated al)"
    using assms
  proof (induction ms arbitrary: al code)
    case Nil
    then show ?case by simp
  next
    case (Cons n ms)
    obtain c1 al1 c2 where c: "compile_op helper n al = Inr (c1, al1)" "compile_ops helper ms al1 = Inr (c2, al')"
      using Cons.prems(1) by (auto simp: ebind_eq_Inr)
    note fact = compile_op_allocated[OF c(1) Cons.prems(2)]
    show ?case using Cons.IH[OF c(2) fact(2)] fact by auto
  qed
  then show "allocated al' = prog_vregs ms \<union> allocated al" "wf_alloc al'" "scratch_left ms (allocated al)"
    by blast+
qed

lemma allocated_empty [simp]: "allocated \<lparr>reg_map = [], next_gp = 0\<rparr> = {}"
  by (simp add: allocated_def)

lemma Compile_ok:
  assumes "card (insert (dest_reg (last ops)) (prog_vregs ops)) \<le> 14" "scratch_left ops {}" "\<forall>code. rt_add code = 0"
  shows "\<exists>code. Compile rt_add helper ops = Inr code"
proof -
  let ?al = "\<lparr>reg_map = [], next_gp = 0\<rparr>"
  have "card (prog_vregs ops \<union> allocated ?al) \<le> 14"
    using assms(1) card_insert_le[of "prog_vregs ops" "dest_reg (last ops)"] by simp
  then obtain code al where c: "compile_ops helper ops ?al = Inr (code, al)"
    using compile_ops_ok[OF wf_alloc_empty, of ops helper] assms(2) by auto
  note fact = compile_ops_allocated[OF c wf_alloc_empty]
  have "card (insert (dest_reg (last ops)) (allocated al)) \<le> 14" using fact(1) assms(1) by simp
  then obtain g al' where "get_reg (dest_reg (last ops)) al = Inr (g, al')" using get_reg_ok[OF fact(2)] by blast
  then show ?thesis using c assms(3) by (simp add: Compile_def compile_result_def)
qed

lemma Compile_fits:
  assumes "Compile rt_add helper ops = Inr code" "ops \<noteq> []"
  shows "card (insert (dest_reg (last ops)) (prog_vregs ops)) \<le> 14" "scratch_left ops {}"
proof -
  let ?al = "\<lparr>reg_map = [], next_gp = 0\<rparr>"
  obtain body al g al' where c: "compile_ops helper ops ?al = Inr (body, al)" "get_reg (dest_reg (last ops)) al = Inr (g, al')"
    using assms by (auto simp: Compile_def compile_result_def ebind_eq_Inr)
  note fact = compile_ops_allocated[OF c(1) wf_alloc_empty]
  show "scratch_left ops {}" using fact(3) by simp
  have "next_gp al' \<le> 14" "wf_alloc al'"
    using get_reg_spec(1)[OF c(2) fact(2)] by (simp_all add: wf_alloc_def gp_pool_facts(2))
  then show "card (insert (dest_reg (last ops)) (prog_vregs ops)) \<le> 14"
    using get_reg_allocated[OF c(2)] fact(1) card_allocated[of al'] by simp
qed

subsection \<open>Properties\<close>

text \<open>
  Property C11. The generated code is correct: if \<open>Compile\<close> accepts a program and memory holds the
  tiles where x0 points and a buffer apart from them where x2 points, a call returns in x0 the
  mask the micro operations mean, with the deleted rows of x3 taken out, leaves in the buffer what
  they materialise, and gives back the stack and the registers x19 to x30 unchanged.
\<close>

theorem compiled_code_correct:
  assumes "Compile rt_add helper ops = Inr code" "scan_inputs e helper tiles buf s"
    and "scan_block ops tiles (regs s 3) buf = Some (hits, buf')"
  shows "\<exists>s'. call_code e code s = Some s' \<and> regs s' 0 = hits \<and> read_words (mem s') (regs s 2) = buf' \<and>
     (\<forall>r\<in>{19..30}. regs s' r = regs s r) \<and> sp s' = sp s \<and> stack s' = stack s"
  using Compile_scan[OF assms] by (auto simp: preserved_def)

definition demo_env :: a64_env where
  "demo_env = \<lparr>helper_addr = 4096, clobber = (\<lambda>_ _. 99)\<rparr>"

definition demo_state :: a64_state where
  "demo_state = \<lparr>regs = (\<lambda>r. if r = 2 then 8192 else if r = 3 then 0xFFFF else 0), sp = 65536, stack = [], mem = (\<lambda>_. 0)\<rparr>"

definition demo_ops :: "micro_op list" where
  "demo_ops = [default_op\<lparr>dest_reg := 0\<rparr>,
     default_op\<lparr>op := CMP_LT, dest_reg := 1, src_reg1 := 0, src_reg2 := 3, imm := 5\<rparr>]"

lemma demo_inputs: "scan_inputs demo_env 4096 [zero_tile] (replicate 64 0) demo_state"
proof -
  have "\<not> in_words 8192 (word_of_nat (j * 8))" if "j < 64" for j
  proof
    assume "in_words 8192 (word_of_nat (j * 8))"
    then obtain i where i: "i < 64" "(word_of_nat (j * 8) :: u64) = 8192 + word_of_nat (8 * i)"
      by (auto simp: in_words_def)
    have "unat (word_of_nat (j * 8) :: u64) = unat (word_of_nat (8192 + 8 * i) :: u64)" using i(2) by simp
    moreover have "j * 8 < 2 ^ 64" "8192 + 8 * i < 2 ^ 64" using i(1) that by simp_all
    ultimately have "j * 8 = 8192 + 8 * i" by (simp only: unat_u64)
    then show False using that by simp
  qed
  then show ?thesis
    by (simp add: scan_inputs_def demo_env_def demo_state_def tiles_at_def tiles_apart_def zero_tile_def read_words_def
        wf_zero_tile[unfolded zero_tile_def] map_replicate_const del: of_nat_mult)
qed

lemma demo_scan: "scan_block demo_ops [zero_tile] 0xFFFF (replicate 64 0) = Some (0xFFFF, replicate 64 0)"
proof -
  have z: "tile_scalar zero_tile r = 0" if "r < 64" for r
    by (rule bit_word_eqI) (use that in \<open>simp add: bit_tile_scalar zero_tile_def\<close>)
  have "row_mask (\<lambda>r. compare_row CMP_LT 3 5 (tile_scalar zero_tile r)) = row_mask (\<lambda>_. True)"
    by (rule row_mask_cong) (simp add: z low_bits_def compare_bits_def)
  also have "\<dots> = - 1" by (rule bit_word_eqI) simp
  finally show ?thesis
    by (simp add: scan_block_def demo_ops_def default_op_def run_op_def del: compare_row.simps)
qed

theorem compiled_code_correct_witness:
  "\<exists>code s'. Compile (\<lambda>_. 0) 4096 demo_ops = Inr code \<and> call_code demo_env code demo_state = Some s' \<and> regs s' 0 = 0xFFFF"
proof -
  have "card (insert (dest_reg (last demo_ops)) (prog_vregs demo_ops)) \<le> 14" "scratch_left demo_ops {}"
    by (simp_all add: demo_ops_def op_vregs_def default_op_def is_compare_def card_insert_if)
  then obtain code where code: "Compile (\<lambda>_. 0) 4096 demo_ops = Inr code" using Compile_ok[of demo_ops "\<lambda>_. 0" 4096] by auto
  have "regs demo_state 3 = 0xFFFF" by (simp add: demo_state_def)
  then show ?thesis
    using compiled_code_correct[OF code demo_inputs, of "0xFFFF" "replicate 64 0"] demo_scan code by auto
qed

text \<open>
  Property C12. Which programs compile. Nothing is spilled, so \<open>Compile\<close> succeeds exactly when the
  program names at most fourteen virtual registers and every comparison is reached with at most
  ten of them named, which leaves it the four scratch registers it needs; otherwise it throws.
\<close>

theorem compile_accepts_iff:
  assumes "ops \<noteq> []"
  shows "(\<exists>code. Compile (\<lambda>_. 0) helper ops = Inr code) \<longleftrightarrow>
     card (insert (dest_reg (last ops)) (prog_vregs ops)) \<le> 14 \<and> scratch_left ops {}"
  using Compile_ok[of ops "\<lambda>_. 0" helper] Compile_fits[of "\<lambda>_. 0" helper ops] assms by auto

theorem compile_accepts_iff_witness:
  "(\<exists>code. Compile (\<lambda>_. 0) 4096 (map (\<lambda>v. default_op\<lparr>dest_reg := v\<rparr>) [0, 1, 2]) = Inr code) \<longleftrightarrow> True"
  by (subst compile_accepts_iff) (simp_all add: op_vregs_def default_op_def is_compare_def card_insert_if)

end
