(* ===== verification/Query_Limits.thy ===== *)
theory Query_Limits
  imports Execute_Correct Compiler_Correct
begin

text \<open>
  What a query on one row group may rely on, stated on \<open>Plan\<close> and \<open>Execute\<close> as a client calls them:
  which queries are answered exactly, how many numeric predicates the compiler's registers admit,
  and the queries whose answers are wrong whatever the data.
\<close>

subsection \<open>The register budget of numeric predicates\<close>

fun numeric_prog :: "row_group \<Rightarrow> predicate list \<Rightarrow> int \<Rightarrow> micro_op list" where
  "numeric_prog rg [] v = []"
| "numeric_prog rg (pred # preds) v =
     fst (numeric_ops pred (phys (column_names rg) (pred_column pred))
       (num_compare_bits (blocks rg) (phys (column_names rg) (pred_column pred)) (numeric_value pred)) v) @
     numeric_prog rg preds (v + 2)"

fun numeric_masks :: "predicate list \<Rightarrow> int \<Rightarrow> int list" where
  "numeric_masks [] v = []"
| "numeric_masks (pred # preds) v = (v + 1) # numeric_masks preds (v + 2)"

lemma get_physical_found: "c \<in> set names \<Longrightarrow> \<exists>p. get_physical_idx names c i = Inr p"
  by (induction names arbitrary: i) auto

lemma plan_numeric:
  assumes "\<forall>pred\<in>set preds. \<not> is_string pred \<and> pred_column pred \<in> set (column_names rg)"
  shows "plan_predicates rg preds st = Inr (st\<lparr>vreg_counter := vreg_counter st + 2 * int (length preds),
     plan_ops := plan_ops st @ numeric_prog rg preds (vreg_counter st),
     predicate_mask_regs := predicate_mask_regs st @ numeric_masks preds (vreg_counter st)\<rparr>)"
  using assms
proof (induction preds arbitrary: st)
  case Nil
  then show ?case by simp
next
  case (Cons pred preds)
  obtain p where p: "get_physical_idx (column_names rg) (pred_column pred) 0 = Inr p"
    using get_physical_found Cons.prems by (metis list.set_intros(1))
  have ph: "phys (column_names rg) (pred_column pred) = p" by (rule phys_spec(1)[OF p])
  let ?st = "add_ops (numeric_ops pred p (num_compare_bits (blocks rg) p (numeric_value pred)) (vreg_counter st)) 2 st"
  have step: "plan_predicate rg pred st = Inr ?st"
    using Cons.prems p by (simp add: plan_predicate_def)
  have "plan_predicates rg preds ?st = Inr (?st\<lparr>vreg_counter := vreg_counter ?st + 2 * int (length preds),
     plan_ops := plan_ops ?st @ numeric_prog rg preds (vreg_counter ?st),
     predicate_mask_regs := predicate_mask_regs ?st @ numeric_masks preds (vreg_counter ?st)\<rparr>)"
    by (rule Cons.IH) (use Cons.prems in simp)
  then show ?case
    by (simp add: step ph) (simp add: add_ops_def numeric_ops_def algebra_simps)
qed

lemma scratch_left_append:
  "scratch_left (xs @ ys) named \<longleftrightarrow> scratch_left xs named \<and> scratch_left ys (prog_vregs xs \<union> named)"
  by (induction xs arbitrary: named) (auto simp: Un_ac)

lemma prog_vregs_append [simp]: "prog_vregs (xs @ ys) = prog_vregs xs \<union> prog_vregs ys"
  by (auto simp: prog_vregs_def)

lemma prog_vregs_numeric: "prog_vregs (numeric_prog rg preds v) = {v..<v + 2 * int (length preds)}"
proof (induction preds arbitrary: v)
  case Nil then show ?case by simp
next
  case (Cons pred preds)
  have "op_vregs (emit_op LOAD_TILE v (-1) (-1) x) = {v}" for x by (simp add: op_vregs_def emit_op_def)
  moreover have "op_vregs (emit_op (case pred_op pred of GT \<Rightarrow> CMP_GT | LT \<Rightarrow> CMP_LT | _ \<Rightarrow> CMP_EQ) (v + 1) v b x) = {v + 1, v}" for b x
    by (cases "pred_op pred") (simp_all add: op_vregs_def emit_op_def)
  ultimately show ?case using Cons by (auto simp: numeric_ops_def)
qed

lemma scratch_left_numeric:
  "0 \<le> v \<Longrightarrow> scratch_left (numeric_prog rg preds v) {0..<v} \<longleftrightarrow> preds = [] \<or> v + 2 * int (length preds) \<le> 10"
proof (induction preds arbitrary: v)
  case Nil then show ?case by simp
next
  case (Cons pred preds)
  let ?c = "case pred_op pred of GT \<Rightarrow> CMP_GT | LT \<Rightarrow> CMP_LT | _ \<Rightarrow> CMP_EQ"
  have load: "op_vregs (emit_op LOAD_TILE v (-1) (-1) x) \<union> {0..<v} = {0..<v + 1}" "\<not> is_compare LOAD_TILE" for x
    using Cons.prems by (auto simp: op_vregs_def emit_op_def is_compare_def)
  have cmp: "op_vregs (emit_op ?c (v + 1) v b x) \<union> {0..<v + 1} = {0..<v + 2}" "is_compare ?c" for b x
    using Cons.prems by (cases "pred_op pred"; auto simp: op_vregs_def emit_op_def is_compare_def)+
  have "scratch_left (numeric_prog rg (pred # preds) v) {0..<v} \<longleftrightarrow>
      v + 2 \<le> 10 \<and> scratch_left (numeric_prog rg preds (v + 2)) {0..<v + 2}"
  proof -
    have o: "op (emit_op c a b d x) = c" for c a b d x by (simp add: emit_op_def)
    have "nat (v + 2) \<le> 10 \<longleftrightarrow> v \<le> 8" using Cons.prems by auto
    then show ?thesis by (simp add: numeric_ops_def o load cmp)
  qed
  then show ?case using Cons.IH[of "v + 2"] Cons.prems by auto
qed

lemma and_chain_facts:
  "prog_vregs (and_chain rs r v) = (if rs = [] then {} else insert r (set rs \<union> {v..<v + int (length rs)}))"
  "scratch_left (and_chain rs r v) named"
proof (induction rs arbitrary: r v named)
  case Nil
  {
    case 1 then show ?case by simp
  next
    case 2 then show ?case by simp
  }
next
  case (Cons u rs)
  have op: "op_vregs (emit_op BIT_AND v r u 0) = {v, r, u}" "\<not> is_compare BIT_AND"
    by (auto simp: op_vregs_def emit_op_def is_compare_def)
  {
    case 1 then show ?case using Cons(1)[of v "v + 1"] by (auto simp: op_vregs_def emit_op_def)
  next
    case 2
    have "op (emit_op BIT_AND v r u 0) = BIT_AND" by (simp add: emit_op_def)
    then show ?case using Cons(2)[of v "v + 1"] by (simp add: op)
  }
qed

lemma numeric_masks_facts:
  "length (numeric_masks preds v) = length preds" "set (numeric_masks preds v) \<subseteq> {v..<v + 2 * int (length preds)}"
proof (induction preds arbitrary: v)
  case (Cons pred preds)
  case 2
  show ?case using Cons(2)[of "v + 2"] by auto
qed simp_all

lemma and_chain_last: "rs \<noteq> [] \<Longrightarrow> dest_reg (last (and_chain rs r v)) \<in> prog_vregs (and_chain rs r v)"
proof -
  assume "rs \<noteq> []"
  then have "and_chain rs r v \<noteq> []" by (cases rs) simp_all
  moreover have "\<forall>m\<in>set (and_chain rs r v). op m = BIT_AND"
    by (induction rs arbitrary: r v) (auto simp: emit_op_def)
  ultimately have "op (last (and_chain rs r v)) = BIT_AND" "last (and_chain rs r v) \<in> set (and_chain rs r v)" by auto
  then show ?thesis by (auto simp: prog_vregs_def op_vregs_def intro!: bexI[of _ "last (and_chain rs r v)"])
qed

lemma Compile_iff:
  "ops \<noteq> [] \<Longrightarrow> (\<exists>code. Compile (\<lambda>_. 0) helper ops = Inr code) \<longleftrightarrow>
     card (insert (dest_reg (last ops)) (prog_vregs ops)) \<le> 14 \<and> scratch_left ops {}"
  using Compile_ok[of ops "\<lambda>_. 0" helper] Compile_fits[of "\<lambda>_. 0" helper ops] by auto

lemma numeric_plan_iff:
  assumes "preds \<noteq> []" "\<forall>pred\<in>set preds. \<not> is_string pred \<and> pred_column pred \<in> set (column_names rg)"
  shows "(\<exists>q. Plan (\<lambda>_. 0) helper preds rg [] kind = Inr q) \<longleftrightarrow> length preds \<le> 5"
proof -
  obtain pred preds' where p: "preds = pred # preds'" using assms(1) by (cases preds) auto
  let ?n = "int (length preds)" and ?rs = "numeric_masks preds' 2"
  let ?ops = "numeric_prog rg preds 0 @ and_chain ?rs 1 (2 * ?n)"
  let ?st = "empty_plan\<lparr>vreg_counter := 2 * ?n, plan_ops := numeric_prog rg preds 0, predicate_mask_regs := numeric_masks preds 0\<rparr>"
  have plan: "plan_predicates rg preds empty_plan = Inr ?st"
    using plan_numeric[OF assms(2), of empty_plan] by (simp add: empty_plan_def)
  have fin: "final_ops ?st = Some ?ops" by (simp add: final_ops_def p)
  have "Plan (\<lambda>_. 0) helper preds rg [] kind = (case Compile (\<lambda>_. 0) helper ?ops of Inl err \<Rightarrow> Inl (Jit err)
      | Inr code \<Rightarrow> Inr \<lparr>scan_func = jit_scan ?ops, string_predicates = map fst (plan_strings ?st), all_predicates = preds,
          string_col_indices = map (\<lambda>(_, i, _). i) (plan_strings ?st),
          clean_string_patterns = map (\<lambda>(_, _, pat). pat) (plan_strings ?st),
          agg_col_idx = -1, max_agg_bit = 0, agg_col_name = [], agg_type = kind\<rparr>)"
    by (simp only: Plan_def plan ebind_simps fin option.case if_False prod.case simp_thms)
  then have "(\<exists>q. Plan (\<lambda>_. 0) helper preds rg [] kind = Inr q) \<longleftrightarrow> (\<exists>code. Compile (\<lambda>_. 0) helper ?ops = Inr code)"
    by (auto split: sum.splits)
  also have "\<dots> \<longleftrightarrow> card (insert (dest_reg (last ?ops)) (prog_vregs ?ops)) \<le> 14 \<and> scratch_left ?ops {}"
    by (rule Compile_iff) (simp add: p numeric_ops_def)
  also have "scratch_left ?ops {} \<longleftrightarrow> 2 * ?n \<le> 10"
    using scratch_left_numeric[of 0 rg preds] by (auto simp: scratch_left_append and_chain_facts(2) p)
  also have "insert (dest_reg (last ?ops)) (prog_vregs ?ops) = {0..<3 * ?n - 1}"
  proof -
    have masks: "set ?rs \<subseteq> {2..<2 * ?n}" using numeric_masks_facts(2)[of preds' 2] by (simp add: p)
    have l: "?n = int (length preds') + 1" by (simp add: p)
    have prem: "(?rs = []) = (preds' = [])" using numeric_masks_facts(1)[of preds' 2] by auto
    have all: "prog_vregs ?ops = {0..<3 * ?n - 1}"
      using masks numeric_masks_facts(1)[of preds' 2]
      using l by (cases "preds' = []") (auto simp: prog_vregs_numeric and_chain_facts(1) prem)
    have "dest_reg (last ?ops) \<in> prog_vregs ?ops"
    proof (cases "preds' = []")
      case True
      then show ?thesis by (simp add: p numeric_ops_def op_vregs_def emit_op_def split: predicate_op.split)
    next
      case False
      then have ne: "?rs \<noteq> []" using numeric_masks_facts(1)[of preds' 2] by auto
      then have "and_chain ?rs 1 (2 * ?n) \<noteq> []" by (cases ?rs) simp_all
      then show ?thesis using and_chain_last[OF ne, of 1 "2 * ?n"] by simp
    qed
    then show ?thesis using all by auto
  qed
  finally show ?thesis by auto
qed

subsection \<open>An equality that ends in a percent sign\<close>

lemma percent_skeleton:
  assumes "v \<noteq> []" "last v = CHR ''%''" "length v \<le> 4"
  shows "\<not> compare_row CMP_SKELETON (int (min 32 ((length v + 1) * 8))) (GetSkeletonConstant v) (skeleton_of v)"
proof -
  let ?n = "min 32 ((length v + 1) * 8)"
  have split: "v = butlast v @ [CHR ''%'']" using assms(1,2) by (metis append_butlast_last_id)
  have lt: "le_value v < 2 ^ ?n" "le_value (butlast v) < 2 ^ ?n"
  proof -
    have "(256::nat) ^ length v = 2 ^ (8 * length v)"
      by (simp only: power_mult) simp
    also have "\<dots> \<le> 2 ^ ?n" by (rule power_increasing) (use assms(3) in auto)
    finally have b: "256 ^ length v \<le> (2::nat) ^ ?n" .
    then show "le_value v < 2 ^ ?n" using le_value_bound[of v] by linarith
    have "le_value (butlast v) \<le> le_value v" by (subst (2) split) (simp add: le_value_append)
    then show "le_value (butlast v) < 2 ^ ?n" using le_value_bound[of v] b by linarith
  qed
  have nb: "compare_bits 32 (int ?n) = ?n" by (rule compare_bits_exact) auto
  have id: "low_bits ?n (word_of_nat x :: u64) = word_of_nat x" if "x < 2 ^ ?n" for x
    using that by (simp add: low_bits_def take_bit_of_nat take_bit_nat_eq_self)
  have sk: "skeleton_of v = word_of_nat (le_value v)" "GetSkeletonConstant v = word_of_nat (le_value (butlast v))"
    using assms by (simp_all add: skeleton_of_def GetSkeletonConstant_def strip_back_def)
  have "le_value v \<noteq> le_value (butlast v)"
    by (subst (1) split) (simp add: le_value_append)
  moreover have "(2::nat) ^ ?n \<le> 2 ^ 32" by (rule power_increasing) auto
  ultimately have "(word_of_nat (le_value v) :: u64) \<noteq> word_of_nat (le_value (butlast v))"
    using lt by (simp add: word_unat_eq_iff)
  then show ?thesis using id[OF lt(1)] id[OF lt(2)] by (simp only: compare_row.simps nb sk) simp
qed

lemma percent_selects_nothing:
  assumes st: "stored batch rg" and sane: "sane_predicate batch pred" and str: "is_string pred" "pred_op pred = EQ"
    and v: "pred_value pred \<noteq> []" "last (pred_value pred) = CHR ''%''" "length (pred_value pred) \<le> 4"
  shows "selected_rows batch rg [pred] = {}"
proof -
  obtain c where c: "column_by_name batch (pred_column pred) = Some c" "is_string_type (type_id c)"
    using sane str by (auto simp: sane_predicate_def split: option.splits)
  have "\<not> candidate_row rg (columns (blocks rg ! (k div 64))) pred (k mod 64)"
    if k: "k < batch_rows batch" and holds: "pred_holds batch k pred" for k
  proof -
    have "k div 64 * 64 + k mod 64 < batch_rows batch" using k by simp
    then have r: "k mod 64 < rows_of_block (batch_rows batch) (k div 64)"
      by (simp only: block_split(1) mod_less_divisor zero_less_numeral)
    have b: "k div 64 < block_total (batch_rows batch)" using k unfolding block_total_def by linarith
    have t: "column_text c k = pred_value pred" using holds str by (simp add: pred_holds_def c(1))
    show ?thesis
      using percent_skeleton[OF v] stored_text(1)[OF st b c r] str t by (simp add: candidate_row_def Let_def)
  qed
  then show ?thesis using str by (auto simp: selected_rows_def)
qed

subsection \<open>A batch for the witnesses\<close>

definition demo_batch :: record_batch where
  "demo_batch = batch_of 3 [(''id'', int64_array [Some 7, None, Some 5]), (''name'', string_array [Some ''ab%'', Some ''b'', None])]"

definition demo_group :: row_group where
  "demo_group = with_deletes (case Ingest demo_batch of Inr rg \<Rightarrow> rg | Inl _ \<Rightarrow> undefined) (\<lambda>_. 0xFFFFFFFFFFFFFFFD)"

lemma demo_stored: "stored demo_batch demo_group"
proof -
  have ab: "arrow_batch demo_batch" unfolding demo_batch_def by (rule arrow_batch_of) simp_all
  have sup: "\<forall>c\<in>set (batch_columns demo_batch). supported_type (type_id c)"
    by (simp add: demo_batch_def batch_of_def int64_array_def string_array_def supported_type_def
        supported_int_type_def is_string_type_def)
  have "block_strings demo_batch b = [] \<or> tail_fits (block_strings demo_batch b)" for b
    by (cases b) (simp_all add: demo_batch_def block_strings_def batch_of_def column_strings_def int64_array_def
        string_array_def rows_of_block_def tail_fits_def is_string_type_def numeral_3_eq_3)
  moreover have "plain_schema (schema_fields demo_batch)" "length (physical_names (schema_fields demo_batch)) < 2 ^ 32"
    by (simp_all add: demo_batch_def batch_of_def int64_array_def string_array_def plain_schema_def is_string_type_def)
  ultimately show ?thesis
    using ab sup by (auto simp: stored_def demo_group_def Ingest_eq[OF ab sup])
qed

lemma demo_columns:
  "column_by_name demo_batch ''id'' = Some (int64_array [Some 7, None, Some 5])"
  "column_by_name demo_batch ''name'' = Some (string_array [Some ''ab%'', Some ''b'', None])"
  "batch_rows demo_batch = 3" "column_names demo_group = [''id'', ''name'', ''name_kim'']"
  using storedD(6)[OF demo_stored]
  by (simp_all add: demo_batch_def batch_of_def int64_array_def string_array_def is_string_type_def)

lemma demo_live: "k < 3 \<Longrightarrow> live_row demo_group k \<longleftrightarrow> k \<noteq> 1"
proof -
  assume k: "k < 3"
  have "0 < length (blocks demo_group)" using storedD(9)[OF demo_stored] by (simp add: demo_columns block_total_def)
  then have "delete_mask (blocks demo_group ! 0) = 0xFFFFFFFFFFFFFFFD"
    by (simp add: demo_group_def with_deletes_def)
  moreover have "k = 0 \<or> k = 1 \<or> k = 2" using k by auto
  ultimately show ?thesis by (auto simp: live_row_def)
qed

definition id_above :: "u64 \<Rightarrow> predicate" where
  "id_above v = \<lparr>pred_column = ''id'', pred_op = GT, pred_value = [], numeric_value = v, is_string = False\<rparr>"

lemma demo_numeric_plan: "\<exists>q. Plan (\<lambda>_. 0) 4096 (replicate n (id_above 4)) demo_group [] AGG_COUNT = Inr q" if "0 < n" "n \<le> 5"
  by (subst numeric_plan_iff) (use that in \<open>simp_all add: demo_columns id_above_def\<close>)

lemma demo_exact: "exact_predicate demo_batch (id_above v)"
  by (simp add: exact_predicate_def id_above_def demo_columns int64_array_def is_string_type_def)

lemma demo_matching: "matching_rows demo_batch demo_group [id_above 4] = {0, 2}"
proof -
  have "pred_holds demo_batch k (id_above 4) \<longleftrightarrow> k \<noteq> 1" if "k < 3" for k
  proof -
    have "k = 0 \<or> k = 1 \<or> k = 2" using that by auto
    then show ?thesis
      by (auto simp: pred_holds_def id_above_def demo_columns column_number_def array_cell_def int64_array_def is_string_type_def)
  qed
  then show ?thesis using demo_live by (auto simp: matching_rows_def demo_columns)
qed

definition name_is :: "string \<Rightarrow> predicate" where
  "name_is v = \<lparr>pred_column = ''name'', pred_op = EQ, pred_value = v, numeric_value = 0, is_string = True\<rparr>"

lemma demo_name_plan: "\<exists>q. Plan (\<lambda>_. 0) 4096 [name_is v] demo_group [] AGG_COUNT = Inr q"
proof -
  let ?ops = "fst (string_ops (name_is v) 1 2 0)"
  have "\<exists>code. Compile (\<lambda>_. 0) 4096 ?ops = Inr code"
    by (subst Compile_iff) (simp_all add: string_ops_def name_is_def Let_def op_vregs_def emit_op_def is_compare_def card_insert_if)
  then obtain code where c: "Compile (\<lambda>_. 0) 4096 ?ops = Inr code" by blast
  then show ?thesis
    by (simp add: Plan_def plan_predicate_def demo_columns name_is_def string_ops_def Let_def add_ops_def empty_plan_def
        final_ops_def)
qed

subsection \<open>Properties\<close>

text \<open>
  Property C1. A query is answered exactly: for a row group that stores a batch, with any rows deleted,
  and predicates that are exact, \<open>Execute\<close> on the planned runner returns the number of live rows
  that satisfy every predicate and the sum of the aggregated column over them. What lies in memory
  behind a tail payload (\<open>beyond\<close>) makes no difference.
\<close>

theorem execute_counts_matches:
  assumes "stored batch rg" "Plan rt_add helper preds rg agg kind = Inr q" "\<forall>pred\<in>set preds. exact_predicate batch pred"
    and "agg = [] \<or> (\<exists>c. column_by_name batch agg = Some c \<and> \<not> is_string_type (type_id c))"
  shows "Execute beyond q rg = Some (word_of_nat (card (matching_rows batch rg preds)),
     if agg = [] then 0 else sum_column batch agg (matching_rows batch rg preds))"
  using Execute_stored[OF assms(1,2) _ assms(4), of beyond] exact_sane selected_exact[OF assms(1,3)] assms(3) by auto

theorem execute_counts_matches_witness:
  "\<exists>q. Plan (\<lambda>_. 0) 4096 [id_above 4] demo_group [] AGG_COUNT = Inr q \<and> Execute [] q demo_group = Some (2, 0)"
proof -
  obtain q where q: "Plan (\<lambda>_. 0) 4096 [id_above 4] demo_group [] AGG_COUNT = Inr q"
    using demo_numeric_plan[of 1] by auto
  then show ?thesis
    using execute_counts_matches[OF demo_stored q, of "[]"] demo_exact by (simp add: demo_matching)
qed

text \<open>
  Property C13. The register limit as a client meets it: a conjunction of numeric predicates on existing
  columns is planned if there are at most five of them; six always throw, because the compiler
  never frees a register.
\<close>

theorem numeric_predicates_limit:
  assumes "preds \<noteq> []" "\<forall>pred\<in>set preds. \<not> is_string pred \<and> pred_column pred \<in> set (column_names rg)"
  shows "(\<exists>q. Plan (\<lambda>_. 0) helper preds rg [] kind = Inr q) \<longleftrightarrow> length preds \<le> 5"
  by (rule numeric_plan_iff[OF assms])

theorem numeric_predicates_limit_witness:
  "(\<exists>q. Plan (\<lambda>_. 0) 4096 (replicate 6 (id_above 4)) demo_group [] AGG_COUNT = Inr q) \<longleftrightarrow> False"
  by (subst numeric_predicates_limit) (simp_all add: demo_columns id_above_def)

text \<open>
  Property C14. A false negative: an equality on a string of at most four bytes whose last byte is a
  percent sign counts no row, although rows with exactly this text may be stored. The skeleton of
  the pattern is built without the percent sign, the skeletons of the rows with it.
\<close>

theorem percent_equality_finds_nothing:
  assumes "stored batch rg" "Plan rt_add helper [pred] rg [] kind = Inr q" "sane_predicate batch pred"
    and "is_string pred" "pred_op pred = EQ"
    and "pred_value pred \<noteq> []" "last (pred_value pred) = CHR ''%''" "length (pred_value pred) \<le> 4"
  shows "Execute beyond q rg = Some (0, 0)"
  using Execute_stored[OF assms(1,2), of beyond] percent_selects_nothing[OF assms(1,3-)] assms(3) by simp

theorem percent_equality_finds_nothing_witness:
  "column_text (string_array [Some ''ab%'', Some ''b'', None]) 0 = ''ab%'' \<and>
   (\<exists>q. Plan (\<lambda>_. 0) 4096 [name_is ''ab%''] demo_group [] AGG_COUNT = Inr q \<and> Execute [] q demo_group = Some (0, 0))"
proof -
  obtain q where q: "Plan (\<lambda>_. 0) 4096 [name_is ''ab%''] demo_group [] AGG_COUNT = Inr q"
    using demo_name_plan by blast
  have "sane_predicate demo_batch (name_is ''ab%'')"
    by (simp add: sane_predicate_def name_is_def demo_columns string_array_def is_string_type_def known_op_def)
  then have "Execute [] q demo_group = Some (0, 0)"
    using percent_equality_finds_nothing[OF demo_stored q] by (simp add: name_is_def)
  then show ?thesis using q by (simp add: column_text_def array_cell_def string_array_def is_string_type_def)
qed


end
