(* ===== verification/Query_Result.thy ===== *)
theory Query_Result
  imports Query_Limits "HOL-Library.Signed_Division"
begin

text \<open>
  \<open>QueryResult\<close>: the aggregates of a query beyond count and sum, computed by
  \<open>QueryRunner::ExecuteQueryResult\<close> (\<open>src/lex/jit/query_planner.cpp\<close>) on a row group. The same
  tail of statements stands in \<open>MemTable::ExecuteQueryResult\<close> (\<open>src/lex/lsm/mem_table.cpp\<close>), so
  \<open>summarise_numerics\<close> and \<open>summarise_strings\<close> are shared.
\<close>

subsection \<open>Results\<close>

text \<open>
  An \<open>int64_t\<close> is a word read with \<open>sint\<close>; the signed sum wraps, as the generated code does.
  \<open>avg\<close> is a floating-point quotient: the record keeps its operands, the sum and the number of
  values, and \<open>None\<close> for the initial 0.0. The two vectors of distinct values are copied out of an
  \<open>unordered_set\<close>, so their order means nothing.
\<close>

record query_result =
  res_count :: u64
  res_sum :: u64
  avg :: "(u64 \<times> nat) option"
  min_val :: u64
  max_val :: u64
  median_val :: u64
  distinct_count :: u64
  distinct_strings :: "string list"
  distinct_numerics :: "u64 list"

definition empty_result :: query_result where
  "empty_result = \<lparr>res_count = 0, res_sum = 0, avg = None, min_val = 0, max_val = 0, median_val = 0,
     distinct_count = 0, distinct_strings = [], distinct_numerics = []\<rparr>"

definition signed_min :: "u64 list \<Rightarrow> u64" where
  "signed_min xs = fold (\<lambda>v m. if sint v < sint m then v else m) xs (hd xs)"

definition signed_max :: "u64 list \<Rightarrow> u64" where
  "signed_max xs = fold (\<lambda>v m. if sint v > sint m then v else m) xs (hd xs)"

text \<open>The signed division of C++ truncates toward zero.\<close>

definition half :: "u64 \<Rightarrow> u64" where
  "half w = word_of_int (sint w sdiv 2)"

definition median_of :: "u64 list \<Rightarrow> u64" where
  "median_of xs = (let sorted_n = sort_key sint xs; sz = length sorted_n
     in if sz mod 2 = 1 then sorted_n ! (sz div 2)
        else half (sorted_n ! (sz div 2 - 1) + sorted_n ! (sz div 2)))"

definition summarise_numerics :: "u64 list \<Rightarrow> query_result \<Rightarrow> query_result" where
  "summarise_numerics matched res =
     (if matched = [] then res
      else res\<lparr>min_val := signed_min matched, max_val := signed_max matched,
        distinct_count := word_of_nat (length (remdups matched)), distinct_numerics := remdups matched,
        avg := Some (res_sum res, length matched), median_val := median_of matched\<rparr>)"

definition summarise_strings :: "string list \<Rightarrow> query_result \<Rightarrow> query_result" where
  "summarise_strings matched res =
     (if matched = [] then res
      else res\<lparr>min_val := 0, max_val := 0,
        distinct_count := word_of_nat (length (remdups matched)), distinct_strings := remdups matched\<rparr>)"

subsection \<open>ExecuteQueryResult on a row group\<close>

definition agg_is_string :: "query_runner \<Rightarrow> row_group \<Rightarrow> bool" where
  "agg_is_string q rg \<longleftrightarrow> agg_col_idx q \<noteq> -1 \<and> column_types rg ! nat (agg_col_idx q) = Type_STRING"

definition agg_str_col_idx :: "query_runner \<Rightarrow> row_group \<Rightarrow> nat" where
  "agg_str_col_idx q rg = length (filter (\<lambda>t. t = Type_STRING) (take (nat (agg_col_idx q)) (column_types rg)))"

text \<open>The values of one block: the matched numbers, or the matched strings of the tail payload.\<close>

definition block_values :: "query_runner \<Rightarrow> row_group \<Rightarrow> nat \<Rightarrow> u64 \<Rightarrow> (u64 list \<times> string list) option" where
  "block_values q rg b final_mask =
     (let block = blocks rg ! b
      in if agg_col_idx q = -1 then Some ([], [])
         else if agg_is_string q rg then
           (if tail_payload block = [] then None
            else Some ([], map (\<lambda>i. tail_view (tail_payload block) (agg_str_col_idx q rg * rows_in_block rg b + i))
                   (mask_rows final_mask)))
         else
           (let materialized_dest = greengate_butterfly_transpose (planes (columns block ! nat (agg_col_idx q)))
            in Some (map (\<lambda>i. materialized_dest ! i) (mask_rows final_mask), [])))"

type_synonym matched = "u64 \<times> u64 list \<times> string list"

fun result_blocks :: "bytes \<Rightarrow> query_runner \<Rightarrow> row_group \<Rightarrow> nat list \<Rightarrow> matched \<Rightarrow> matched option" where
  "result_blocks beyond q rg [] acc = Some acc"
| "result_blocks beyond q rg (b # bs) (matches, nums, strs) =
     (case block_matches beyond q rg b of
        None \<Rightarrow> None
      | Some final_mask \<Rightarrow>
          if popcount final_mask = 0 then result_blocks beyond q rg bs (matches, nums, strs)
          else (case block_values q rg b final_mask of
                  None \<Rightarrow> None
                | Some (ns, ss) \<Rightarrow> result_blocks beyond q rg bs
                    (matches + word_of_nat (popcount final_mask), nums @ ns, strs @ ss)))"

definition ExecuteQueryResult :: "bytes \<Rightarrow> query_runner \<Rightarrow> row_group \<Rightarrow> query_result option" where
  "ExecuteQueryResult beyond q rg =
     map_option (\<lambda>(matches, nums, strs).
       let res = empty_result\<lparr>res_count := matches, res_sum := sum_list nums\<rparr>
       in if 0 < matches \<and> agg_col_idx q \<noteq> -1 then
            (if agg_is_string q rg then summarise_strings strs res else summarise_numerics nums res)
          else res)
     (result_blocks beyond q rg [0..<length (blocks rg)] (0, [], []))"

subsection \<open>What the aggregates are\<close>

lemma signed_fold:
  fixes f :: "u64 \<Rightarrow> int"
  shows "fold (\<lambda>v m. if f v < f m then v else m) xs m0 \<in> insert m0 (set xs)"
    "\<forall>x\<in>insert m0 (set xs). f (fold (\<lambda>v m. if f v < f m then v else m) xs m0) \<le> f x"
proof (induction xs arbitrary: m0)
  case (Cons x xs)
  {
    case 1 then show ?case using Cons(1)[of x] Cons(1)[of m0] by auto
  next
    case 2 then show ?case using Cons(2)[of x] Cons(2)[of m0] by fastforce
  }
qed simp_all

lemma signed_min_spec: "xs \<noteq> [] \<Longrightarrow> signed_min xs \<in> set xs \<and> (\<forall>x\<in>set xs. sint (signed_min xs) \<le> sint x)"
  using signed_fold[where f=sint and xs=xs and ?m0.0="hd xs"] by (auto simp: signed_min_def)

lemma signed_max_spec: "xs \<noteq> [] \<Longrightarrow> signed_max xs \<in> set xs \<and> (\<forall>x\<in>set xs. sint x \<le> sint (signed_max xs))"
proof -
  have "(\<lambda>v m. if sint v > sint m then v else m) = (\<lambda>v m :: u64. if - sint v < - sint m then v else m)" by auto
  then show "xs \<noteq> [] \<Longrightarrow> ?thesis"
    using signed_fold[where f="\<lambda>w. - sint w" and xs=xs and ?m0.0="hd xs"] by (auto simp: signed_max_def)
qed

text \<open>At most half of the values lie below the median of an odd number of values, and as many above.\<close>

lemma sorted_middle:
  assumes "sorted (map f xs)" "k < length xs"
  shows "length (filter (\<lambda>x. f x < f (xs ! k)) xs) \<le> k" "length (filter (\<lambda>x. f x > f (xs ! k)) xs) \<le> length xs - Suc k"
proof -
  have mono: "i \<le> j \<Longrightarrow> j < length xs \<Longrightarrow> f (xs ! i) \<le> f (xs ! j)" for i j
    using sorted_nth_mono[OF assms(1), of i j] by simp
  have "{i. i < length xs \<and> f (xs ! i) < f (xs ! k)} \<subseteq> {..<k}"
    using mono[of k] by (auto simp: not_less[symmetric])
  then show "length (filter (\<lambda>x. f x < f (xs ! k)) xs) \<le> k"
    using card_mono[of "{..<k}"] by (simp add: length_filter_conv_card)
  have "{i. i < length xs \<and> f (xs ! k) < f (xs ! i)} \<subseteq> {Suc k..<length xs}"
    using mono[OF _ assms(2)] by (auto simp: not_less[symmetric] Suc_le_eq)
  then show "length (filter (\<lambda>x. f x > f (xs ! k)) xs) \<le> length xs - Suc k"
    using card_mono[of "{Suc k..<length xs}"] by (simp add: length_filter_conv_card)
qed

lemma length_filter_sort: "length (filter P (sort_key f xs)) = length (filter P xs)"
  by (simp add: filter_sort)

lemma median_spec:
  assumes "odd (length xs)"
  shows "median_of xs \<in> set xs" "2 * length (filter (\<lambda>x. sint x < sint (median_of xs)) xs) < length xs"
    "2 * length (filter (\<lambda>x. sint x > sint (median_of xs)) xs) < length xs"
proof -
  let ?s = "sort_key sint xs" and ?k = "length xs div 2"
  have m: "median_of xs = ?s ! ?k" using assms by (simp add: median_of_def Let_def odd_iff_mod_2_eq_one)
  have k: "?k < length ?s" "length xs = 2 * ?k + 1" using assms by (auto elim: oddE)
  have "?s ! ?k \<in> set ?s" by (rule nth_mem[OF k(1)])
  then show "median_of xs \<in> set xs" by (simp add: m)
  have "sorted (map sint ?s)" by simp
  note mid = sorted_middle[OF this k(1)]
  show "2 * length (filter (\<lambda>x. sint x < sint (median_of xs)) xs) < length xs"
    using mid(1) k(2) unfolding m length_filter_sort by linarith
  show "2 * length (filter (\<lambda>x. sint x > sint (median_of xs)) xs) < length xs"
    using mid(2) k(2) unfolding m length_filter_sort length_sort by linarith
qed

text \<open>Halving a signed number truncates toward zero and never overflows.\<close>

lemma sint_half: "sint (half w) = sint w sdiv 2"
proof -
  have b: "- (2 ^ 63) \<le> sint w" "sint w < 2 ^ 63" using sint_range_size[of w] by (simp_all add: word_size)
  then have "- (2 ^ 63) \<le> sint w sdiv 2" "sint w sdiv 2 < 2 ^ 63"
    by (auto simp: signed_divide_int_def sgn_if)
  then show ?thesis by (simp add: half_def sint_sbintrunc' signed_take_bit_int_eq_self)
qed

lemma median_even:
  "even (length xs) \<Longrightarrow> sint (median_of xs) =
     sint (sort_key sint xs ! (length xs div 2 - 1) + sort_key sint xs ! (length xs div 2)) sdiv 2"
  by (auto simp: median_of_def Let_def sint_half)

subsection \<open>The result on a stored batch\<close>

lemma result_blocks_eq:
  assumes "\<And>b. b \<in> set bs \<Longrightarrow> block_matches beyond q rg b = Some (m b)"
    and "\<And>b. b \<in> set bs \<Longrightarrow> popcount (m b) \<noteq> 0 \<Longrightarrow> block_values q rg b (m b) = Some (ns b, ss b)"
    and "\<And>b. b \<in> set bs \<Longrightarrow> popcount (m b) = 0 \<Longrightarrow> ns b = [] \<and> ss b = []"
  shows "result_blocks beyond q rg bs (c, nums, strs) = Some (c + (\<Sum>b\<leftarrow>bs. word_of_nat (popcount (m b))),
     nums @ concat (map ns bs), strs @ concat (map ss bs))"
  using assms by (induction bs arbitrary: c nums strs) (auto simp: add.assoc)

lemma popcount_zero: "popcount w = 0 \<Longrightarrow> mask_rows w = []"
  by (simp add: popcount_def mask_rows_eq del: upt_rec_numeral)

lemma rows_concat:
  assumes m: "\<And>b r. b < block_total n \<Longrightarrow> r < 64 \<Longrightarrow> bit (m b) r \<longleftrightarrow> b * 64 + r \<in> M" and M: "M \<subseteq> {..<n}"
  shows "concat (map (\<lambda>b. map (\<lambda>i. h (b * 64 + i)) (mask_rows (m b))) [0..<block_total n]) =
    map h (filter (\<lambda>k. k \<in> M) [0..<n])"
proof -
  have upto: "concat (map (\<lambda>b. map (\<lambda>i. h (b * 64 + i)) (mask_rows (m b))) [0..<B]) =
      map h (filter (\<lambda>k. k \<in> M) [0..<B * 64])" if "B \<le> block_total n" for B
    using that
  proof (induction B)
    case 0 then show ?case by simp
  next
    case (Suc B)
    have rows: "[0..<Suc B * 64] = [0..<B * 64] @ map (\<lambda>i. B * 64 + i) [0..<64]"
      using upt_add_eq_append[of 0 "B * 64" 64] map_add_upt[of "B * 64" 64]
      by (simp add: add.commute del: upt_rec_numeral)
    have bits: "filter (bit (m B)) [0..<64] = filter (\<lambda>i. B * 64 + i \<in> M) [0..<64]"
      by (rule filter_cong_bits) (use m[of B] Suc.prems in simp)
    show ?case
      unfolding rows using Suc by (simp add: mask_rows_eq bits filter_map comp_def del: upt_rec_numeral)
  qed
  have le: "n \<le> block_total n * 64" unfolding block_total_def by linarith
  have "filter (\<lambda>k. k \<in> M) [n..<block_total n * 64] = []"
    using M by (auto simp: filter_empty_conv)
  then have "filter (\<lambda>k. k \<in> M) [0..<block_total n * 64] = filter (\<lambda>k. k \<in> M) [0..<n]"
    using le by (metis append_Nil2 filter_append le0 le_add_diff_inverse upt_add_eq_append)
  then show ?thesis using upto[of "block_total n"] by simp
qed

lemma sum_list_members: "M \<subseteq> {..<n} \<Longrightarrow> sum_list (map h (filter (\<lambda>k. k \<in> M) [0..<n])) = (\<Sum>k\<in>M. h k)"
proof -
  assume "M \<subseteq> {..<n}"
  then have "set (filter (\<lambda>k. k \<in> M) [0..<n]) = M" by auto
  then show ?thesis by (simp add: sum_list_distinct_conv_sum_set del: set_filter)
qed

text \<open>The masks of all blocks of a stored batch, as one family.\<close>

lemma stored_masks:
  assumes st: "stored batch rg" and plan: "Plan rt_add helper preds rg agg kind = Inr q"
    and ex: "\<forall>pred\<in>set preds. sane_predicate batch pred"
  obtains m where "\<And>b. b < block_total (batch_rows batch) \<Longrightarrow> block_matches beyond q rg b = Some (m b)"
    "\<And>b r. b < block_total (batch_rows batch) \<Longrightarrow> r < 64 \<Longrightarrow> bit (m b) r \<longleftrightarrow> b * 64 + r \<in> selected_rows batch rg preds"
    "\<And>b r. b < block_total (batch_rows batch) \<Longrightarrow> r < 64 \<Longrightarrow> bit (m b) r \<Longrightarrow> r < rows_of_block (batch_rows batch) b"
    "(\<Sum>b\<leftarrow>[0..<block_total (batch_rows batch)]. word_of_nat (popcount (m b))) =
       (word_of_nat (card (selected_rows batch rg preds)) :: u64)"
proof -
  let ?n = "batch_rows batch" and ?M = "selected_rows batch rg preds"
  define m where "m b = the (block_matches beyond q rg b)" for b
  have m: "block_matches beyond q rg b = Some (m b)"
      "r < 64 \<Longrightarrow> bit (m b) r \<longleftrightarrow> r < rows_of_block ?n b \<and> bit (delete_mask (blocks rg ! b)) r \<and> (\<forall>pred\<in>set preds.
         candidate_row rg (columns (blocks rg ! b)) pred r \<and> (is_string pred \<longrightarrow> pred_holds batch (b * 64 + r) pred))"
    if "b < block_total ?n" for b r
    using block_matches_stored[OF st that plan ex, of beyond] by (auto simp: m_def)
  have bits: "bit (m b) r \<longleftrightarrow> b * 64 + r \<in> ?M" if "b < block_total ?n" "r < 64" for b r
    using m(2)[OF that(1), of r] that by (auto simp: selected_rows_def live_row_def block_split)
  have sub: "?M \<subseteq> {..<?n}" by (auto simp: selected_rows_def)
  have "word_of_nat (popcount (m b)) = (\<Sum>r\<in>rows_of (m b). 1 :: u64)" for b
    by (simp add: popcount_card rows_of_def)
  then have "(\<Sum>b\<leftarrow>[0..<block_total ?n]. word_of_nat (popcount (m b))) = (word_of_nat (card ?M) :: u64)"
    using sum_over_blocks[of ?n m ?M "\<lambda>_. 1"] bits sub by simp
  then show ?thesis using that[OF m(1) bits] m(2) by blast
qed

lemma card_selected: "card (selected_rows batch rg preds) \<le> batch_rows batch" "finite (selected_rows batch rg preds)"
proof -
  have sub: "selected_rows batch rg preds \<subseteq> {..<batch_rows batch}" by (auto simp: selected_rows_def)
  show "finite (selected_rows batch rg preds)" by (rule finite_subset[OF sub]) simp
  show "card (selected_rows batch rg preds) \<le> batch_rows batch" using card_mono[OF _ sub] by simp
qed

definition matched_values :: "record_batch \<Rightarrow> string \<Rightarrow> nat set \<Rightarrow> u64 list" where
  "matched_values batch agg M = map (\<lambda>k. case column_by_name batch agg of None \<Rightarrow> 0 | Some c \<Rightarrow> column_number c k)
     (filter (\<lambda>k. k \<in> M) [0..<batch_rows batch])"

lemma matched_values_sum: "M \<subseteq> {..<batch_rows batch} \<Longrightarrow> sum_list (matched_values batch agg M) = sum_column batch agg M"
  unfolding matched_values_def sum_column_def by (rule sum_list_members)

lemma stored_types:
  assumes "stored batch rg" shows "column_types rg = physical_types (schema_fields batch)"
  using assms by (auto simp: stored_def Ingest_eq with_deletes_def)

lemma nth_physical_types:
  "f < length fs \<Longrightarrow> physical_width (take f (map snd fs)) < length (physical_types fs) \<and>
     physical_types fs ! physical_width (take f (map snd fs)) = snd (fs ! f)"
proof (induction fs arbitrary: f)
  case (Cons x fs)
  then show ?case by (cases x; cases f) auto
qed simp

lemma ExecuteQueryResult_numbers:
  assumes st: "stored batch rg" and plan: "Plan rt_add helper preds rg agg kind = Inr q"
    and ex: "\<forall>pred\<in>set preds. sane_predicate batch pred"
    and agg: "agg \<noteq> []" "column_by_name batch agg = Some c" "\<not> is_string_type (type_id c)"
  defines "M \<equiv> selected_rows batch rg preds"
  shows "ExecuteQueryResult beyond q rg = Some (summarise_numerics (matched_values batch agg M)
     (empty_result\<lparr>res_count := word_of_nat (card M), res_sum := sum_column batch agg M\<rparr>))"
proof -
  let ?n = "batch_rows batch" and ?p = "phys (column_names rg) agg"
  obtain m where m: "\<And>b. b < block_total ?n \<Longrightarrow> block_matches beyond q rg b = Some (m b)"
    "\<And>b r. b < block_total ?n \<Longrightarrow> r < 64 \<Longrightarrow> bit (m b) r \<longleftrightarrow> b * 64 + r \<in> M"
    "\<And>b r. b < block_total ?n \<Longrightarrow> r < 64 \<Longrightarrow> bit (m b) r \<Longrightarrow> r < rows_of_block ?n b"
    "(\<Sum>b\<leftarrow>[0..<block_total ?n]. word_of_nat (popcount (m b))) = (word_of_nat (card M) :: u64)"
    using stored_masks[OF st plan ex, of beyond] unfolding M_def by metis
  have q: "agg_col_idx q = int ?p" using Plan_runner[OF plan] agg(1) by metis
  obtain f where f: "f < length (batch_columns batch)" "batch_columns batch ! f = c"
      "?p = logical_to_physical (map type_id (batch_columns batch)) 0 ! f"
    using stored_column[OF st agg(2)] by blast
  have ns: "\<not> agg_is_string q rg"
  proof -
    have ts: "map snd (schema_fields batch) = map type_id (batch_columns batch)" by (rule storedD(4)[OF st])
    have ty: "snd (schema_fields batch ! f) = type_id c"
      using arg_cong[OF ts, of "\<lambda>xs. xs ! f"] f(1,2) storedD(5)[OF st] by simp
    have "?p = physical_width (take f (map type_id (batch_columns batch)))"
      using f(1,3) nth_logical_to_physical[of f "map type_id (batch_columns batch)" 0] by simp
    then have "column_types rg ! ?p = type_id c"
      using nth_physical_types[of f "schema_fields batch"] f(1,2) storedD(5)[OF st] ty
      by (simp add: stored_types[OF st] ts)
    then show ?thesis using agg(3) by (simp add: agg_is_string_def q is_string_type_def)
  qed
  define ns where "ns b = map (\<lambda>i. column_number c (b * 64 + i)) (mask_rows (m b))" for b
  have val: "block_values q rg b (m b) = Some (ns b, [])" if b: "b < block_total ?n" for b
  proof -
    have "greengate_butterfly_transpose (planes (columns (blocks rg ! b) ! ?p)) ! i = column_number c (b * 64 + i)"
      if "i \<in> set (mask_rows (m b))" for i
      using that m(3)[OF b, of i] stored_number[OF st b agg(2,3), of i] by (simp add: tile_scalar_def set_mask_rows)
    then show ?thesis using ns by (simp add: block_values_def Let_def q ns_def)
  qed
  have sub: "M \<subseteq> {..<?n}" by (auto simp: M_def selected_rows_def)
  have "result_blocks beyond q rg [0..<block_total ?n] (0, [], []) =
      Some (0 + (\<Sum>b\<leftarrow>[0..<block_total ?n]. word_of_nat (popcount (m b))),
        [] @ concat (map ns [0..<block_total ?n]), [] @ concat (map (\<lambda>_. []) [0..<block_total ?n]))"
    by (rule result_blocks_eq) (use m(1) val popcount_zero in \<open>auto simp: ns_def\<close>)
  moreover have "concat (map ns [0..<block_total ?n]) = matched_values batch agg M"
    unfolding ns_def matched_values_def agg(2) option.case by (rule rows_concat[OF m(2) sub])
  moreover have "concat (map (\<lambda>_. []) xs) = []" for xs :: "nat list" by (induction xs) simp_all
  ultimately have r: "result_blocks beyond q rg [0..<length (blocks rg)] (0, [], []) =
      Some (word_of_nat (card M), matched_values batch agg M, [])"
    by (simp add: m(4) storedD(9)[OF st])
  have "card M < 2 ^ 64" using card_selected(1)[of batch rg preds] storedD(8)[OF st] by (simp add: M_def)
  then have pos: "0 < (word_of_nat (card M) :: u64) \<longleftrightarrow> M \<noteq> {}"
    using card_selected(2)[of batch rg preds] by (simp add: word_less_nat_alt M_def card_gt_0_iff)
  have "M = {} \<Longrightarrow> matched_values batch agg M = []" by (simp add: matched_values_def)
  then show ?thesis
    unfolding ExecuteQueryResult_def r
    using ns pos matched_values_sum[OF sub, of agg] by (cases "M = {}") (auto simp: Let_def q summarise_numerics_def)
qed

text \<open>
  Property C15. Aggregates: on a row group that stores a batch, with exact predicates and a numeric column
  to aggregate, \<open>ExecuteQueryResult\<close> reports the number of matching rows and their sum; if any
  row matches, the minimum and maximum are attained by matching rows and bound all of them in the
  signed order and the number of distinct values is exact. For an odd number of rows fewer than half of the
  values lie below the median and fewer than half above; for an even number the median is the sum of the two middle
  values of the sorted values, a 64-bit sum that may wrap, halved toward zero. A null counts as 0.
\<close>

theorem query_result_aggregates:
  assumes "stored batch rg" "Plan rt_add helper preds rg agg kind = Inr q" "\<forall>pred\<in>set preds. exact_predicate batch pred"
    and "agg \<noteq> []" "column_by_name batch agg = Some c" "\<not> is_string_type (type_id c)"
  shows "\<exists>res vs. ExecuteQueryResult beyond q rg = Some res \<and> vs = matched_values batch agg (matching_rows batch rg preds) \<and>
     res_count res = word_of_nat (card (matching_rows batch rg preds)) \<and>
     res_sum res = sum_column batch agg (matching_rows batch rg preds) \<and>
     (vs \<noteq> [] \<longrightarrow> min_val res \<in> set vs \<and> (\<forall>v\<in>set vs. sint (min_val res) \<le> sint v) \<and>
        max_val res \<in> set vs \<and> (\<forall>v\<in>set vs. sint v \<le> sint (max_val res)) \<and>
        avg res = Some (res_sum res, length vs) \<and>
        distinct_count res = word_of_nat (card (set vs)) \<and> set (distinct_numerics res) = set vs) \<and>
     (odd (length vs) \<longrightarrow> median_val res \<in> set vs \<and>
        2 * length (filter (\<lambda>v. sint v < sint (median_val res)) vs) < length vs \<and>
        2 * length (filter (\<lambda>v. sint v > sint (median_val res)) vs) < length vs) \<and>
     (vs \<noteq> [] \<and> even (length vs) \<longrightarrow> sint (median_val res) =
        sint (sort_key sint vs ! (length vs div 2 - 1) + sort_key sint vs ! (length vs div 2)) sdiv 2)"
proof -
  let ?M = "matching_rows batch rg preds"
  let ?vs = "matched_values batch agg ?M"
  let ?res = "summarise_numerics ?vs (empty_result\<lparr>res_count := word_of_nat (card ?M), res_sum := sum_column batch agg ?M\<rparr>)"
  have r: "ExecuteQueryResult beyond q rg = Some ?res"
    using ExecuteQueryResult_numbers[OF assms(1,2) _ assms(4-6), of beyond] exact_sane selected_exact[OF assms(1,3)] assms(3)
    by auto
  have "res_count ?res = word_of_nat (card ?M)" "res_sum ?res = sum_column batch agg ?M"
    by (simp_all add: summarise_numerics_def)
  moreover have "?vs \<noteq> [] \<Longrightarrow> min_val ?res = signed_min ?vs \<and> max_val ?res = signed_max ?vs \<and> avg ?res = Some (res_sum ?res, length ?vs) \<and>
      distinct_count ?res = word_of_nat (card (set ?vs)) \<and> set (distinct_numerics ?res) = set ?vs \<and> median_val ?res = median_of ?vs"
    by (simp add: summarise_numerics_def length_remdups_card_conv)
  moreover have "odd (length ?vs) \<Longrightarrow> ?vs \<noteq> []" by auto
  ultimately show ?thesis using r signed_min_spec[of ?vs] signed_max_spec[of ?vs] median_spec[of ?vs] median_even[of ?vs] by metis
qed

lemma Plan_with_column:
  assumes "Plan rt_add helper preds rg [] kind = Inr q" "agg \<in> set (column_names rg)"
  shows "\<exists>q'. Plan rt_add helper preds rg agg kind = Inr q'"
proof -
  obtain p where p: "get_physical_idx (column_names rg) agg 0 = Inr p" using get_physical_found[OF assms(2)] by blast
  obtain st where st: "plan_predicates rg preds empty_plan = Inr st"
    using assms(1) unfolding Plan_def ebind_eq_Inr by blast
  obtain ops where ops: "final_ops st = Some ops"
    using assms(1) by (cases "final_ops st") (auto simp: Plan_def st)
  obtain code where "Compile rt_add helper ops = Inr code"
    using assms(1) by (cases "Compile rt_add helper ops") (auto simp: Plan_def st ops)
  then show ?thesis by (simp add: Plan_def st ops p)
qed

theorem query_result_aggregates_witness:
  "\<exists>q res. Plan (\<lambda>_. 0) 4096 [id_above 4] demo_group ''id'' AGG_MIN = Inr q \<and>
     ExecuteQueryResult [] q demo_group = Some res \<and> res_count res = 2 \<and> res_sum res = 12 \<and>
     min_val res = 5 \<and> max_val res = 7 \<and> distinct_count res = 2 \<and> sint (median_val res) = 6"
proof -
  obtain q0 where "Plan (\<lambda>_. 0) 4096 [id_above 4] demo_group [] AGG_MIN = Inr q0"
    using numeric_plan_iff[of "[id_above 4]" demo_group] by (auto simp: demo_columns id_above_def)
  then obtain q where q: "Plan (\<lambda>_. 0) 4096 [id_above 4] demo_group ''id'' AGG_MIN = Inr q"
    using Plan_with_column[of "\<lambda>_. 0" 4096 "[id_above 4]" demo_group AGG_MIN q0 "''id''"] by (auto simp: demo_columns)
  have num: "column_number (int64_array [Some 7, None, Some 5]) 0 = 7" "column_number (int64_array [Some 7, None, Some 5]) 2 = 5"
    by (simp_all add: column_number_def array_cell_def int64_array_def is_string_type_def)
  have vs: "matched_values demo_batch ''id'' {0, 2} = [7, 5]"
    by (simp add: matched_values_def demo_columns num numeral_3_eq_3 numeral_2_eq_2) (simp add: num flip: numeral_2_eq_2)
  have sm: "sum_column demo_batch ''id'' {0, 2} = 12" by (simp add: sum_column_def demo_columns num)
  obtain res where "ExecuteQueryResult [] q demo_group = Some res" "res_count res = 2" "res_sum res = 12"
      "min_val res = 5" "max_val res = 7" "distinct_count res = 2" "sint (median_val res) = 6"
    using query_result_aggregates[OF demo_stored q _ _ demo_columns(1), of "[]"] demo_exact
    unfolding demo_matching vs sm by (auto simp: int64_array_def is_string_type_def)
  then show ?thesis using q by auto
qed


end
