(* ===== verification/Mem_Table.thy ===== *)
theory Mem_Table
  imports Query_Result
begin

text \<open>
  The memory table of \<open>src/lex/lsm/mem_table.cpp\<close>: the Arrow batches appended since the last
  compaction, and the row-at-a-time evaluation of queries on them. Its lock makes every operation
  atomic. At the end, the two ways to answer a query are compared: the scan of a memory table and
  the scan of the row group the same batch is compacted to.
\<close>

subsection \<open>State and updates\<close>

record mem_table =
  batches :: "record_batch list"
  row_count :: u64
  memory_size :: u64

definition empty_memtable :: mem_table where
  "empty_memtable = \<lparr>batches = [], row_count = 0, memory_size = 0\<rparr>"

definition batch_size :: "record_batch \<Rightarrow> u64" where
  "batch_size batch = (\<Sum>arr\<leftarrow>batch_columns batch. \<Sum>n\<leftarrow>buffer_sizes arr. word_of_nat n)"

text \<open>A null pointer to a batch is ignored.\<close>

definition Append :: "record_batch option \<Rightarrow> mem_table \<Rightarrow> mem_table" where
  "Append b mt = (case b of
     None \<Rightarrow> mt
   | Some batch \<Rightarrow> mt\<lparr>batches := batches mt @ [batch], row_count := row_count mt + word_of_nat (batch_rows batch),
       memory_size := memory_size mt + batch_size batch\<rparr>)"

definition Clear :: "mem_table \<Rightarrow> mem_table" where
  "Clear mt = mt\<lparr>batches := [], row_count := 0, memory_size := 0\<rparr>"

definition GetBatches :: "mem_table \<Rightarrow> record_batch list" where
  "GetBatches mt = batches mt"

definition GetMemorySize :: "mem_table \<Rightarrow> u64" where
  "GetMemorySize mt = memory_size mt"

definition GetRowCount :: "mem_table \<Rightarrow> u64" where
  "GetRowCount mt = row_count mt"

subsection \<open>Matching rows\<close>

definition MatchString :: "string \<Rightarrow> predicate_op \<Rightarrow> string \<Rightarrow> bool" where
  "MatchString val p_op clean_pat = (case p_op of
     EQ \<Rightarrow> val = clean_pat
   | LIKE_PREFIX \<Rightarrow> length clean_pat \<le> length val \<and> take (length clean_pat) val = clean_pat
   | LIKE_CONTAINS \<Rightarrow> contains val clean_pat
   | _ \<Rightarrow> False)"

definition MatchNumeric :: "u64 \<Rightarrow> predicate_op \<Rightarrow> u64 \<Rightarrow> bool" where
  "MatchNumeric val p_op target = (case p_op of
     EQ \<Rightarrow> sint val = sint target
   | GT \<Rightarrow> sint val > sint target
   | LT \<Rightarrow> sint val < sint target
   | _ \<Rightarrow> False)"

text \<open>
  The casts to \<open>StringArray\<close> and \<open>Int64Array\<close> are unchecked: on a column of another type they are
  undefined behaviour, here \<open>None\<close>. The string layout is that of strings and binaries, the integer
  layout that of the two eight-byte integer types.
\<close>

definition as_string_array :: "arrow_array \<Rightarrow> arrow_array option" where
  "as_string_array col = (if is_string_type (type_id col) then Some col else None)"

definition as_int64_array :: "arrow_array \<Rightarrow> arrow_array option" where
  "as_int64_array col = (if type_id col = Type_INT64 \<or> type_id col = Type_UINT64 then Some col else None)"

definition int_value :: "arrow_array \<Rightarrow> nat \<Rightarrow> u64" where
  "int_value arr r = word_of_int (raw_value arr r)"

definition match_cell :: "predicate \<Rightarrow> arrow_array \<Rightarrow> nat \<Rightarrow> bool" where
  "match_cell pred arr r =
     (if is_null arr r then False
      else if is_string pred then MatchString (get_view arr r) (pred_op pred) (clean_pattern (pred_op pred) (pred_value pred))
      else MatchNumeric (int_value arr r) (pred_op pred) (numeric_value pred))"

definition pred_array :: "predicate \<Rightarrow> arrow_array \<Rightarrow> arrow_array option" where
  "pred_array pred col = (if is_string pred then as_string_array col else as_int64_array col)"

text \<open>The loop over the predicates; a missing column fails every row and ends it.\<close>

fun match_predicates :: "record_batch \<Rightarrow> predicate list \<Rightarrow> bool list \<Rightarrow> bool list option" where
  "match_predicates batch [] matches = Some matches"
| "match_predicates batch (pred # preds) matches =
     (case column_by_name batch (pred_column pred) of
        None \<Rightarrow> Some (replicate (length matches) False)
      | Some col \<Rightarrow>
          (case pred_array pred col of
             None \<Rightarrow> None
           | Some arr \<Rightarrow> match_predicates batch preds
               (map (\<lambda>r. if matches ! r then match_cell pred arr r else False) [0..<length matches])))"

definition batch_matches :: "record_batch \<Rightarrow> predicate list \<Rightarrow> bool list option" where
  "batch_matches batch preds = match_predicates batch preds (replicate (batch_rows batch) True)"

subsection \<open>ExecuteQuery\<close>

definition non_null_rows :: "arrow_array \<Rightarrow> bool list \<Rightarrow> nat list" where
  "non_null_rows arr matches = filter (\<lambda>r. matches ! r \<and> \<not> is_null arr r) [0..<length matches]"

definition batch_sum :: "record_batch \<Rightarrow> string \<Rightarrow> bool list \<Rightarrow> u64 option" where
  "batch_sum batch agg matches =
     (if 0 < length (filter id matches) \<and> agg \<noteq> [] then
        (case column_by_name batch agg of
           None \<Rightarrow> Some 0
         | Some col \<Rightarrow> map_option (\<lambda>arr. \<Sum>r\<leftarrow>non_null_rows arr matches. int_value arr r) (as_int64_array col))
      else Some 0)"

fun query_batches :: "predicate list \<Rightarrow> string \<Rightarrow> record_batch list \<Rightarrow> u64 \<times> u64 \<Rightarrow> (u64 \<times> u64) option" where
  "query_batches preds agg [] acc = Some acc"
| "query_batches preds agg (batch # bs) (cnt, agg_sum) =
     (if batch_rows batch = 0 then query_batches preds agg bs (cnt, agg_sum)
      else case batch_matches batch preds of
        None \<Rightarrow> None
      | Some matches \<Rightarrow>
          (case batch_sum batch agg matches of
             None \<Rightarrow> None
           | Some s \<Rightarrow> query_batches preds agg bs
               (cnt + word_of_nat (length (filter id matches)), agg_sum + s)))"

definition ExecuteQuery :: "predicate list \<Rightarrow> string \<Rightarrow> mem_table \<Rightarrow> (u64 \<times> u64) option" where
  "ExecuteQuery preds agg mt = query_batches preds agg (batches mt) (0, 0)"

subsection \<open>ExecuteQueryResult\<close>

text \<open>The matched values of a batch, and whether its aggregated column is a string column.\<close>

definition batch_values :: "record_batch \<Rightarrow> string \<Rightarrow> bool list \<Rightarrow> (u64 list \<times> string list \<times> bool) option" where
  "batch_values batch agg matches =
     (if 0 < length (filter id matches) \<and> agg \<noteq> [] then
        (case column_by_name batch agg of
           None \<Rightarrow> Some ([], [], False)
         | Some col \<Rightarrow>
             if is_string_type (type_id col) then Some ([], map (get_view col) (non_null_rows col matches), True)
             else map_option (\<lambda>arr. (map (int_value arr) (non_null_rows arr matches), [], False)) (as_int64_array col))
      else Some ([], [], False))"

fun value_batches :: "predicate list \<Rightarrow> string \<Rightarrow> record_batch list \<Rightarrow> u64 \<times> u64 list \<times> string list \<times> bool \<Rightarrow>
    (u64 \<times> u64 list \<times> string list \<times> bool) option" where
  "value_batches preds agg [] acc = Some acc"
| "value_batches preds agg (batch # bs) (cnt, nums, strs, is_agg_str) =
     (if batch_rows batch = 0 then value_batches preds agg bs (cnt, nums, strs, is_agg_str)
      else case batch_matches batch preds of
        None \<Rightarrow> None
      | Some matches \<Rightarrow>
          (case batch_values batch agg matches of
             None \<Rightarrow> None
           | Some (ns, ss, str) \<Rightarrow> value_batches preds agg bs
               (cnt + word_of_nat (length (filter id matches)), nums @ ns, strs @ ss, is_agg_str \<or> str)))"

definition ExecuteQueryResult_memtable :: "predicate list \<Rightarrow> string \<Rightarrow> mem_table \<Rightarrow> query_result option" where
  "ExecuteQueryResult_memtable preds agg mt =
     map_option (\<lambda>(cnt, nums, strs, is_agg_str).
       let res = empty_result\<lparr>res_count := cnt, res_sum := sum_list nums\<rparr>
       in if 0 < cnt \<and> agg \<noteq> [] then
            (if is_agg_str then summarise_strings strs res else summarise_numerics nums res)
          else res)
     (value_batches preds agg (batches mt) (0, [], [], False))"

subsection \<open>What a memory table answers\<close>

definition row_matches :: "record_batch \<Rightarrow> predicate \<Rightarrow> nat \<Rightarrow> bool" where
  "row_matches batch pred r = (case column_by_name batch (pred_column pred) of None \<Rightarrow> False | Some c \<Rightarrow> match_cell pred c r)"

definition rows_matching :: "record_batch \<Rightarrow> predicate list \<Rightarrow> nat set" where
  "rows_matching batch preds = {r. r < batch_rows batch \<and> (\<forall>pred\<in>set preds. row_matches batch pred r)}"

text \<open>Queries without an unchecked cast that fails.\<close>

definition well_typed :: "record_batch \<Rightarrow> predicate list \<Rightarrow> string \<Rightarrow> bool" where
  "well_typed batch preds agg \<longleftrightarrow>
     (\<forall>pred\<in>set preds. \<forall>c. column_by_name batch (pred_column pred) = Some c \<longrightarrow> pred_array pred c = Some c) \<and>
     (\<forall>c. column_by_name batch agg = Some c \<longrightarrow> agg = [] \<or> as_int64_array c = Some c)"

lemma match_predicates_eq:
  assumes "\<forall>pred\<in>set preds. \<forall>c. column_by_name batch (pred_column pred) = Some c \<longrightarrow> pred_array pred c = Some c"
  shows "match_predicates batch preds matches =
     Some (map (\<lambda>r. matches ! r \<and> (\<forall>pred\<in>set preds. row_matches batch pred r)) [0..<length matches])"
  using assms
proof (induction preds arbitrary: matches)
  case Nil
  then show ?case by (simp add: map_nth)
next
  case (Cons pred preds)
  then show ?case
    by (cases "column_by_name batch (pred_column pred)")
      (auto simp: row_matches_def map_replicate_const intro!: map_cong)
qed

lemma batch_matches_eq:
  assumes "well_typed batch preds agg"
  shows "Mem_Table.batch_matches batch preds = Some (map (\<lambda>r. r \<in> rows_matching batch preds) [0..<batch_rows batch])"
proof -
  have "match_predicates batch preds (replicate (batch_rows batch) True) = Some (map (\<lambda>r. replicate (batch_rows batch) True ! r \<and>
      (\<forall>pred\<in>set preds. row_matches batch pred r)) [0..<length (replicate (batch_rows batch) True)])"
    by (rule match_predicates_eq) (use assms in \<open>simp add: well_typed_def\<close>)
  then show ?thesis by (simp add: Mem_Table.batch_matches_def rows_matching_def)
qed

lemma rows_matching_less: "rows_matching batch preds \<subseteq> {..<batch_rows batch}"
  by (auto simp: rows_matching_def)

lemma finite_rows_matching [simp]: "finite (rows_matching batch preds)"
  by (rule finite_subset[OF rows_matching_less]) simp

lemma count_rows [simp]:
  "length (filter (\<lambda>r. r \<in> rows_matching batch preds) [0..<batch_rows batch]) = card (rows_matching batch preds)"
  by (subst distinct_length_filter) (use rows_matching_less[of batch preds] in \<open>auto intro!: arg_cong[of _ _ card]\<close>)

lemma no_rows [simp]:
  "filter (\<lambda>r. r \<in> rows_matching batch preds) [0..<batch_rows batch] = [] \<longleftrightarrow> rows_matching batch preds = {}"
  using rows_matching_less[of batch preds] by (auto simp: filter_empty_conv)

lemma count_marked [simp]:
  "length (filter id (map P xs)) = length (filter P xs)" "filter id (map P xs) = [] \<longleftrightarrow> filter P xs = []"
  by (simp_all add: filter_map)

definition sum_matching :: "record_batch \<Rightarrow> string \<Rightarrow> nat set \<Rightarrow> u64" where
  "sum_matching batch agg M = (if agg = [] then 0 else case column_by_name batch agg of
     None \<Rightarrow> 0 | Some c \<Rightarrow> \<Sum>r\<in>{r \<in> M. \<not> is_null c r}. int_value c r)"

lemma sum_matching_empty [simp]: "sum_matching batch agg {} = 0"
  by (simp add: sum_matching_def split: option.split)

lemma non_null_rows_sum:
  assumes "M \<subseteq> {..<n}"
  shows "(\<Sum>r\<leftarrow>non_null_rows arr (map (\<lambda>r. r \<in> M) [0..<n]). h r) = (\<Sum>r\<in>{r \<in> M. \<not> is_null arr r}. h r :: u64)"
proof -
  have "set (non_null_rows arr (map (\<lambda>r. r \<in> M) [0..<n])) = {r \<in> M. \<not> is_null arr r}"
    using assms by (auto simp: non_null_rows_def)
  moreover have "distinct (non_null_rows arr (map (\<lambda>r. r \<in> M) [0..<n]))" by (simp add: non_null_rows_def)
  ultimately show ?thesis by (simp add: sum_list_distinct_conv_sum_set)
qed

lemma batch_sum_eq:
  assumes "well_typed batch preds agg"
  shows "batch_sum batch agg (map (\<lambda>r. r \<in> rows_matching batch preds) [0..<batch_rows batch]) =
     Some (sum_matching batch agg (rows_matching batch preds))"
  using assms non_null_rows_sum[OF rows_matching_less]
  by (auto simp: batch_sum_def sum_matching_def well_typed_def split: option.split)

lemma query_batches_eq:
  assumes "\<forall>batch\<in>set bs. well_typed batch preds agg"
  shows "query_batches preds agg bs (c, s) = Some (c + (\<Sum>batch\<leftarrow>bs. word_of_nat (card (rows_matching batch preds))),
     s + (\<Sum>batch\<leftarrow>bs. sum_matching batch agg (rows_matching batch preds)))"
  using assms
proof (induction bs arbitrary: c s)
  case (Cons batch bs)
  have "batch_rows batch = 0 \<Longrightarrow> rows_matching batch preds = {}" by (simp add: rows_matching_def)
  then show ?case
    using Cons batch_matches_eq[of batch preds agg] batch_sum_eq[of batch preds agg]
    by (auto simp: add.assoc)
qed simp

lemma ExecuteQuery_eq:
  assumes "\<forall>batch\<in>set (batches mt). well_typed batch preds agg"
  shows "ExecuteQuery preds agg mt = Some (\<Sum>batch\<leftarrow>batches mt. word_of_nat (card (rows_matching batch preds)),
     \<Sum>batch\<leftarrow>batches mt. sum_matching batch agg (rows_matching batch preds))"
  by (simp add: ExecuteQuery_def query_batches_eq[OF assms])

subsection \<open>Memory table and row group\<close>

text \<open>
  Where the two evaluations of a predicate agree on a row. The memory table rejects a null, the scan of a row group
  reads the 0 or the empty string that is stored for it; the memory table orders numbers as signed, the scan as
  unsigned. So a null must fail the predicate as 0 or the empty string too, and two numbers to be ordered must have
  the same sign bit.
\<close>

definition agrees_on :: "predicate \<Rightarrow> arrow_array \<Rightarrow> nat \<Rightarrow> bool" where
  "agrees_on pred c r \<longleftrightarrow>
     (if is_null c r then
        (if is_string pred then \<not> string_holds (pred_op pred) (clean_pattern (pred_op pred) (pred_value pred)) []
         else \<not> number_holds (pred_op pred) (numeric_value pred) 0)
      else is_string pred \<or> pred_op pred = EQ \<or> bit (numeric_value pred) 63 = bit (int_value c r) 63)"

text \<open>The operations and column types both evaluations know.\<close>

definition comparable :: "record_batch \<Rightarrow> predicate \<Rightarrow> bool" where
  "comparable batch pred \<longleftrightarrow> exact_predicate batch pred \<and>
     (\<forall>c. column_by_name batch (pred_column pred) = Some c \<longrightarrow>
        is_string pred \<or> as_int64_array c = Some c \<and> pred_op pred \<in> {EQ, GT, LT})"

definition agreeing_predicate :: "record_batch \<Rightarrow> predicate \<Rightarrow> bool" where
  "agreeing_predicate batch pred \<longleftrightarrow> comparable batch pred \<and>
     (\<forall>c. column_by_name batch (pred_column pred) = Some c \<longrightarrow> (\<forall>r<batch_rows batch. agrees_on pred c r))"

lemma sint_split: "sint (w :: u64) = uint w - (if bit w 63 then 2 ^ 64 else 0)"
proof -
  have "signed_take_bit 63 (uint w) = take_bit 64 (uint w) - (if bit (uint w) 63 then 2 ^ 64 else 0)"
    using signed_take_bit_eq_take_bit_minus[of 63 "uint w"] by (auto simp: of_bool_def)
  then show ?thesis by (simp add: sint_uint bit_uint_iff take_bit_int_eq_self uint_lt2p[of w, simplified])
qed

lemma MatchNumeric_unsigned:
  assumes "p_op \<in> {EQ, GT, LT}"
  shows "(MatchNumeric x p_op v \<longleftrightarrow> number_holds p_op v x) \<longleftrightarrow> p_op = EQ \<or> bit v 63 = bit x 63"
proof -
  have "uint w < 2 ^ 64" "0 \<le> uint w" "- (2 ^ 63) \<le> uint w - (if bit w 63 then 2 ^ 64 else 0)"
    "uint w - (if bit w 63 then 2 ^ 64 else 0) < 2 ^ 63" for w :: u64
    using uint_lt2p[of w] sint_range_size[of w] by (simp_all add: sint_split word_size)
  note bounds = this[of v] this[of x]
  show ?thesis
    using assms bounds
    by (cases p_op; cases "bit v 63"; cases "bit x 63")
      (simp_all add: MatchNumeric_def word_less_def sint_split word_uint_eq_iff,
        (use uint_ge_0[of v] uint_ge_0[of x] in linarith)+)
qed

lemma MatchString_holds: "p_op \<in> {EQ, LIKE_PREFIX, LIKE_CONTAINS} \<Longrightarrow> MatchString s p_op pat \<longleftrightarrow> string_holds p_op pat s"
  by (cases p_op) (auto simp: MatchString_def contains_iff prefix_take)

lemma row_matches_iff:
  assumes "comparable batch pred" "column_by_name batch (pred_column pred) = Some c"
  shows "(row_matches batch pred r \<longleftrightarrow> pred_holds batch r pred) \<longleftrightarrow> agrees_on pred c r"
proof -
  have ex: "exact_predicate batch pred" and ty: "is_string pred = is_string_type (type_id c)"
    using assms by (auto simp: comparable_def exact_predicate_def)
  show ?thesis
  proof (cases "is_string pred")
    case True
    have "pred_op pred \<in> {EQ, LIKE_PREFIX, LIKE_CONTAINS}" using exact_known[OF ex] True by (simp add: known_op_def)
    then show ?thesis
      using True assms(2) ty
      by (auto simp: row_matches_def match_cell_def pred_holds_def MatchString_holds column_text_def array_cell_def agrees_on_def)
  next
    case False
    then have a: "as_int64_array c = Some c" "pred_op pred \<in> {EQ, GT, LT}"
      using assms by (auto simp: comparable_def)
    have "type_id c \<noteq> Type_BOOL" using a(1) by (auto simp: as_int64_array_def split: if_splits)
    then have "column_number c r = (if is_null c r then 0 else int_value c r)"
      using False ty by (simp add: column_number_def array_cell_def int_value_def)
    then show ?thesis
      using False assms(2) MatchNumeric_unsigned[OF a(2), of "int_value c r" "numeric_value pred"]
      by (auto simp: row_matches_def match_cell_def pred_holds_def agrees_on_def)
  qed
qed

lemma row_matches_agrees:
  assumes "agreeing_predicate batch pred" "r < batch_rows batch"
  shows "row_matches batch pred r \<longleftrightarrow> pred_holds batch r pred"
proof -
  obtain c where "column_by_name batch (pred_column pred) = Some c"
    using assms(1) by (auto simp: agreeing_predicate_def comparable_def exact_predicate_def split: option.splits)
  then show ?thesis using row_matches_iff[of batch pred c r] assms by (auto simp: agreeing_predicate_def)
qed

definition undeleted :: "record_batch \<Rightarrow> row_group \<Rightarrow> bool" where
  "undeleted batch rg \<longleftrightarrow> (\<forall>k<batch_rows batch. live_row rg k)"

lemma matching_rows_agree:
  assumes "\<forall>pred\<in>set preds. agreeing_predicate batch pred" "undeleted batch rg"
  shows "matching_rows batch rg preds = rows_matching batch preds"
  using assms row_matches_agrees by (auto simp: matching_rows_def rows_matching_def undeleted_def)

lemma sums_agree:
  assumes "as_int64_array c = Some c" "finite M"
  shows "(\<Sum>k\<in>M. column_number c k) = (\<Sum>r\<in>{r \<in> M. \<not> is_null c r}. int_value c r)"
proof -
  have "\<not> is_string_type (type_id c)" "type_id c \<noteq> Type_BOOL"
    using assms(1) by (auto simp: as_int64_array_def is_string_type_def split: if_splits)
  then have "column_number c k = (if is_null c k then 0 else int_value c k)" for k
    by (simp add: column_number_def array_cell_def int_value_def)
  then show ?thesis using assms(2) by (simp add: sum.If_cases Int_def)
qed

subsection \<open>A one-column batch for the witnesses\<close>

definition ids_batch :: "int option list \<Rightarrow> record_batch" where
  "ids_batch xs = batch_of (length xs) [(''id'', int64_array xs)]"

definition ids_group :: "int option list \<Rightarrow> row_group" where
  "ids_group xs = with_deletes (case Ingest (ids_batch xs) of Inr rg \<Rightarrow> rg | Inl _ \<Rightarrow> undefined) (\<lambda>_. - 1)"

lemma ids_stored: "length xs < 2 ^ 63 \<Longrightarrow> stored (ids_batch xs) (ids_group xs)"
proof -
  assume "length xs < 2 ^ 63"
  then have ab: "arrow_batch (ids_batch xs)" unfolding ids_batch_def by (rule arrow_batch_of) simp
  have sup: "\<forall>c\<in>set (batch_columns (ids_batch xs)). supported_type (type_id c)"
    by (simp add: ids_batch_def batch_of_def int64_array_def supported_type_def supported_int_type_def is_string_type_def)
  have "block_strings (ids_batch xs) b = []" for b
    by (simp add: ids_batch_def block_strings_def batch_of_def column_strings_def int64_array_def is_string_type_def)
  moreover have "plain_schema (schema_fields (ids_batch xs))" "length (physical_names (schema_fields (ids_batch xs))) < 2 ^ 32"
    by (simp_all add: ids_batch_def batch_of_def int64_array_def plain_schema_def is_string_type_def)
  ultimately show ?thesis using ab sup by (auto simp: stored_def ids_group_def Ingest_eq[OF ab sup])
qed

lemma ids_columns:
  "column_by_name (ids_batch xs) ''id'' = Some (int64_array xs)" "batch_rows (ids_batch xs) = length xs"
  by (simp_all add: ids_batch_def batch_of_def)

lemma ids_names: "length xs < 2 ^ 63 \<Longrightarrow> column_names (ids_group xs) = [''id'']"
  using storedD(6)[OF ids_stored, of xs] by (simp add: ids_batch_def batch_of_def int64_array_def is_string_type_def)

lemma ids_undeleted: "length xs < 2 ^ 63 \<Longrightarrow> undeleted (ids_batch xs) (ids_group xs)"
proof -
  assume l: "length xs < 2 ^ 63"
  have "delete_mask (blocks (ids_group xs) ! b) = - 1" if "b < length (blocks (ids_group xs))" for b
    using that by (simp add: ids_group_def with_deletes_def)
  moreover have "k div 64 < length (blocks (ids_group xs))" if "k < length xs" for k
    using that storedD(9)[OF ids_stored[OF l]] unfolding ids_columns block_total_def by linarith
  ultimately show ?thesis by (simp add: undeleted_def ids_columns live_row_def)
qed

lemma ids_plan: "length xs < 2 ^ 63 \<Longrightarrow> \<exists>q. Plan (\<lambda>_. 0) 4096 [id_above v] (ids_group xs) [] AGG_COUNT = Inr q"
  by (subst numeric_plan_iff) (simp_all add: ids_names id_above_def)

lemma ids_exact: "exact_predicate (ids_batch xs) (id_above v)"
  by (simp add: exact_predicate_def id_above_def ids_columns int64_array_def is_string_type_def)

subsection \<open>Properties\<close>

text \<open>
  Property C16. Where a row lives makes no difference to a query as long as the two evaluations agree on its cells. For
  predicates that agree on every row of a batch (\<open>agreeing_predicate\<close>: exact patterns, eight-byte integers, no null that
  would match as 0 or as the empty string, no order between numbers of different sign bits), for an eight-byte integer
  column to sum, and as long as no row is deleted, the scan of a memory table that holds the batch and the scan of the
  row group the batch was ingested to return the same count and the same sum.
\<close>

theorem memtable_agrees_with_row_group:
  assumes "stored batch rg" "undeleted batch rg" "Plan rt_add helper preds rg agg kind = Inr q"
    and "\<forall>pred\<in>set preds. agreeing_predicate batch pred"
    and "agg = [] \<or> (\<exists>c. column_by_name batch agg = Some c \<and> as_int64_array c = Some c)"
  shows "ExecuteQuery preds agg (Append (Some batch) empty_memtable) = Execute beyond q rg"
proof -
  have ex: "\<forall>pred\<in>set preds. exact_predicate batch pred" using assms(4) by (simp add: agreeing_predicate_def comparable_def)
  have agg: "agg = [] \<or> (\<exists>c. column_by_name batch agg = Some c \<and> \<not> is_string_type (type_id c))"
    using assms(5) by (auto simp: as_int64_array_def is_string_type_def split: if_splits)
  have M: "matching_rows batch rg preds = rows_matching batch preds" by (rule matching_rows_agree[OF assms(4,2)])
  have scan: "Execute beyond q rg = Some (word_of_nat (card (rows_matching batch preds)),
      if agg = [] then 0 else sum_column batch agg (rows_matching batch preds))"
    using Execute_stored[OF assms(1,3) _ agg, of beyond] selected_exact[OF assms(1) ex] exact_sane ex M by auto
  have "pred_array pred c = Some c" if "pred \<in> set preds" "column_by_name batch (pred_column pred) = Some c" for pred c
  proof -
    have "agreeing_predicate batch pred" using assms(4) that(1) by blast
    then show ?thesis
      using that(2) by (auto simp: agreeing_predicate_def comparable_def exact_predicate_def pred_array_def as_string_array_def split: if_splits)
  qed
  then have "well_typed batch preds agg" using assms(5) by (auto simp: well_typed_def)
  moreover have "sum_matching batch agg (rows_matching batch preds) = (if agg = [] then 0 else sum_column batch agg (rows_matching batch preds))"
    using assms(5) sums_agree[OF _ finite_rows_matching] by (auto simp: sum_matching_def sum_column_def)
  ultimately show ?thesis by (simp add: ExecuteQuery_eq Append_def empty_memtable_def scan)
qed

theorem memtable_agrees_with_row_group_witness:
  "\<exists>q. Plan (\<lambda>_. 0) 4096 [id_above 4] (ids_group [Some 7, None, Some 3]) [] AGG_COUNT = Inr q \<and>
     ExecuteQuery [id_above 4] [] (Append (Some (ids_batch [Some 7, None, Some 3])) empty_memtable) =
       Execute [] q (ids_group [Some 7, None, Some 3])"
proof -
  let ?xs = "[Some 7, None, Some 3]"
  obtain q where q: "Plan (\<lambda>_. 0) 4096 [id_above 4] (ids_group ?xs) [] AGG_COUNT = Inr q"
    using ids_plan[of ?xs] by auto
  have "agrees_on (id_above 4) (int64_array ?xs) r" if "r < 3" for r
    using that by (auto simp: agrees_on_def id_above_def int_value_def int64_array_def less_Suc_eq numeral_3_eq_3)
  then have "agreeing_predicate (ids_batch ?xs) (id_above 4)"
    by (simp add: agreeing_predicate_def comparable_def ids_exact) (simp add: id_above_def ids_columns as_int64_array_def int64_array_def)
  then show ?thesis
    using q memtable_agrees_with_row_group[OF ids_stored ids_undeleted q] by auto
qed

text \<open>
  Property C17. And where it does make a difference. For one predicate on an eight-byte integer column of any batch, the
  memory table counts the rows that are not null and compare as signed numbers, the JIT scan of the ingested batch counts
  the rows that compare as unsigned numbers with nulls read as 0, and the two differ on exactly these rows: a null
  if 0 satisfies the predicate, and a number whose sign bit is not that of the threshold, unless the predicate is an
  equality. The witness asks for values above 5: the memory table finds no row in the column -1, null, 3, and the
  same rows after ingestion contain one.
\<close>

theorem numeric_paths_differ_exactly:
  assumes "stored batch rg" "undeleted batch rg" "Plan rt_add helper [pred] rg [] kind = Inr q"
    and "\<not> is_string pred" "pred_op pred \<in> {EQ, GT, LT}" "length (pred_value pred) < 2 ^ 63"
    and "column_by_name batch (pred_column pred) = Some c" "as_int64_array c = Some c"
  shows "\<exists>mem scan. ExecuteQuery [pred] [] (Append (Some batch) empty_memtable) = Some (word_of_nat (card mem), 0) \<and>
     Execute beyond q rg = Some (word_of_nat (card scan), 0) \<and>
     mem = {r. r < batch_rows batch \<and> \<not> is_null c r \<and> MatchNumeric (int_value c r) (pred_op pred) (numeric_value pred)} \<and>
     scan = {r. r < batch_rows batch \<and> number_holds (pred_op pred) (numeric_value pred) (if is_null c r then 0 else int_value c r)} \<and>
     (\<forall>r<batch_rows batch. (r \<in> mem) \<noteq> (r \<in> scan) \<longleftrightarrow>
        (if is_null c r then number_holds (pred_op pred) (numeric_value pred) 0
         else pred_op pred \<noteq> EQ \<and> bit (numeric_value pred) 63 \<noteq> bit (int_value c r) 63))"
proof -
  let ?mem = "rows_matching batch [pred]" and ?scan = "matching_rows batch rg [pred]"
  have ty: "\<not> is_string_type (type_id c)" "type_id c \<noteq> Type_BOOL"
    using assms(8) by (auto simp: as_int64_array_def is_string_type_def split: if_splits)
  have num: "column_number c r = (if is_null c r then 0 else int_value c r)" for r
    using ty by (simp add: column_number_def array_cell_def int_value_def)
  have ex: "exact_predicate batch pred" using assms(4,6,7) ty by (simp add: exact_predicate_def)
  then have cmp: "comparable batch pred" using assms(4,5,7,8) by (simp add: comparable_def)
  have "Execute beyond q rg = Some (word_of_nat (card ?scan), 0)"
    using Execute_stored[OF assms(1,3), of beyond] selected_exact[OF assms(1), of "[pred]"] exact_sane ex by simp
  moreover have "well_typed batch [pred] []" using assms(4,7,8) by (auto simp: well_typed_def pred_array_def)
  then have "ExecuteQuery [pred] [] (Append (Some batch) empty_memtable) = Some (word_of_nat (card ?mem), 0)"
    by (simp add: ExecuteQuery_eq Append_def empty_memtable_def sum_matching_def)
  moreover have mem: "?mem = {r. r < batch_rows batch \<and> \<not> is_null c r \<and> MatchNumeric (int_value c r) (pred_op pred) (numeric_value pred)}"
    using assms(4,7) by (auto simp: rows_matching_def row_matches_def match_cell_def)
  moreover have scan: "?scan = {r. r < batch_rows batch \<and> number_holds (pred_op pred) (numeric_value pred) (if is_null c r then 0 else int_value c r)}"
    using assms(2,4,7) by (auto simp: matching_rows_def undeleted_def pred_holds_def num)
  moreover have "(r \<in> ?mem) \<noteq> (r \<in> ?scan) \<longleftrightarrow>
      (if is_null c r then number_holds (pred_op pred) (numeric_value pred) 0
       else pred_op pred \<noteq> EQ \<and> bit (numeric_value pred) 63 \<noteq> bit (int_value c r) 63)" if "r < batch_rows batch" for r
  proof -
    have "(r \<in> ?mem) \<noteq> (r \<in> ?scan) \<longleftrightarrow> \<not> agrees_on pred c r"
      using row_matches_iff[OF cmp assms(7), of r] assms(2) that by (auto simp: rows_matching_def matching_rows_def undeleted_def)
    then show ?thesis using assms(4) by (simp add: agrees_on_def)
  qed
  ultimately show ?thesis by blast
qed

theorem numeric_paths_differ_exactly_witness:
  "\<exists>q. Plan (\<lambda>_. 0) 4096 [id_above 5] (ids_group [Some (-1), None, Some 3]) [] AGG_COUNT = Inr q \<and>
     ExecuteQuery [id_above 5] [] (Append (Some (ids_batch [Some (-1), None, Some 3])) empty_memtable) = Some (0, 0) \<and>
     Execute [] q (ids_group [Some (-1), None, Some 3]) = Some (1, 0)"
proof -
  let ?xs = "[Some (-1), None, Some 3]" and ?c = "int64_array [Some (-1), None, Some 3]"
  obtain q where q: "Plan (\<lambda>_. 0) 4096 [id_above 5] (ids_group ?xs) [] AGG_COUNT = Inr q"
    using ids_plan[of ?xs] by auto
  have three: "r < 3 \<longleftrightarrow> r = 0 \<or> r = Suc 0 \<or> r = 2" for r :: nat by auto
  have mem: "{r. r < 3 \<and> \<not> is_null ?c r \<and> MatchNumeric (int_value ?c r) (pred_op (id_above 5)) (numeric_value (id_above 5))} = {}"
  proof -
    have "is_null ?c r \<or> \<not> MatchNumeric (int_value ?c r) (pred_op (id_above 5)) (numeric_value (id_above 5))" if "r < 3" for r
      using that unfolding three by (elim disjE) (simp_all add: id_above_def MatchNumeric_def int_value_def int64_array_def)
    then show ?thesis by blast
  qed
  have scan: "{r. r < 3 \<and> number_holds (pred_op (id_above 5)) (numeric_value (id_above 5)) (if is_null ?c r then 0 else int_value ?c r)} = {0}"
  proof -
    have "number_holds (pred_op (id_above 5)) (numeric_value (id_above 5)) (if is_null ?c r then 0 else int_value ?c r) \<longleftrightarrow> r = 0"
      if "r < 3" for r
      using that unfolding three by (elim disjE) (simp_all add: id_above_def int_value_def int64_array_def)
    then show ?thesis by (intro set_eqI) (metis (no_types, lifting) mem_Collect_eq singleton_iff zero_less_numeral)
  qed
  have p: "\<not> is_string (id_above 5)" "pred_op (id_above 5) \<in> {EQ, GT, LT}" "length (pred_value (id_above 5)) < 2 ^ 63"
      "column_by_name (ids_batch ?xs) (pred_column (id_above 5)) = Some ?c" "as_int64_array ?c = Some ?c"
    by (simp_all add: id_above_def ids_columns as_int64_array_def int64_array_def)
  have len: "length ?xs < 2 ^ 63" "batch_rows (ids_batch ?xs) = 3" by (simp_all add: ids_columns)
  show ?thesis
    using numeric_paths_differ_exactly[OF ids_stored[OF len(1)] ids_undeleted[OF len(1)] q p, of "[]", unfolded len(2) mem scan] q by auto
qed

end
