(* ===== verification/Registry.thy ===== *)
theory Registry
  imports Mem_Table
begin

text \<open>
  The tables of a node: \<open>MetadataRegistry\<close> (\<open>src/lex/lsm/metadata_registry.cpp\<close>) and the global
  backplane \<open>GlobalMetadata\<close> (\<open>src/lex/distributed/global_metadata.cpp\<close>). A \<open>TableState\<close> is a
  snapshot that is never changed once published, but the row groups and memory tables it points to
  are shared by all snapshots and are changed in place: a deletion clears a bit of a shared row
  group, an insertion appends to a shared memory table. They therefore live in a store, and a
  \<open>shared_ptr\<close> is an address of the store (a position of the list). Both registries are singletons
  with a lock per call.
\<close>

subsection \<open>The store\<close>

record table_state =
  table_name :: string
  table_columns :: "string list"
  table_types :: "u32 list"
  persisted_groups :: "nat list"
  active_memtable :: "nat option"
  frozen_memtable :: "nat option"
  version :: u64

record node =
  groups :: "row_group list"
  memtables :: "mem_table list"
  tables :: "string \<rightharpoonup> table_state"
  global_tables :: "string \<rightharpoonup> table_state"

definition empty_node :: node where
  "empty_node = \<lparr>groups = [], memtables = [], tables = Map.empty, global_tables = Map.empty\<rparr>"

text \<open>\<open>std::make_shared<MemTable>()\<close> and \<open>std::make_shared<RowGroup>(rg)\<close>.\<close>

definition new_memtable :: "node \<Rightarrow> nat \<times> node" where
  "new_memtable s = (length (memtables s), s\<lparr>memtables := memtables s @ [empty_memtable]\<rparr>)"

definition new_group :: "row_group \<Rightarrow> node \<Rightarrow> nat \<times> node" where
  "new_group rg s = (length (groups s), s\<lparr>groups := groups s @ [rg]\<rparr>)"

text \<open>What an operation may end with instead of returning; the last three are undefined behaviour.\<close>

datatype table_error = Table_not_registered string | Null_dereference | Out_of_bounds | Bad_cast

subsection \<open>MetadataRegistry\<close>

definition GetTableState :: "string \<Rightarrow> node \<Rightarrow> table_state option" where
  "GetTableState name s = tables s name"

definition UpdateTableState :: "string \<Rightarrow> table_state \<Rightarrow> node \<Rightarrow> node" where
  "UpdateTableState name new_state s = s\<lparr>tables := (tables s)(name \<mapsto> new_state)\<rparr>"

definition first_state :: "string \<Rightarrow> string list \<Rightarrow> u32 list \<Rightarrow> nat \<Rightarrow> table_state" where
  "first_state name cols types m = \<lparr>table_name = name, table_columns = cols, table_types = types, persisted_groups = [],
     active_memtable = Some m, frozen_memtable = None, version = 1\<rparr>"

definition RegisterTable :: "string \<Rightarrow> string list \<Rightarrow> u32 list \<Rightarrow> node \<Rightarrow> node" where
  "RegisterTable name cols types s =
     (case new_memtable s of (m, s1) \<Rightarrow> s1\<lparr>tables := (tables s1)(name \<mapsto> first_state name cols types m)\<rparr>)"

text \<open>\<open>InsertBatch\<close> reads the snapshot under the lock and appends outside of it.\<close>

definition append_to :: "nat \<Rightarrow> record_batch option \<Rightarrow> node \<Rightarrow> node" where
  "append_to m batch s = s\<lparr>memtables := (memtables s)[m := Append batch (memtables s ! m)]\<rparr>"

definition InsertBatch :: "string \<Rightarrow> record_batch option \<Rightarrow> node \<Rightarrow> table_error + node" where
  "InsertBatch name batch s = (case GetTableState name s of
     None \<Rightarrow> Inl (Table_not_registered name)
   | Some st \<Rightarrow>
       (case active_memtable st of
          None \<Rightarrow> Inl Null_dereference
        | Some m \<Rightarrow> Inr (append_to m batch s)))"

text \<open>\<open>delete_mask &= ~(1ULL << bit_idx)\<close>\<close>

definition clear_bit :: "nat \<Rightarrow> block_data \<Rightarrow> block_data" where
  "clear_bit bit_idx blk = blk\<lparr>delete_mask := delete_mask blk AND NOT (push_bit bit_idx 1)\<rparr>"

definition delete_local :: "u64 \<Rightarrow> row_group \<Rightarrow> table_error + row_group" where
  "delete_local local_idx rg =
     (let block_idx = unat (local_idx div 64); bit_idx = unat (local_idx mod 64)
      in if block_idx < length (blocks rg)
         then Inr (rg\<lparr>blocks := (blocks rg)[block_idx := clear_bit bit_idx (blocks rg ! block_idx)]\<rparr>)
         else Inl Out_of_bounds)"

fun delete_in :: "u64 \<Rightarrow> nat list \<Rightarrow> u64 \<Rightarrow> row_group list \<Rightarrow> table_error + row_group list" where
  "delete_in idx [] current_base gs = Inr gs"
| "delete_in idx (g # rest) current_base gs =
     (if current_base \<le> idx \<and> idx < current_base + num_rows (gs ! g)
      then ebind (delete_local (idx - current_base) (gs ! g)) (\<lambda>rg. Inr (gs[g := rg]))
      else delete_in idx rest (current_base + num_rows (gs ! g)) gs)"

definition DeleteRow :: "string \<Rightarrow> u64 \<Rightarrow> node \<Rightarrow> table_error + node" where
  "DeleteRow name global_row_idx s = (case GetTableState name s of
     None \<Rightarrow> Inl (Table_not_registered name)
   | Some st \<Rightarrow> ebind (delete_in global_row_idx (persisted_groups st) 0 (groups s)) (\<lambda>gs. Inr (s\<lparr>groups := gs\<rparr>)))"

subsection \<open>GlobalMetadata\<close>

definition GlobalRegisterTable :: "string \<Rightarrow> string list \<Rightarrow> u32 list \<Rightarrow> node \<Rightarrow> node" where
  "GlobalRegisterTable name cols types s =
     (case new_memtable s of (m, s1) \<Rightarrow>
        RegisterTable name cols types (s1\<lparr>global_tables := (global_tables s1)(name \<mapsto> first_state name cols types m)\<rparr>))"

definition GetGlobalState :: "string \<Rightarrow> node \<Rightarrow> table_state option" where
  "GetGlobalState name s = global_tables s name"

definition UpdateGlobalState :: "string \<Rightarrow> table_state \<Rightarrow> node \<Rightarrow> node" where
  "UpdateGlobalState name new_state s = s\<lparr>global_tables := (global_tables s)(name \<mapsto> new_state)\<rparr>"

definition SyncLocalNode :: "string \<Rightarrow> node \<Rightarrow> node" where
  "SyncLocalNode name s = (case global_tables s name of
     None \<Rightarrow> s
   | Some global_state \<Rightarrow> UpdateTableState name global_state s)"

definition GlobalClear :: "node \<Rightarrow> node" where
  "GlobalClear s = s\<lparr>global_tables := Map.empty\<rparr>"

subsection \<open>Both registries are catalogs\<close>

text \<open>What their clients rely on: publishing a state of one table is seen by the next lookup of that table and by no other.\<close>

locale table_catalog =
  fixes lookup :: "string \<Rightarrow> 's \<Rightarrow> table_state option"
    and publish :: "string \<Rightarrow> table_state \<Rightarrow> 's \<Rightarrow> 's"
  assumes lookup_publish: "lookup name (publish name st s) = Some st"
    and lookup_other: "name \<noteq> name' \<Longrightarrow> lookup name' (publish name st s) = lookup name' s"
begin

definition publish_all :: "(string \<times> table_state) list \<Rightarrow> 's \<Rightarrow> 's" where
  "publish_all sts = fold (\<lambda>(name, st). publish name st) sts"

lemma lookup_publish_iff: "lookup name (publish name' st s) = (if name = name' then Some st else lookup name s)"
  using lookup_publish lookup_other by metis

text \<open>The last publication of a name wins.\<close>

lemma lookup_publish_all:
  "lookup name (publish_all sts s) = (case map_of (rev sts) name of Some st \<Rightarrow> Some st | None \<Rightarrow> lookup name s)"
  by (induction sts arbitrary: s) (auto simp: publish_all_def lookup_publish_iff map_add_def split: option.split)

end

interpretation local: table_catalog GetTableState UpdateTableState
  by unfold_locales (simp_all add: GetTableState_def UpdateTableState_def)

interpretation backplane: table_catalog GetGlobalState UpdateGlobalState
  by unfold_locales (simp_all add: GetGlobalState_def UpdateGlobalState_def)

end
