(* ===== verification/Table_Query.thy ===== *)
theory Table_Query
  imports Registry
begin

text \<open>
  Queries on a whole table: \<open>QueryRunner::Execute\<close> and \<open>QueryRunner::ExecuteQueryResult\<close> on a
  \<open>TableState\<close> (\<open>src/lex/jit/query_planner.cpp\<close>), which add up the persisted row groups, the
  active and the frozen memory table, and the access counters of \<open>src/lex/lsm/promotion_daemon.cpp\<close>
  that every such query bumps.
\<close>

subsection \<open>Access counters\<close>

type_synonym counters = "string \<rightharpoonup> u64"

definition GetColumnAccessCount :: "string \<Rightarrow> counters \<Rightarrow> u64" where
  "GetColumnAccessCount col c = (case c col of Some n \<Rightarrow> n | None \<Rightarrow> 0)"

text \<open>Returns whether the promotion request is broadcast.\<close>

definition RecordColumnAccess :: "string \<Rightarrow> counters \<Rightarrow> bool \<times> counters" where
  "RecordColumnAccess col c = (let n = GetColumnAccessCount col c + 1 in (n = 6, c(col \<mapsto> n)))"

definition ClearColumnAccessCounts :: "counters \<Rightarrow> counters" where
  "ClearColumnAccessCounts c = Map.empty"

text \<open>The columns a query records, in order.\<close>

definition record_query :: "query_runner \<Rightarrow> counters \<Rightarrow> counters" where
  "record_query q c = fold (\<lambda>col c. snd (RecordColumnAccess col c))
     (map pred_column (all_predicates q) @ (if agg_col_name q = [] then [] else [agg_col_name q])) c"

subsection \<open>Execute on a table\<close>

definition add_scan :: "(u64 \<times> u64) option \<Rightarrow> (u64 \<times> u64) option \<Rightarrow> (u64 \<times> u64) option" where
  "add_scan acc scan = (case (acc, scan) of
     (Some (total_matches, out_agg_sum), Some (matches, local_sum)) \<Rightarrow> Some (total_matches + matches, out_agg_sum + local_sum)
   | _ \<Rightarrow> None)"

definition scan_memtable :: "query_runner \<Rightarrow> node \<Rightarrow> nat option \<Rightarrow> (u64 \<times> u64) option" where
  "scan_memtable q s m = (case m of
     None \<Rightarrow> Some (0, 0)
   | Some a \<Rightarrow> ExecuteQuery (all_predicates q) (agg_col_name q) (memtables s ! a))"

definition ExecuteTable :: "bytes \<Rightarrow> query_runner \<Rightarrow> table_state \<Rightarrow> node \<Rightarrow> (u64 \<times> u64) option" where
  "ExecuteTable beyond q st s =
     (let groups_scanned = fold (\<lambda>g acc. add_scan acc (Execute beyond q (groups s ! g))) (persisted_groups st) (Some (0, 0))
      in add_scan (add_scan groups_scanned (scan_memtable q s (active_memtable st))) (scan_memtable q s (frozen_memtable st)))"

subsection \<open>ExecuteQueryResult on a table\<close>

type_synonym merging = "query_result \<times> bool \<times> u64 list \<times> string list"

definition merge_step :: "query_result \<Rightarrow> merging \<Rightarrow> merging" where
  "merge_step r acc = (case acc of (merged0, first, all_numerics, all_strings) \<Rightarrow>
     let merged = merged0\<lparr>res_count := res_count merged0 + res_count r, res_sum := res_sum merged0 + res_sum r\<rparr>
     in if 0 < res_count r then
          (if first then merged\<lparr>min_val := min_val r, max_val := max_val r\<rparr>
           else merged\<lparr>min_val := (if sint (min_val r) < sint (min_val merged) then min_val r else min_val merged),
                  max_val := (if sint (max_val r) > sint (max_val merged) then max_val r else max_val merged)\<rparr>,
           False, all_numerics @ distinct_numerics r, all_strings @ distinct_strings r)
        else (merged, first, all_numerics, all_strings))"

definition merge_results :: "bool \<Rightarrow> query_result list \<Rightarrow> query_result" where
  "merge_results is_str results =
     (case fold merge_step results (empty_result, True, [], []) of (merged, first, all_numerics, all_strings) \<Rightarrow>
        if 0 < res_count merged then
          (if \<not> is_str then
             (let merged1 = (if all_numerics = [] then merged else merged\<lparr>avg := Some (res_sum merged, length all_numerics)\<rparr>);
                  merged2 = merged1\<lparr>distinct_count := word_of_nat (length (remdups all_numerics)),
                    distinct_numerics := remdups all_numerics\<rparr>
              in if all_numerics = [] then merged2 else merged2\<lparr>median_val := median_of all_numerics\<rparr>)
           else merged\<lparr>distinct_count := word_of_nat (length (remdups all_strings)),
                  distinct_strings := remdups all_strings\<rparr>)
        else merged)"

definition result_is_string :: "query_runner \<Rightarrow> table_state \<Rightarrow> node \<Rightarrow> bool" where
  "result_is_string q st s \<longleftrightarrow> agg_col_idx q \<noteq> -1 \<and>
     (if persisted_groups st \<noteq> [] \<and>
         column_types (groups s ! hd (persisted_groups st)) ! nat (agg_col_idx q) = Type_STRING then True
      else case active_memtable st of
        None \<Rightarrow> False
      | Some m \<Rightarrow>
          (case GetBatches (memtables s ! m) of
             [] \<Rightarrow> False
           | batch # _ \<Rightarrow>
               (case column_by_name batch (agg_col_name q) of
                  None \<Rightarrow> False
                | Some col \<Rightarrow> is_string_type (type_id col))))"

definition optional :: "'a option \<Rightarrow> 'a list" where
  "optional x = (case x of None \<Rightarrow> [] | Some a \<Rightarrow> [a])"

definition table_results :: "bytes \<Rightarrow> query_runner \<Rightarrow> table_state \<Rightarrow> node \<Rightarrow> query_result option list" where
  "table_results beyond q st s =
     map (\<lambda>g. ExecuteQueryResult beyond q (groups s ! g)) (persisted_groups st) @
     map (\<lambda>m. ExecuteQueryResult_memtable (all_predicates q) (agg_col_name q) (memtables s ! m))
       (optional (active_memtable st) @ optional (frozen_memtable st))"

definition ExecuteQueryResultTable ::
  "bytes \<Rightarrow> query_runner \<Rightarrow> table_state \<Rightarrow> node \<Rightarrow> counters \<Rightarrow> query_result option \<times> counters" where
  "ExecuteQueryResultTable beyond q st s c =
     (if None \<in> set (table_results beyond q st s) then None
      else Some (merge_results (result_is_string q st s) (map the (table_results beyond q st s))),
      record_query q c)"

subsection \<open>The counters\<close>

lemma count_after_record: "GetColumnAccessCount col' (snd (RecordColumnAccess col c)) =
    GetColumnAccessCount col' c + (if col' = col then 1 else 0)"
  by (simp add: RecordColumnAccess_def GetColumnAccessCount_def Let_def)

lemma count_after_records: "GetColumnAccessCount col (fold (\<lambda>x c. snd (RecordColumnAccess x c)) xs c) =
    GetColumnAccessCount col c + word_of_nat (count_list xs col)"
  by (induction xs arbitrary: c) (auto simp: count_after_record)

lemma record_query_counts:
  "GetColumnAccessCount col (record_query q c) = GetColumnAccessCount col c +
     word_of_nat (count_list (map pred_column (all_predicates q) @ (if agg_col_name q = [] then [] else [agg_col_name q])) col)"
  unfolding record_query_def by (rule count_after_records)

subsection \<open>Counting over a table\<close>

lemma scan_memtable_eq:
  assumes "\<forall>m\<in>set (optional a). \<forall>batch\<in>set (batches (memtables s ! m)). well_typed batch (all_predicates q) (agg_col_name q)"
  shows "scan_memtable q s a = Some
     (\<Sum>m\<leftarrow>optional a. \<Sum>batch\<leftarrow>batches (memtables s ! m). word_of_nat (card (rows_matching batch (all_predicates q))),
      \<Sum>m\<leftarrow>optional a. \<Sum>batch\<leftarrow>batches (memtables s ! m). sum_matching batch (agg_col_name q) (rows_matching batch (all_predicates q)))"
  using assms by (cases a) (simp_all add: scan_memtable_def optional_def ExecuteQuery_eq)

lemma Plan_query:
  assumes "Plan rt_add helper preds rg agg kind = Inr q"
  shows "all_predicates q = preds" "agg_col_name q = agg"
proof -
  obtain st where st: "plan_predicates rg preds empty_plan = Inr st"
    using assms unfolding Plan_def ebind_eq_Inr by blast
  obtain ops where ops: "final_ops st = Some ops"
    using assms by (cases "final_ops st") (auto simp: Plan_def st)
  show "all_predicates q = preds" "agg_col_name q = agg"
    using assms by (cases "Compile rt_add helper ops"; auto simp: Plan_def st ops ebind_eq_Inr split: if_splits)+
qed

text \<open>The batches of the memory tables of a table: the active ones, then the frozen ones.\<close>

definition memory_batches :: "table_state \<Rightarrow> node \<Rightarrow> record_batch list" where
  "memory_batches st s = concat (map (\<lambda>m. batches (memtables s ! m)) (optional (active_memtable st) @ optional (frozen_memtable st)))"

lemma sum_memory:
  "(\<Sum>m\<leftarrow>optional (active_memtable st). \<Sum>batch\<leftarrow>batches (memtables s ! m). f batch) +
   (\<Sum>m\<leftarrow>optional (frozen_memtable st). \<Sum>batch\<leftarrow>batches (memtables s ! m). f batch) = (\<Sum>batch\<leftarrow>memory_batches st s. f batch :: u64)"
  by (cases "active_memtable st"; cases "frozen_memtable st") (simp_all add: memory_batches_def optional_def)

text \<open>
  Property C18. A query on a table counts every row once, wherever it lives: for a table with one row group
  that stores a batch, on which the query was planned, and any memory tables, \<open>Execute\<close> returns
  the matching live rows of the row group plus the matching rows of the batches in the active and
  the frozen memory table, and likewise for the sums.
\<close>

theorem table_query_counts:
  assumes "persisted_groups st = [g]" "stored stored_batch (groups s ! g)"
    and "Plan rt_add helper preds (groups s ! g) agg kind = Inr q" "\<forall>pred\<in>set preds. exact_predicate stored_batch pred"
    and "agg = [] \<or> (\<exists>c. column_by_name stored_batch agg = Some c \<and> \<not> is_string_type (type_id c))"
    and "\<forall>batch\<in>set (memory_batches st s). well_typed batch preds agg"
  shows "ExecuteTable beyond q st s = Some
     (word_of_nat (card (matching_rows stored_batch (groups s ! g) preds)) +
        (\<Sum>batch\<leftarrow>memory_batches st s. word_of_nat (card (rows_matching batch preds))),
      (if agg = [] then 0 else sum_column stored_batch agg (matching_rows stored_batch (groups s ! g) preds)) +
        (\<Sum>batch\<leftarrow>memory_batches st s. sum_matching batch agg (rows_matching batch preds)))"
proof -
  have "Execute beyond q (groups s ! g) = Some (word_of_nat (card (matching_rows stored_batch (groups s ! g) preds)),
      if agg = [] then 0 else sum_column stored_batch agg (matching_rows stored_batch (groups s ! g) preds))"
    using Execute_stored[OF assms(2,3) _ assms(5), of beyond] exact_sane selected_exact[OF assms(2,4)] assms(4) by auto
  moreover have "\<forall>m\<in>set (optional a). \<forall>batch\<in>set (batches (memtables s ! m)). well_typed batch preds agg"
    if "a = active_memtable st \<or> a = frozen_memtable st" for a
    using assms(6) that by (auto simp: memory_batches_def)
  then have "scan_memtable q s a = Some
     (\<Sum>m\<leftarrow>optional a. \<Sum>batch\<leftarrow>batches (memtables s ! m). word_of_nat (card (rows_matching batch preds)),
      \<Sum>m\<leftarrow>optional a. \<Sum>batch\<leftarrow>batches (memtables s ! m). sum_matching batch agg (rows_matching batch preds))"
    if "a = active_memtable st \<or> a = frozen_memtable st" for a
    using scan_memtable_eq[of a s q] that by (simp add: Plan_query[OF assms(3)])
  ultimately show ?thesis
    by (simp add: ExecuteTable_def Let_def assms(1) add_scan_def sum_memory[symmetric] add.assoc)
qed

text \<open>
  A node with one table: a row group that stores \<open>xs\<close>, an active memory table with \<open>ys\<close>.
\<close>

definition demo_node :: "int option list \<Rightarrow> int option list \<Rightarrow> node" where
  "demo_node xs ys = \<lparr>groups = [ids_group xs], memtables = [Append (Some (ids_batch ys)) empty_memtable],
     tables = Map.empty, global_tables = Map.empty\<rparr>"

definition demo_table :: table_state where
  "demo_table = (first_state ''t'' [''id''] [Type_INT64] 0)\<lparr>persisted_groups := [0]\<rparr>"

lemma demo_table_rows:
  fixes xs ys :: "int option list"
  defines "xs \<equiv> [Some 7, Some 3]" and "ys \<equiv> [Some 9, Some 5, Some 1]"
  shows "matching_rows (ids_batch xs) (ids_group xs) [id_above 4] = {0}" "rows_matching (ids_batch ys) [id_above 4] = {0, 1}"
    "well_typed (ids_batch ys) [id_above 4] []" "groups (demo_node xs ys) ! 0 = ids_group xs" "persisted_groups demo_table = [0]"
    "memory_batches demo_table (demo_node xs ys) = [ids_batch ys]"
proof -
  have k2: "k < 2 \<longleftrightarrow> k = 0 \<or> k = 1" and k3: "k < 3 \<longleftrightarrow> k = 0 \<or> k = 1 \<or> k = 2" for k :: nat by auto
  show "matching_rows (ids_batch xs) (ids_group xs) [id_above 4] = {0}"
    unfolding xs_def using ids_undeleted[of "[Some 7, Some 3]"]
    by (auto simp: matching_rows_def ids_columns undeleted_def pred_holds_def id_above_def column_number_def array_cell_def
        int64_array_def is_string_type_def k2 numeral_2_eq_2[symmetric])
  show "rows_matching (ids_batch ys) [id_above 4] = {0, 1}"
    unfolding ys_def by (auto simp: rows_matching_def row_matches_def ids_columns id_above_def match_cell_def int64_array_def
        MatchNumeric_def int_value_def k3 numeral_3_eq_3[symmetric])
  show "well_typed (ids_batch ys) [id_above 4] []"
    by (simp add: well_typed_def ids_columns id_above_def pred_array_def as_int64_array_def int64_array_def)
  show "groups (demo_node xs ys) ! 0 = ids_group xs" by (simp add: demo_node_def)
  show "persisted_groups demo_table = [0]" by (simp add: demo_table_def)
  show "memory_batches demo_table (demo_node xs ys) = [ids_batch ys]"
    by (simp add: memory_batches_def demo_table_def first_state_def optional_def demo_node_def Append_def empty_memtable_def)
qed

theorem table_query_counts_witness:
  "\<exists>q. Plan (\<lambda>_. 0) 4096 [id_above 4] (ids_group [Some 7, Some 3]) [] AGG_COUNT = Inr q \<and>
     ExecuteTable [] q demo_table (demo_node [Some 7, Some 3] [Some 9, Some 5, Some 1]) = Some (3, 0)"
proof -
  let ?s = "demo_node [Some 7, Some 3] [Some 9, Some 5, Some 1]"
  obtain q where q: "Plan (\<lambda>_. 0) 4096 [id_above 4] (ids_group [Some 7, Some 3]) [] AGG_COUNT = Inr q"
    using ids_plan[of "[Some 7, Some 3]"] by auto
  note table_query_counts[OF demo_table_rows(5), of "ids_batch [Some 7, Some 3]" ?s "\<lambda>_. 0" 4096 "[id_above 4]" "[]" AGG_COUNT q "[]",
      unfolded demo_table_rows(4,6), OF ids_stored q]
  then have "ExecuteTable [] q demo_table ?s = Some (3, 0)"
    using demo_table_rows(1-3) by (simp add: ids_exact sum_matching_def)
  then show ?thesis using q by blast
qed

lemma merge_single:
  assumes "0 < res_count r"
  shows "merge_results False [r] = (let nums = distinct_numerics r;
      merged = empty_result\<lparr>res_count := res_count r, res_sum := res_sum r, min_val := min_val r, max_val := max_val r,
        distinct_count := word_of_nat (length (remdups nums)), distinct_numerics := remdups nums\<rparr>
    in if nums = [] then merged else merged\<lparr>avg := Some (res_sum r, length nums), median_val := median_of nums\<rparr>)"
  using assms by (simp add: merge_results_def merge_step_def empty_result_def Let_def)

lemma memtable_values:
  assumes "well_typed batch preds agg" "agg \<noteq> []" "column_by_name batch agg = Some c" "as_int64_array c = Some c"
    and "rows_matching batch preds \<noteq> {}"
  shows "value_batches preds agg [batch] (0, [], [], False) = Some (word_of_nat (card (rows_matching batch preds)),
     map (int_value c) (filter (\<lambda>r. r \<in> rows_matching batch preds \<and> \<not> is_null c r) [0..<batch_rows batch]), [], False)"
proof -
  have "batch_rows batch \<noteq> 0" using assms(5) by (auto simp: rows_matching_def)
  moreover have "\<not> is_string_type (type_id c)"
    using assms(4) by (auto simp: as_int64_array_def is_string_type_def split: if_splits)
  moreover have "non_null_rows c (map (\<lambda>r. r \<in> rows_matching batch preds) [0..<batch_rows batch]) =
      filter (\<lambda>r. r \<in> rows_matching batch preds \<and> \<not> is_null c r) [0..<batch_rows batch]"
    by (auto simp: non_null_rows_def intro!: filter_cong)
  ultimately show ?thesis
    using assms(2-5) batch_matches_eq[OF assms(1)] by (simp add: batch_values_def)
qed

text \<open>
  The average of a table is wrong when a value repeats: of the numbers 4, 4 and 7 in a memory
  table the memory table itself reports the average 15 / 3, the merge over the parts of the table
  reports 15 / 2, because it divides the sum by the number of distinct values.
\<close>

theorem merged_average_divides_by_distinct:
  "\<exists>mt r. mt = Append (Some (ids_batch [Some 4, Some 4, Some 7])) empty_memtable \<and>
     ExecuteQueryResult_memtable [id_above 3] ''id'' mt = Some r \<and>
     avg r = Some (15, 3) \<and> avg (merge_results False [r]) = Some (15, 2)"
proof -
  let ?xs = "[Some 4, Some 4, Some (7 :: int)]"
  have k3: "k < 3 \<longleftrightarrow> k = 0 \<or> k = 1 \<or> k = 2" for k :: nat by auto
  have m: "rows_matching (ids_batch ?xs) [id_above 3] = {0, 1, 2}"
    by (auto simp: rows_matching_def row_matches_def ids_columns id_above_def match_cell_def int64_array_def
        MatchNumeric_def int_value_def k3 numeral_3_eq_3[symmetric])
  have wt: "well_typed (ids_batch ?xs) [id_above 3] ''id''" and cast: "as_int64_array (int64_array ?xs) = Some (int64_array ?xs)"
    by (simp_all add: well_typed_def ids_columns id_above_def pred_array_def as_int64_array_def int64_array_def)
  have vals: "map (int_value (int64_array ?xs)) (filter (\<lambda>r. r \<in> {0, 1, 2} \<and> \<not> is_null (int64_array ?xs) r) [0..<3]) = [4, 4, 7]"
    by (simp add: upt_rec int_value_def int64_array_def)
  have "value_batches [id_above 3] ''id'' [ids_batch ?xs] (0, [], [], False) = Some (3, [4, 4, 7], [], False)"
    using memtable_values[OF wt _ ids_columns(1) cast] vals unfolding m ids_columns by (simp add: numeral_3_eq_3[symmetric])
  then have r: "ExecuteQueryResult_memtable [id_above 3] ''id'' (Append (Some (ids_batch ?xs)) empty_memtable) =
      Some (summarise_numerics [4, 4, 7] (empty_result\<lparr>res_count := 3, res_sum := 15\<rparr>))"
    by (simp add: ExecuteQueryResult_memtable_def Append_def empty_memtable_def)
  let ?r = "summarise_numerics [4, 4, 7] (empty_result\<lparr>res_count := 3, res_sum := 15\<rparr>)"
  have "avg ?r = Some (15, 3)" "res_count ?r = 3" "res_sum ?r = 15" "distinct_numerics ?r = [4, 7]"
    by (simp_all add: summarise_numerics_def)
  then show ?thesis using r merge_single[of ?r] by (simp add: Let_def)
qed

text \<open>
  The auto-pilot asks for a promotion once: of a run of queries that record a column, exactly the
  sixth access broadcasts the request, as long as the 64-bit counter does not wrap.
\<close>

theorem promotion_at_sixth_access:
  assumes "GetColumnAccessCount col c = word_of_nat n" "n + 1 < 2 ^ 64"
  shows "(fst (RecordColumnAccess col c) \<longleftrightarrow> n = 5) \<and>
    GetColumnAccessCount col (snd (RecordColumnAccess col c)) = word_of_nat (n + 1)"
proof (rule conjI)
  have "(word_of_nat n + 1 :: u64) = 6 \<longleftrightarrow> unat (word_of_nat (n + 1) :: u64) = unat (6 :: u64)"
    by (simp only: word_unat_eq_iff of_nat_add of_nat_1)
  also have "\<dots> \<longleftrightarrow> n = 5" using unat_u64[OF assms(2)] by simp
  finally show "fst (RecordColumnAccess col c) \<longleftrightarrow> n = 5" by (simp add: RecordColumnAccess_def Let_def assms(1))
  show "GetColumnAccessCount col (snd (RecordColumnAccess col c)) = word_of_nat (n + 1)"
    by (simp add: count_after_record assms(1) add.commute)
qed

theorem promotion_at_sixth_access_witness:
  "fst (RecordColumnAccess ''id'' [''id'' \<mapsto> 5])"
  using promotion_at_sixth_access[where col="''id''" and c="[''id'' \<mapsto> 5]" and n=5]
  by (simp add: GetColumnAccessCount_def)

end
