(* ===== verification/Compaction.thy ===== *)
theory Compaction
  imports Table_Query
begin

text \<open>
  The promotion daemon of \<open>src/lex/lsm/promotion_daemon.cpp\<close>: it freezes the active memory table,
  reconstructs the live rows of the persisted row groups and the rows of the frozen memory table,
  builds one Arrow batch of them, ingests it and publishes a state with this one row group. The
  three phases are separate definitions, because other threads run between them.
\<close>

subsection \<open>Layout as the daemon computes it\<close>

text \<open>Only type 13 counts as a string here: a binary column is taken for a number.\<close>

fun compact_physical :: "u32 list \<Rightarrow> nat \<Rightarrow> nat list" where
  "compact_physical [] p = []"
| "compact_physical (t # ts) p = p # compact_physical ts (if t = Type_STRING then p + 2 else p + 1)"

fun compact_str_idx :: "u32 list \<Rightarrow> nat \<Rightarrow> nat list" where
  "compact_str_idx [] n = []"
| "compact_str_idx (t # ts) n = (if t = Type_STRING then n # compact_str_idx ts (n + 1) else 0 # compact_str_idx ts n)"

subsection \<open>Rows of the persisted row groups\<close>

definition read_cell :: "u32 list \<Rightarrow> block_data \<Rightarrow> nat \<Rightarrow> nat \<Rightarrow> nat \<Rightarrow> table_error + cell" where
  "read_cell types block rows r col =
     (let t = columns block ! (compact_physical types 0 ! col)
      in if \<not> bit (validity t) r then Inr Null
         else if types ! col = Type_STRING then
           (if tail_payload block = [] then Inl Null_dereference
            else Inr (Str (tail_view (tail_payload block) (compact_str_idx types 0 ! col * rows + r))))
         else Inr (Num (greengate_butterfly_transpose (planes t) ! r)))"

text \<open>All columns of a block are transposed before a row is read, so all must exist.\<close>

definition block_rows :: "u32 list \<Rightarrow> block_data \<Rightarrow> nat \<Rightarrow> table_error + cell list list" where
  "block_rows types block rows =
     (if list_ex (\<lambda>p. length (columns block) \<le> p) (compact_physical types 0) then Inl Out_of_bounds
      else emap (\<lambda>r. emap (read_cell types block rows r) [0..<length types])
        (filter (\<lambda>r. delete_mask block AND push_bit r 1 \<noteq> 0) [0..<rows]))"

definition group_rows :: "u32 list \<Rightarrow> row_group \<Rightarrow> table_error + cell list list" where
  "group_rows types rg =
     ebind (emap (\<lambda>b. block_rows types (blocks rg ! b) (rows_in_block rg b)) [0..<length (blocks rg)]) (\<lambda>rss. Inr (concat rss))"

subsection \<open>The builders\<close>

text \<open>One list of appended cells per column.\<close>

definition append_row :: "cell list \<Rightarrow> cell list list \<Rightarrow> cell list list" where
  "append_row row builders = map2 (\<lambda>c b. b @ [c]) row builders"

definition append_columns :: "cell list list \<Rightarrow> cell list list \<Rightarrow> cell list list" where
  "append_columns cols builders = map2 (\<lambda>cs b. b @ cs) cols builders"

text \<open>A column of a frozen batch, with the unchecked casts of the code.\<close>

definition frozen_column :: "record_batch \<Rightarrow> string \<Rightarrow> u32 \<Rightarrow> table_error + cell list" where
  "frozen_column batch name t =
     (if batch_rows batch = 0 then Inr []
      else case column_by_name batch name of
        None \<Rightarrow> Inl Null_dereference
      | Some col \<Rightarrow>
          (if t = Type_STRING then
             (case as_string_array col of
                None \<Rightarrow> Inl Bad_cast
              | Some str_arr \<Rightarrow> Inr (map (\<lambda>r. if is_null str_arr r then Null else Str (get_view str_arr r)) [0..<batch_rows batch]))
           else
             (case as_int64_array col of
                None \<Rightarrow> Inl Bad_cast
              | Some int_arr \<Rightarrow> Inr (map (\<lambda>r. if is_null int_arr r then Null else Num (int_value int_arr r)) [0..<batch_rows batch]))))"

fun append_batches :: "string list \<Rightarrow> u32 list \<Rightarrow> record_batch list \<Rightarrow> cell list list \<Rightarrow> table_error + cell list list" where
  "append_batches names types [] builders = Inr builders"
| "append_batches names types (batch # bs) builders =
     ebind (emap (\<lambda>(name, t). frozen_column batch name t) (zip names types)) (\<lambda>cols.
       append_batches names types bs (append_columns cols builders))"

subsection \<open>The phases of a compaction\<close>

text \<open>
  The Arrow builders, \<open>arrow::field\<close>, \<open>arrow::schema\<close> and \<open>RecordBatch::Make\<close> are third-party code:
  \<open>make_batch fields n columns\<close> is the batch they produce.
\<close>

type_synonym batch_maker = "(string \<times> u32) list \<Rightarrow> nat \<Rightarrow> cell list list \<Rightarrow> record_batch"

datatype compaction_error = Undefined table_error | Ingest_failed ingest_error

definition nothing_to_compact :: "table_state \<Rightarrow> nat \<Rightarrow> node \<Rightarrow> bool" where
  "nothing_to_compact st active s \<longleftrightarrow> GetRowCount (memtables s ! active) = 0 \<and> persisted_groups st = []"

definition freeze :: "string \<Rightarrow> table_state \<Rightarrow> node \<Rightarrow> table_state \<times> node" where
  "freeze name st s = (case new_memtable s of (m, s1) \<Rightarrow>
     (let freeze_state = st\<lparr>active_memtable := Some m, frozen_memtable := active_memtable st, version := version st + 1\<rparr>
      in (freeze_state, UpdateTableState name freeze_state s1)))"

definition fields_of :: "table_state \<Rightarrow> (string \<times> u32) list" where
  "fields_of st = map (\<lambda>(name, t). (name, if t = Type_STRING then Type_STRING else Type_INT64)) (zip (table_columns st) (table_types st))"

definition collect :: "batch_maker \<Rightarrow> table_state \<Rightarrow> node \<Rightarrow> table_error + record_batch" where
  "collect make_batch st s =
     ebind (emap (\<lambda>g. group_rows (table_types st) (groups s ! g)) (persisted_groups st)) (\<lambda>rss.
     let alive = concat rss;
         frozen = (case frozen_memtable st of None \<Rightarrow> [] | Some m \<Rightarrow> GetBatches (memtables s ! m));
         builders = fold append_row alive (replicate (length (table_columns st)) [])
     in ebind (append_batches (table_columns st) (table_types st) frozen builders) (\<lambda>columns.
          Inr (make_batch (fields_of st) (length alive + sum_list (map batch_rows frozen)) columns)))"

definition compact_state :: "table_state \<Rightarrow> nat list \<Rightarrow> table_state" where
  "compact_state st gs = st\<lparr>persisted_groups := gs, frozen_memtable := None, version := version st + 1\<rparr>"

definition publish :: "string \<Rightarrow> table_state \<Rightarrow> row_group \<Rightarrow> node \<Rightarrow> node" where
  "publish name st compacted_rg s = (case new_group compacted_rg s of (g, s1) \<Rightarrow>
     UpdateTableState name (compact_state st (if 0 < num_rows compacted_rg then [g] else [])) s1)"

definition TriggerCompaction :: "batch_maker \<Rightarrow> string \<Rightarrow> node \<Rightarrow> compaction_error + node" where
  "TriggerCompaction make_batch name s = (case GetTableState name s of
     None \<Rightarrow> Inr s
   | Some st \<Rightarrow>
       (case active_memtable st of
          None \<Rightarrow> Inl (Undefined Null_dereference)
        | Some active \<Rightarrow>
            if nothing_to_compact st active s then Inr s
            else (case freeze name st s of (freeze_state, s1) \<Rightarrow>
              (case collect make_batch freeze_state s1 of
                 Inl err \<Rightarrow> Inl (Undefined err)
               | Inr new_batch \<Rightarrow>
                   (case Ingest new_batch of
                      Inl err \<Rightarrow> Inl (Ingest_failed err)
                    | Inr compacted_rg \<Rightarrow> Inr (publish name freeze_state compacted_rg s1))))))"

subsection \<open>The daemon\<close>

record daemon =
  daemon_table :: string
  memory_threshold :: u64
  running :: bool

text \<open>Assigning a thread over one that still runs terminates the process: \<open>None\<close>.\<close>

definition Start :: "daemon \<Rightarrow> daemon option" where
  "Start d = (if running d then None else Some (d\<lparr>running := True\<rparr>))"

definition Stop :: "daemon \<Rightarrow> daemon" where
  "Stop d = d\<lparr>running := False\<rparr>"

text \<open>One round of \<open>DaemonLoop\<close>, after its wait.\<close>

definition daemon_round :: "batch_maker \<Rightarrow> daemon \<Rightarrow> node \<Rightarrow> compaction_error + node" where
  "daemon_round make_batch d s =
     (if \<not> running d then Inr s
      else case GetTableState (daemon_table d) s of
        None \<Rightarrow> Inr s
      | Some st \<Rightarrow>
          (case active_memtable st of
             None \<Rightarrow> Inr s
           | Some m \<Rightarrow>
               if memory_threshold d \<le> GetMemorySize (memtables s ! m) then TriggerCompaction make_batch (daemon_table d) s
               else Inr s))"

end
