(* ===== verification/Lsm_Refines.thy ===== *)
theory Lsm_Refines
  imports Compaction
begin

text \<open>
  What a table is to its clients, and the proof that the registry, the memory tables and the
  compaction implement it. The abstract table has slots, the rows of the persisted row groups at
  their global positions, each live or deleted, and the rows in memory. Inserting appends rows in
  memory, deleting a position empties its slot, compacting moves all live rows into fresh slots.
\<close>

subsection \<open>Abstract tables\<close>

type_synonym row = "cell list"

record lsm_table =
  slots :: "row option list"
  mem_rows :: "row list"

definition live_rows :: "lsm_table \<Rightarrow> row list" where
  "live_rows a = map the (filter (\<lambda>x. x \<noteq> None) (slots a)) @ mem_rows a"

datatype table_op = Insert record_batch | Delete u64 | Compact

definition batch_row :: "string list \<Rightarrow> record_batch \<Rightarrow> nat \<Rightarrow> row" where
  "batch_row names batch r = map (\<lambda>name. case column_by_name batch name of None \<Rightarrow> Null | Some c \<Rightarrow> array_cell c r) names"

definition rows_of_batch :: "string list \<Rightarrow> record_batch \<Rightarrow> row list" where
  "rows_of_batch names batch = map (batch_row names batch) [0..<batch_rows batch]"

fun abs_op :: "string list \<Rightarrow> table_op \<Rightarrow> lsm_table \<Rightarrow> lsm_table" where
  "abs_op names (Insert batch) a = a\<lparr>mem_rows := mem_rows a @ rows_of_batch names batch\<rparr>"
| "abs_op names (Delete idx) a = (if unat idx < length (slots a) then a\<lparr>slots := (slots a)[unat idx := None]\<rparr> else a)"
| "abs_op names Compact a = \<lparr>slots = map Some (live_rows a), mem_rows = []\<rparr>"

lemma live_rows_compact [simp]: "live_rows (abs_op names Compact a) = live_rows a"
  by (simp add: live_rows_def comp_def)

subsection \<open>Well-formed tables\<close>

definition schema_ok :: "string list \<Rightarrow> u32 list \<Rightarrow> bool" where
  "schema_ok names types \<longleftrightarrow> length names = length types \<and> distinct names \<and>
     set types \<subseteq> {Type_STRING, Type_INT64} \<and> length types < 2 ^ 20"

definition cell_ok :: "u32 \<Rightarrow> cell \<Rightarrow> bool" where
  "cell_ok t c \<longleftrightarrow> (case c of Null \<Rightarrow> True | Num _ \<Rightarrow> t \<noteq> Type_STRING | Str s \<Rightarrow> t = Type_STRING \<and> length s < 2 ^ 32)"

definition row_ok :: "u32 list \<Rightarrow> row \<Rightarrow> bool" where
  "row_ok types row \<longleftrightarrow> list_all2 cell_ok types row"

definition group_row :: "u32 list \<Rightarrow> row_group \<Rightarrow> nat \<Rightarrow> row" where
  "group_row types rg k = map (\<lambda>f. stored_cell types (blocks rg ! (k div 64)) (rows_in_block rg (k div 64)) f (k mod 64)) [0..<length types]"

definition group_slots :: "u32 list \<Rightarrow> row_group \<Rightarrow> row option list" where
  "group_slots types rg = map (\<lambda>k. if live_row rg k then Some (group_row types rg k) else None) [0..<unat (num_rows rg)]"

definition block_ok :: "u32 list \<Rightarrow> block_data \<Rightarrow> bool" where
  "block_ok types blk \<longleftrightarrow> physical_width types \<le> length (columns blk) \<and>
     (Type_STRING \<in> set types \<longrightarrow> tail_payload blk \<noteq> [])"

definition group_ok :: "u32 list \<Rightarrow> row_group \<Rightarrow> bool" where
  "group_ok types rg \<longleftrightarrow> unat (num_rows rg) < 2 ^ 63 \<and> length (blocks rg) = block_total (unat (num_rows rg)) \<and>
     (\<forall>blk\<in>set (blocks rg). block_ok types blk) \<and> (\<forall>k<unat (num_rows rg). row_ok types (group_row types rg k))"

definition column_ok :: "record_batch \<Rightarrow> string \<Rightarrow> u32 \<Rightarrow> bool" where
  "column_ok batch name t \<longleftrightarrow> (\<exists>c. column_by_name batch name = Some c \<and>
     (if t = Type_STRING then is_string_type (type_id c) else as_int64_array c = Some c) \<and>
     (\<forall>r<batch_rows batch. cell_ok t (array_cell c r)))"

definition batch_ok :: "string list \<Rightarrow> u32 list \<Rightarrow> record_batch \<Rightarrow> bool" where
  "batch_ok names types batch \<longleftrightarrow> list_all2 (column_ok batch) names types"

definition memtable_rows :: "string list \<Rightarrow> mem_table \<Rightarrow> row list" where
  "memtable_rows names m = concat (map (rows_of_batch names) (batches m))"

definition memtable_ok :: "string list \<Rightarrow> u32 list \<Rightarrow> mem_table \<Rightarrow> bool" where
  "memtable_ok names types m \<longleftrightarrow> row_count m = word_of_nat (length (memtable_rows names m)) \<and>
     (\<forall>batch\<in>set (batches m). batch_ok names types batch)"

definition state_inv :: "string list \<Rightarrow> u32 list \<Rightarrow> table_state \<Rightarrow> node \<Rightarrow> bool" where
  "state_inv names types st s \<longleftrightarrow> table_columns st = names \<and> table_types st = types \<and> frozen_memtable st = None \<and>
     distinct (persisted_groups st) \<and>
     (\<forall>g\<in>set (persisted_groups st). g < length (groups s) \<and> group_ok types (groups s ! g)) \<and>
     (\<exists>a. active_memtable st = Some a \<and> a < length (memtables s) \<and> memtable_ok names types (memtables s ! a))"

definition table_inv :: "string \<Rightarrow> string list \<Rightarrow> u32 list \<Rightarrow> node \<Rightarrow> bool" where
  "table_inv name names types s \<longleftrightarrow> schema_ok names types \<and> (\<exists>st. tables s name = Some st \<and> state_inv names types st s)"

definition state_abs :: "table_state \<Rightarrow> node \<Rightarrow> lsm_table" where
  "state_abs st s = \<lparr>slots = concat (map (\<lambda>g. group_slots (table_types st) (groups s ! g)) (persisted_groups st)),
     mem_rows = concat (map (\<lambda>m. memtable_rows (table_columns st) (memtables s ! m))
       (optional (frozen_memtable st) @ optional (active_memtable st)))\<rparr>"

definition table_abs :: "string \<Rightarrow> node \<Rightarrow> lsm_table" where
  "table_abs name s = (case tables s name of None \<Rightarrow> \<lparr>slots = [], mem_rows = []\<rparr> | Some st \<Rightarrow> state_abs st s)"

subsection \<open>Reading rows back\<close>

lemma compact_layout:
  assumes "set types \<subseteq> {Type_STRING, Type_INT64}"
  shows "compact_physical types p = logical_to_physical types p"
    "f < length types \<Longrightarrow> types ! f = Type_STRING \<Longrightarrow> compact_str_idx types n ! f = n + string_index types f"
proof -
  show "compact_physical types p = logical_to_physical types p"
    using assms by (induction types arbitrary: p) (auto simp: is_string_type_def)
  show "f < length types \<Longrightarrow> types ! f = Type_STRING \<Longrightarrow> compact_str_idx types n ! f = n + string_index types f"
    using assms
  proof (induction types arbitrary: n f)
    case (Cons t types)
    then show ?case by (cases f) (auto simp: is_string_type_def)
  qed simp
qed

lemma string_type_iff: "set types \<subseteq> {Type_STRING, Type_INT64} \<Longrightarrow> f < length types \<Longrightarrow> is_string_type (types ! f) \<longleftrightarrow> types ! f = Type_STRING"
proof -
  assume "set types \<subseteq> {Type_STRING, Type_INT64}" "f < length types"
  then have "types ! f \<in> {Type_STRING, Type_INT64}" using nth_mem by blast
  then show ?thesis by (auto simp: is_string_type_def)
qed

lemma read_cell_eq:
  assumes ty: "set types \<subseteq> {Type_STRING, Type_INT64}" and f: "f < length types" and blk: "block_ok types blk"
  shows "read_cell types blk rows r f = Inr (stored_cell types blk rows f r)"
proof -
  have "types ! f = Type_STRING \<Longrightarrow> tail_payload blk \<noteq> []" using blk f nth_mem by (fastforce simp: block_ok_def)
  then show ?thesis
    using compact_layout[OF ty] f string_type_iff[OF ty f]
    by (auto simp: read_cell_def stored_cell_def Let_def tile_valid_def tile_scalar_def)
qed

lemma physical_in_width: "p \<in> set (logical_to_physical types p0) \<Longrightarrow> p < p0 + physical_width types"
  by (induction types arbitrary: p0) (fastforce split: if_splits)+

lemma alive_bit: "r < 64 \<Longrightarrow> m AND push_bit r 1 \<noteq> 0 \<longleftrightarrow> bit (m :: u64) r"
proof -
  assume r: "r < 64"
  have "m AND push_bit r 1 \<noteq> 0 \<longleftrightarrow> (\<exists>i<64. bit (m AND push_bit r 1) i)" by (simp add: bit_eq_iff)
  also have "\<dots> \<longleftrightarrow> bit m r" using r unfolding bit_and_iff bit_push_one by auto
  finally show ?thesis .
qed

lemma block_rows_eq:
  assumes ty: "set types \<subseteq> {Type_STRING, Type_INT64}" and blk: "block_ok types blk" and rows: "rows \<le> 64"
  shows "block_rows types blk rows =
     Inr (map (\<lambda>r. map (\<lambda>f. stored_cell types blk rows f r) [0..<length types]) (filter (bit (delete_mask blk)) [0..<rows]))"
proof -
  have "\<not> list_ex (\<lambda>p. length (columns blk) \<le> p) (compact_physical types 0)"
    using physical_in_width[of _ types 0] blk by (auto simp: list_ex_iff compact_layout(1)[OF ty] block_ok_def not_le intro: less_le_trans)
  moreover have "filter (\<lambda>r. delete_mask blk AND push_bit r 1 \<noteq> 0) [0..<rows] = filter (bit (delete_mask blk)) [0..<rows]"
    by (rule filter_cong) (use rows alive_bit in auto)
  moreover have "emap (read_cell types blk rows r) [0..<length types] = Inr (map (\<lambda>f. stored_cell types blk rows f r) [0..<length types])" for r
    by (rule emap_Inr) (simp add: read_cell_eq[OF ty _ blk])
  ultimately show ?thesis by (simp add: block_rows_def emap_Inr)
qed

text \<open>The rows of a row group, block by block.\<close>

lemma filter_blocks:
  "concat (map (\<lambda>b. map (\<lambda>r. h (b * 64 + r)) (filter (\<lambda>r. P (b * 64 + r)) [0..<rows_of_block n b])) [0..<block_total n]) =
     map h (filter P [0..<n])"
proof -
  have "concat (map (\<lambda>b. map (\<lambda>r. h (b * 64 + r)) (filter (\<lambda>r. P (b * 64 + r)) [0..<rows_of_block n b])) [0..<B]) =
      map h (filter P [0..<min n (B * 64)])" for B
  proof (induction B)
    case (Suc B)
    have "[0..<min n (Suc B * 64)] = [0..<min n (B * 64)] @ map (\<lambda>r. B * 64 + r) [0..<rows_of_block n B]"
    proof (cases "n \<le> B * 64")
      case False
      then have "min n (Suc B * 64) = B * 64 + rows_of_block n B" "min n (B * 64) = B * 64"
        by (auto simp: rows_of_block_def)
      then show ?thesis
        using upt_add_eq_append[of 0 "B * 64" "rows_of_block n B"] map_add_upt[of "B * 64" "rows_of_block n B"]
        by (simp add: add.commute)
    qed (simp add: rows_of_block_def)
    then show ?case using Suc by (simp add: filter_map comp_def)
  qed simp
  moreover have "min n (block_total n * 64) = n" unfolding block_total_def by linarith
  ultimately show ?thesis by metis
qed

lemma rows_in_block_eq:
  assumes "b < block_total (unat (num_rows rg))"
  shows "rows_in_block rg b = rows_of_block (unat (num_rows rg)) b"
proof -
  let ?n = "unat (num_rows rg)"
  have lt: "b * 64 < ?n" using assms by (rule block_in_range)
  have "num_rows rg - word_of_nat (b * 64) = word_of_nat ?n - word_of_nat (b * 64)" by simp
  also have "\<dots> = word_of_nat (?n - b * 64)" using lt by (simp only: of_nat_diff less_imp_le)
  finally have "unat (num_rows rg - word_of_nat (b * 64)) = ?n - b * 64"
    using unsigned_less[of "num_rows rg", where ?'a = nat] by simp
  then show ?thesis by (auto simp: rows_in_block_def rows_of_block_def min_def word_le_nat_alt)
qed

lemma group_rows_eq:
  assumes ty: "set types \<subseteq> {Type_STRING, Type_INT64}" and ok: "group_ok types rg"
  shows "group_rows types rg = Inr (map (group_row types rg) (filter (live_row rg) [0..<unat (num_rows rg)]))"
proof -
  let ?n = "unat (num_rows rg)"
  have "block_rows types (blocks rg ! b) (rows_in_block rg b) =
      Inr (map (\<lambda>r. group_row types rg (b * 64 + r)) (filter (\<lambda>r. live_row rg (b * 64 + r)) [0..<rows_of_block ?n b]))"
    if b: "b < block_total ?n" for b
  proof -
    have rows: "rows_of_block ?n b \<le> 64" by (simp add: rows_of_block_def)
    have blk: "block_ok types (blocks rg ! b)" using ok b by (simp add: group_ok_def)
    have "filter (bit (delete_mask (blocks rg ! b))) [0..<rows_of_block ?n b] = filter (\<lambda>r. live_row rg (b * 64 + r)) [0..<rows_of_block ?n b]"
      by (rule filter_cong) (use rows in \<open>auto simp: live_row_def block_split\<close>)
    moreover have "map (\<lambda>f. stored_cell types (blocks rg ! b) (rows_of_block ?n b) f r) [0..<length types] = group_row types rg (b * 64 + r)"
      if "r < rows_of_block ?n b" for r
      using that rows by (simp add: group_row_def block_split rows_in_block_eq[OF b])
    ultimately show ?thesis by (simp add: block_rows_eq[OF ty blk rows] rows_in_block_eq[OF b])
  qed
  then have "emap (\<lambda>b. block_rows types (blocks rg ! b) (rows_in_block rg b)) [0..<length (blocks rg)] =
      Inr (map (\<lambda>b. map (\<lambda>r. group_row types rg (b * 64 + r)) (filter (\<lambda>r. live_row rg (b * 64 + r)) [0..<rows_of_block ?n b])) [0..<length (blocks rg)])"
    using ok by (intro emap_Inr) (simp add: group_ok_def)
  then show ?thesis using ok filter_blocks[of "group_row types rg" "live_row rg" ?n] by (simp add: group_rows_def group_ok_def)
qed

lemma group_slots_live: "map the (filter (\<lambda>x. x \<noteq> None) (group_slots types rg)) =
    map (group_row types rg) (filter (live_row rg) [0..<unat (num_rows rg)])"
proof -
  have "map the (filter (\<lambda>x. x \<noteq> None) (map (\<lambda>k. if P k then Some (h k) else None) ks)) = map h (filter P ks)" for P h and ks :: "nat list"
    by (induction ks) auto
  then show ?thesis by (simp add: group_slots_def)
qed

subsection \<open>The builders hold the rows by columns\<close>

definition cols_of :: "nat \<Rightarrow> row list \<Rightarrow> cell list list" where
  "cols_of w rows = map (\<lambda>f. map (\<lambda>row. row ! f) rows) [0..<w]"

lemma append_row_cols: "length row = w \<Longrightarrow> append_row row (cols_of w rows) = cols_of w (rows @ [row])"
  by (auto simp: append_row_def cols_of_def intro!: nth_equalityI)

lemma append_columns_cols: "append_columns (cols_of w new) (cols_of w rows) = cols_of w (rows @ new)"
  by (auto simp: append_columns_def cols_of_def intro!: nth_equalityI)

lemma fold_append_row:
  "\<forall>row\<in>set new. length row = w \<Longrightarrow> fold append_row new (cols_of w rows) = cols_of w (rows @ new)"
  by (induction new arbitrary: rows) (simp_all add: append_row_cols)

lemma cols_of_empty: "replicate w [] = cols_of w []"
  by (auto simp: cols_of_def intro!: nth_equalityI)

lemma frozen_column_eq:
  assumes "column_ok batch name t"
  shows "frozen_column batch name t =
     Inr (map (\<lambda>r. case column_by_name batch name of None \<Rightarrow> Null | Some c \<Rightarrow> array_cell c r) [0..<batch_rows batch])"
proof -
  obtain c where c: "column_by_name batch name = Some c"
      "if t = Type_STRING then is_string_type (type_id c) else as_int64_array c = Some c"
    using assms by (auto simp: column_ok_def)
  have "type_id c \<noteq> Type_BOOL \<and> \<not> is_string_type (type_id c)" if "as_int64_array c = Some c"
    using that by (auto simp: as_int64_array_def is_string_type_def split: if_splits)
  then show ?thesis
    using c by (auto simp: frozen_column_def as_string_array_def array_cell_def int_value_def)
qed

lemma append_batches_eq:
  assumes "length names = length types" "\<forall>batch\<in>set bs. batch_ok names types batch"
  shows "append_batches names types bs (cols_of (length names) rows) =
     Inr (cols_of (length names) (rows @ concat (map (rows_of_batch names) bs)))"
  using assms(2)
proof (induction bs arbitrary: rows)
  case (Cons batch bs)
  have "emap (\<lambda>(name, t). frozen_column batch name t) (zip names types) =
      Inr (map (\<lambda>(name, t). map (\<lambda>r. case column_by_name batch name of None \<Rightarrow> Null | Some c \<Rightarrow> array_cell c r) [0..<batch_rows batch])
        (zip names types))"
    by (rule emap_Inr) (use Cons.prems in \<open>auto simp: batch_ok_def list_all2_iff frozen_column_eq\<close>)
  also have "map (\<lambda>(name, t). map (\<lambda>r. case column_by_name batch name of None \<Rightarrow> Null | Some c \<Rightarrow> array_cell c r) [0..<batch_rows batch])
        (zip names types) = cols_of (length names) (rows_of_batch names batch)"
    using assms(1) by (auto simp: cols_of_def rows_of_batch_def batch_row_def split: option.split intro!: nth_equalityI)
  finally show ?case
    using Cons by (simp add: append_columns_cols)
qed simp

text \<open>The rows a compaction of state \<open>st\<close> collects: the live persisted ones, then the frozen ones.\<close>

definition collected_rows :: "table_state \<Rightarrow> node \<Rightarrow> row list" where
  "collected_rows st s =
     concat (map (\<lambda>g. map (group_row (table_types st) (groups s ! g)) (filter (live_row (groups s ! g)) [0..<unat (num_rows (groups s ! g))]))
       (persisted_groups st)) @
     concat (map (\<lambda>m. memtable_rows (table_columns st) (memtables s ! m)) (optional (frozen_memtable st)))"

lemma length_rows_of_batch: "length (concat (map (rows_of_batch names) bs)) = sum_list (map batch_rows bs)"
  by (induction bs) (simp_all add: rows_of_batch_def)

lemma collect_eq:
  assumes sch: "schema_ok (table_columns st) (table_types st)"
    and grp: "\<forall>g\<in>set (persisted_groups st). group_ok (table_types st) (groups s ! g)"
    and frz: "\<forall>m\<in>set (optional (frozen_memtable st)). memtable_ok (table_columns st) (table_types st) (memtables s ! m)"
  shows "collect make_batch st s = Inr (make_batch (zip (table_columns st) (table_types st)) (length (collected_rows st s))
     (cols_of (length (table_columns st)) (collected_rows st s)))"
proof -
  let ?names = "table_columns st" and ?types = "table_types st"
  have len: "length ?names = length ?types" and ty: "set ?types \<subseteq> {Type_STRING, Type_INT64}"
    using sch by (auto simp: schema_ok_def)
  let ?alive = "concat (map (\<lambda>g. map (group_row ?types (groups s ! g)) (filter (live_row (groups s ! g)) [0..<unat (num_rows (groups s ! g))]))
       (persisted_groups st))"
  let ?frozen = "case frozen_memtable st of None \<Rightarrow> [] | Some m \<Rightarrow> GetBatches (memtables s ! m)"
  have g: "emap (\<lambda>g. group_rows ?types (groups s ! g)) (persisted_groups st) = Inr (map (\<lambda>g. map (group_row ?types (groups s ! g))
      (filter (live_row (groups s ! g)) [0..<unat (num_rows (groups s ! g))])) (persisted_groups st))"
    by (rule emap_Inr) (use grp group_rows_eq[OF ty] in simp)
  have fld: "fields_of st = zip ?names ?types"
  proof -
    have "(case x of (name, t) \<Rightarrow> (name, if t = Type_STRING then Type_STRING else Type_INT64)) = x" if "x \<in> set (zip ?names ?types)" for x
    proof -
      obtain name t where x: "x = (name, t)" by (cases x)
      then have "t \<in> set ?types" using that by (auto dest: set_zip_rightD)
      then show ?thesis using ty x by auto
    qed
    then show ?thesis by (simp add: fields_of_def map_idI)
  qed
  have rows: "\<forall>row\<in>set ?alive. length row = length ?names" by (auto simp: group_row_def len)
  have fr: "\<forall>batch\<in>set ?frozen. batch_ok ?names ?types batch"
    using frz by (auto simp: optional_def memtable_ok_def GetBatches_def split: option.splits)
  have all: "collected_rows st s = ?alive @ concat (map (rows_of_batch ?names) ?frozen)"
    by (cases "frozen_memtable st") (simp_all add: collected_rows_def optional_def memtable_rows_def GetBatches_def)
  show ?thesis
    unfolding collect_def g ebind_simps Let_def cols_of_empty fold_append_row[OF rows] append_batches_eq[OF len fr] append_Nil fld all
      length_append length_rows_of_batch ..
qed

subsection \<open>What the Arrow builders promise\<close>

text \<open>
  The documented behaviour of the builders and of \<open>RecordBatch::Make\<close>: a valid batch of the given
  schema whose cells are the appended ones.
\<close>

definition builds_batch :: "batch_maker \<Rightarrow> (string \<times> u32) list \<Rightarrow> row list \<Rightarrow> bool" where
  "builds_batch make_batch fs rows \<longleftrightarrow>
     (let b = make_batch fs (length rows) (cols_of (length fs) rows)
      in arrow_batch b \<and> batch_rows b = length rows \<and> schema_fields b = fs \<and>
         (\<forall>f<length fs. \<forall>r<length rows. array_cell (batch_columns b ! f) r = rows ! r ! f))"

definition builder_law :: "batch_maker \<Rightarrow> bool" where
  "builder_law make_batch \<longleftrightarrow> (\<forall>fs rows. distinct (map fst fs) \<longrightarrow> length rows < 2 ^ 63 \<longrightarrow>
     set (map snd fs) \<subseteq> {Type_STRING, Type_INT64} \<longrightarrow> (\<forall>row\<in>set rows. row_ok (map snd fs) row) \<longrightarrow>
     builds_batch make_batch fs rows)"

subsection \<open>Ingesting what was collected\<close>

lemma tail_strings_bound: "\<forall>s\<in>set ss. length s < M \<Longrightarrow> length (tail_strings ss) \<le> length ss * M"
  by (induction ss) (auto simp: tail_strings_def Suc_le_eq)

lemma small_tail_fits:
  assumes "ss \<noteq> []" "length ss \<le> 2 ^ 26" "\<forall>s\<in>set ss. length s < 2 ^ 32"
  shows "tail_fits ss"
proof -
  have "length (tail_strings ss) \<le> length ss * 2 ^ 32" by (rule tail_strings_bound[OF assms(3)])
  also have "\<dots> \<le> 2 ^ 26 * 2 ^ 32" using assms(2) by (intro mult_right_mono) simp_all
  finally have "length (tail_strings ss) < 2 ^ 63" by simp
  moreover have "length ss < 2 ^ 60" using assms(2) by simp
  ultimately show ?thesis using assms(1) by (simp add: tail_fits_def)
qed

lemma build_tail_nonempty: "tail_fits ss \<Longrightarrow> build_tail ss \<noteq> []"
proof -
  assume fits: "tail_fits ss"
  then have "8 \<le> length (build_tail ss)" by (simp add: build_tail_def Let_def tail_fits_def)
  then show ?thesis by auto
qed

lemma ingest_built:
  assumes law: "builder_law make_batch" and sch: "schema_ok names types" and rows: "\<forall>row\<in>set rows. row_ok types row"
    and len: "length rows < 2 ^ 63"
  defines "b \<equiv> make_batch (zip names types) (length rows) (cols_of (length names) rows)"
  shows "\<exists>rg. Ingest b = Inr rg \<and> num_rows rg = word_of_nat (length rows) \<and> group_ok types rg \<and> group_slots types rg = map Some rows"
proof -
  have nt: "length names = length types" "distinct names" "set types \<subseteq> {Type_STRING, Type_INT64}" "length types < 2 ^ 20"
    using sch by (auto simp: schema_ok_def)
  have "builds_batch make_batch (zip names types) rows"
    by (rule law[unfolded builder_law_def, rule_format]) (use nt len rows in simp_all)
  then have b: "arrow_batch b" "batch_rows b = length rows" "schema_fields b = zip names types"
      "\<And>f r. f < length types \<Longrightarrow> r < length rows \<Longrightarrow> array_cell (batch_columns b ! f) r = rows ! r ! f"
    by (auto simp: builds_batch_def Let_def b_def nt(1))
  let ?cs = "batch_columns b" and ?n = "length rows"
  have ids: "map type_id ?cs = types" using b(1,3) nt(1) by (simp add: arrow_batch_def)
  then have lcs: "length ?cs = length types" by (metis length_map)
  have tid: "type_id (?cs ! f) = types ! f" if "f < length types" for f using arg_cong[OF ids, of "\<lambda>xs. xs ! f"] that lcs by simp
  have sup: "\<forall>c\<in>set ?cs. supported_type (type_id c)"
  proof
    fix c assume "c \<in> set ?cs"
    then have "type_id c \<in> set types" using ids by (metis image_eqI list.set_map)
    then show "supported_type (type_id c)" using nt(3) by (auto simp: supported_type_def supported_int_type_def is_string_type_def)
  qed
  have fits: "block_strings b k = [] \<or> tail_fits (block_strings b k)" for k
  proof (cases "block_strings b k = []")
    case False
    have "s \<in> set (block_strings b k) \<Longrightarrow> length s < 2 ^ 32" for s
    proof -
      assume "s \<in> set (block_strings b k)"
      then obtain f i where f: "f < length types" "is_string_type (type_id (?cs ! f))" "i < rows_of_block ?n k"
          "s = (if is_null (?cs ! f) (k * 64 + i) then [] else get_view (?cs ! f) (k * 64 + i))"
        by (auto simp: block_strings_def column_strings_def b(2) in_set_conv_nth[of _ ?cs] lcs split: if_splits)
      have k: "k * 64 + i < ?n" using f(3) by (auto simp: rows_of_block_def)
      have "list_all2 cell_ok types (rows ! (k * 64 + i))" using rows k by (simp add: row_ok_def)
      then have "cell_ok (types ! f) (rows ! (k * 64 + i) ! f)" using f(1) by (simp add: list_all2_conv_all_nth)
      then have "cell_ok (types ! f) (array_cell (?cs ! f) (k * 64 + i))" by (simp add: b(4)[OF f(1) k])
      then show "length s < 2 ^ 32" using f(2,4) by (auto simp: array_cell_def cell_ok_def)
    qed
    moreover have "length (block_strings b k) \<le> 2 ^ 26"
    proof -
      have "length (concat (map (\<lambda>c. column_strings c st r) cs)) \<le> length cs * r" for st r cs by (induction cs) auto
      then have "length (block_strings b k) \<le> length ?cs * rows_of_block ?n k" by (simp add: block_strings_def b(2))
      also have "\<dots> \<le> 2 ^ 20 * 64" by (rule mult_mono) (use lcs nt(4) in \<open>auto simp: rows_of_block_def\<close>)
      finally show ?thesis by simp
    qed
    ultimately show ?thesis using small_tail_fits False by blast
  qed simp
  obtain rg where rg: "Ingest b = Inr rg" "num_rows rg = word_of_nat ?n" "blocks rg = map (ingested_block b) [0..<block_total ?n]"
    using Ingest_eq[OF b(1) sup] b(2) by auto
  have n: "unat (num_rows rg) = ?n" using len by (simp add: rg(2))
  have row: "group_row types rg k = rows ! k" if k: "k < ?n" for k
  proof (rule nth_equalityI)
    have "row_ok types (rows ! k)" using rows k by simp
    then show "length (group_row types rg k) = length (rows ! k)" by (auto simp: group_row_def row_ok_def dest: list_all2_lengthD)
    fix f assume "f < length (group_row types rg k)"
    then have f: "f < length ?cs" by (simp add: group_row_def lcs)
    have "k div 64 * 64 + k mod 64 < ?n" using k by simp
    then have r: "k mod 64 < rows_of_block (batch_rows b) (k div 64)"
      by (simp only: block_split(1) mod_less_divisor zero_less_numeral b(2))
    have bt: "k div 64 < block_total ?n" using k unfolding block_total_def by linarith
    have ty: "supported_type (type_id (?cs ! f))" using sup f by simp
    have fit: "tail_fits (block_strings b (k div 64))" if "is_string_type (type_id (?cs ! f))"
      using nth_block_string(1)[OF f that r] fits by (metis length_0_conv not_less_zero)
    have "group_row types rg k ! f = stored_cell types (ingested_block b (k div 64)) (rows_of_block ?n (k div 64)) f (k mod 64)"
      using f bt rows_in_block_eq[of "k div 64" rg] by (simp add: group_row_def lcs rg(3) n)
    also have "\<dots> = array_cell (?cs ! f) (k div 64 * 64 + k mod 64)"
      using stored_cell_ingested[OF f r ty fit] by (simp add: ids b(2))
    finally show "group_row types rg k ! f = rows ! k ! f" using b(4)[of f k] f k by (simp add: lcs)
  qed
  have "live_row rg k" if "k < ?n" for k
  proof -
    have "k div 64 < block_total ?n" using that unfolding block_total_def by linarith
    then show ?thesis by (simp add: live_row_def rg(3) ingested_block_def fresh_block_def)
  qed
  then have "group_slots types rg = map (\<lambda>k. Some (rows ! k)) [0..<?n]" by (simp add: group_slots_def n row)
  also have "\<dots> = map Some rows" by (rule map_nth_upt) simp
  finally have sl: "group_slots types rg = map Some rows" .
  have blk: "block_ok types blk" if mem: "blk \<in> set (blocks rg)" for blk
  proof -
    obtain k where k: "k < block_total ?n" "blk = ingested_block b k" using mem by (auto simp: rg(3))
    have "tail_payload blk \<noteq> []" if str: "Type_STRING \<in> set types"
    proof -
      obtain f where f: "f < length ?cs" "types ! f = Type_STRING" using str lcs by (metis in_set_conv_nth)
      have "k * 64 < ?n" by (rule block_in_range[OF k(1)])
      then have r: "0 < rows_of_block (batch_rows b) k" by (simp add: rows_of_block_def b(2))
      have "is_string_type (type_id (?cs ! f))" using f lcs tid by (simp add: is_string_type_def)
      then have "block_strings b k \<noteq> []" using nth_block_string(1)[OF f(1) _ r] by auto
      then show ?thesis using fits[of k] build_tail_nonempty k(2) by (auto simp: ingested_block_def block_strings_def)
    qed
    then show ?thesis using k(2) by (simp add: block_ok_def ingested_block_def length_concat_tiles ids)
  qed
  have "group_ok types rg"
    unfolding group_ok_def using blk row rows len by (simp add: n rg(3))
  then show ?thesis using rg sl by blast
qed

subsection \<open>Deleting\<close>

lemma delete_local_eq:
  assumes ok: "group_ok types rg" and i: "unat w < unat (num_rows rg)"
  shows "\<exists>rg'. delete_local w rg = Inr rg' \<and> group_ok types rg' \<and> num_rows rg' = num_rows rg \<and>
     group_slots types rg' = (group_slots types rg)[unat w := None]"
proof -
  let ?n = "unat (num_rows rg)" and ?b = "unat w div 64" and ?j = "unat w mod 64"
  have w: "unat (w div 64) = ?b" "unat (w mod 64) = ?j" by (simp_all add: unat_div unat_mod)
  have b: "?b < length (blocks rg)" using ok i unfolding group_ok_def block_total_def by linarith
  let ?rg = "rg\<lparr>blocks := (blocks rg)[?b := clear_bit ?j (blocks rg ! ?b)]\<rparr>"
  have del: "delete_local w rg = Inr ?rg" by (simp add: delete_local_def Let_def w b)
  have nth: "columns (blocks ?rg ! k) = columns (blocks rg ! k) \<and> tail_payload (blocks ?rg ! k) = tail_payload (blocks rg ! k)" for k
    using b by (cases "k = ?b") (simp_all add: clear_bit_def)
  have row: "group_row types ?rg k = group_row types rg k" for k
    using nth by (simp add: group_row_def stored_cell_def Let_def rows_in_block_def)
  have live: "live_row ?rg k \<longleftrightarrow> live_row rg k \<and> k \<noteq> unat w" for k
  proof -
    have "k = unat w \<longleftrightarrow> k div 64 = ?b \<and> k mod 64 = ?j" by (metis div_mod_decomp)
    then show ?thesis using b
      by (cases "k div 64 = ?b") (auto simp: live_row_def clear_bit_def bit_and_iff bit_not_iff bit_simps)
  qed
  have "group_ok types ?rg"
  proof -
    have "block_ok types blk" if mem: "blk \<in> set (blocks ?rg)" for blk
    proof -
      obtain k where "k < length (blocks rg)" "blk = blocks ?rg ! k" using mem by (auto simp: in_set_conv_nth)
      then show ?thesis using ok nth[of k] by (simp add: group_ok_def block_ok_def)
    qed
    then show ?thesis using ok row by (simp add: group_ok_def)
  qed
  moreover have "group_slots types ?rg = (group_slots types rg)[unat w := None]"
    using i by (intro nth_equalityI) (auto simp: group_slots_def row live nth_list_update)
  ultimately show ?thesis using del by auto
qed

lemma delete_in_eq:
  assumes "distinct ps" "\<forall>g\<in>set ps. g < length gs \<and> group_ok types (gs ! g)"
    and "unat base + length (concat (map (\<lambda>g. group_slots types (gs ! g)) ps)) < 2 ^ 64" "unat base \<le> unat idx"
  shows "\<exists>gs'. delete_in idx ps base gs = Inr gs' \<and> length gs' = length gs \<and> (\<forall>g\<in>set ps. group_ok types (gs' ! g)) \<and>
     (\<forall>g. g \<notin> set ps \<longrightarrow> gs' ! g = gs ! g) \<and>
     concat (map (\<lambda>g. group_slots types (gs' ! g)) ps) =
       (concat (map (\<lambda>g. group_slots types (gs ! g)) ps))[unat idx - unat base := None]"
  using assms
proof (induction ps arbitrary: base)
  case Nil
  then show ?case by simp
next
  case (Cons g ps)
  let ?rg = "gs ! g" and ?rest = "concat (map (\<lambda>g. group_slots types (gs ! g)) ps)"
  have len: "length (group_slots types rg) = unat (num_rows rg)" for rg by (simp add: group_slots_def)
  have bound: "unat base + unat (num_rows ?rg) + length ?rest < 2 ^ 64" using Cons.prems(3) by (simp add: len)
  then have add: "unat (base + num_rows ?rg) = unat base + unat (num_rows ?rg)" by (intro unat_add_u64) simp
  have dist: "distinct ps" "g \<notin> set ps" using Cons.prems(1) by auto
  show ?case
  proof (cases "base \<le> idx \<and> idx < base + num_rows ?rg")
    case True
    then have lt: "unat idx < unat base + unat (num_rows ?rg)" by (simp add: word_less_nat_alt add)
    have sub: "unat (idx - base) = unat idx - unat base" using True by (simp add: unat_sub)
    have lt': "unat (idx - base) < unat (num_rows ?rg)" using lt Cons.prems(4) unfolding sub by linarith
    obtain rg' where rg': "delete_local (idx - base) ?rg = Inr rg'" "group_ok types rg'"
        "group_slots types rg' = (group_slots types ?rg)[unat (idx - base) := None]"
      using delete_local_eq[of types ?rg "idx - base"] lt' Cons.prems(2) by auto
    have other: "g' \<noteq> g \<Longrightarrow> gs[g := rg'] ! g' = gs ! g'" for g' by simp
    have "concat (map (\<lambda>g'. group_slots types (gs[g := rg'] ! g')) ps) = ?rest"
      using dist(2) by (intro arg_cong[of _ _ concat] map_cong refl) (metis other)
    then have "concat (map (\<lambda>g'. group_slots types (gs[g := rg'] ! g')) (g # ps)) =
        (concat (map (\<lambda>g. group_slots types (gs ! g)) (g # ps)))[unat idx - unat base := None]"
      using Cons.prems(2) rg'(3) lt' by (simp add: sub list_update_append len)
    moreover have "\<forall>x\<in>set (g # ps). group_ok types (gs[g := rg'] ! x)"
      using Cons.prems(2) rg'(2) by (auto simp: nth_list_update)
    moreover have "delete_in idx (g # ps) base gs = Inr (gs[g := rg'])" using True rg'(1) by simp
    ultimately show ?thesis using other by (intro exI[of _ "gs[g := rg']"]) auto
  next
    case False
    then have ge: "unat base + unat (num_rows ?rg) \<le> unat idx"
      using Cons.prems(4) by (auto simp: word_le_nat_alt word_less_nat_alt add)
    obtain gs' where gs': "delete_in idx ps (base + num_rows ?rg) gs = Inr gs'" "length gs' = length gs"
        "\<forall>g\<in>set ps. group_ok types (gs' ! g)" "\<forall>g. g \<notin> set ps \<longrightarrow> gs' ! g = gs ! g"
        "concat (map (\<lambda>g. group_slots types (gs' ! g)) ps) = ?rest[unat idx - unat (base + num_rows ?rg) := None]"
      using Cons.IH[of "base + num_rows ?rg"] dist(1) Cons.prems(2) bound ge by (auto simp: add)
    have "(group_slots types ?rg @ ?rest)[unat idx - unat base := None] =
        group_slots types ?rg @ ?rest[unat idx - unat (base + num_rows ?rg) := None]"
    proof -
      have "\<not> unat idx - unat base < unat (num_rows ?rg)" using ge by linarith
      then show ?thesis by (simp add: list_update_append len add)
    qed
    then show ?thesis using False gs' dist(2) Cons.prems(2) by auto
  qed
qed

subsection \<open>The operations implement the abstract table\<close>

lemma table_abs_slots:
  "tables s name = Some st \<Longrightarrow> slots (table_abs name s) = concat (map (\<lambda>g. group_slots (table_types st) (groups s ! g)) (persisted_groups st))"
  by (simp add: table_abs_def state_abs_def)

lemma table_abs_mem:
  "tables s name = Some st \<Longrightarrow> frozen_memtable st = None \<Longrightarrow> active_memtable st = Some a \<Longrightarrow>
     mem_rows (table_abs name s) = memtable_rows (table_columns st) (memtables s ! a)"
  by (simp add: table_abs_def state_abs_def optional_def)

lemma table_invE:
  assumes "table_inv name names types s"
  obtains st a where "schema_ok names types" "tables s name = Some st" "table_columns st = names" "table_types st = types"
    "frozen_memtable st = None" "distinct (persisted_groups st)"
    "\<forall>g\<in>set (persisted_groups st). g < length (groups s) \<and> group_ok types (groups s ! g)"
    "active_memtable st = Some a" "a < length (memtables s)" "memtable_ok names types (memtables s ! a)"
  using assms by (auto simp: table_inv_def state_inv_def)

lemma insert_refines:
  assumes inv: "table_inv name names types s" and ok: "batch_ok names types batch"
  shows "\<exists>s'. InsertBatch name (Some batch) s = Inr s' \<and> table_inv name names types s' \<and>
     table_abs name s' = abs_op names (Insert batch) (table_abs name s)"
proof -
  obtain st a where st: "schema_ok names types" "tables s name = Some st" "table_columns st = names" "table_types st = types"
    "frozen_memtable st = None" "distinct (persisted_groups st)"
    "\<forall>g\<in>set (persisted_groups st). g < length (groups s) \<and> group_ok types (groups s ! g)"
    "active_memtable st = Some a" "a < length (memtables s)" "memtable_ok names types (memtables s ! a)"
    using inv by (rule table_invE)
  let ?m = "Append (Some batch) (memtables s ! a)" and ?s = "append_to a (Some batch) s"
  have rows: "memtable_rows names ?m = memtable_rows names (memtables s ! a) @ rows_of_batch names batch"
    by (simp add: memtable_rows_def Append_def)
  have m: "memtable_ok names types ?m"
  proof -
    have "row_count ?m = row_count (memtables s ! a) + word_of_nat (batch_rows batch)" by (simp add: Append_def)
    moreover have "set (batches ?m) = insert batch (set (batches (memtables s ! a)))" by (simp add: Append_def)
    ultimately show ?thesis using st(10) ok by (simp add: memtable_ok_def rows) (simp add: rows_of_batch_def)
  qed
  have s': "tables ?s = tables s" "groups ?s = groups s" "memtables ?s ! a = ?m" "length (memtables ?s) = length (memtables s)"
    using st(9) by (simp_all add: append_to_def)
  have "InsertBatch name (Some batch) s = Inr ?s" by (simp add: InsertBatch_def GetTableState_def st(2,8))
  moreover have "table_inv name names types ?s"
    using st m s' by (auto simp: table_inv_def state_inv_def)
  moreover have "table_abs name ?s = abs_op names (Insert batch) (table_abs name s)"
    using st by (simp add: table_abs_def s' state_abs_def optional_def rows)
  ultimately show ?thesis by blast
qed

lemma delete_refines:
  assumes inv: "table_inv name names types s" and bound: "length (slots (table_abs name s)) < 2 ^ 64"
  shows "\<exists>s'. DeleteRow name idx s = Inr s' \<and> table_inv name names types s' \<and>
     table_abs name s' = abs_op names (Delete idx) (table_abs name s)"
proof -
  obtain st a where st: "schema_ok names types" "tables s name = Some st" "table_columns st = names" "table_types st = types"
    "frozen_memtable st = None" "distinct (persisted_groups st)"
    "\<forall>g\<in>set (persisted_groups st). g < length (groups s) \<and> group_ok types (groups s ! g)"
    "active_memtable st = Some a" "a < length (memtables s)" "memtable_ok names types (memtables s ! a)"
    using inv by (rule table_invE)
  have b: "unat (0 :: u64) + length (concat (map (\<lambda>g. group_slots types (groups s ! g)) (persisted_groups st))) < 2 ^ 64"
    using bound by (simp add: table_abs_slots[OF st(2)] st(4))
  obtain gs where gs: "delete_in idx (persisted_groups st) 0 (groups s) = Inr gs" "length gs = length (groups s)"
      "\<forall>g\<in>set (persisted_groups st). group_ok types (gs ! g)"
      "concat (map (\<lambda>g. group_slots types (gs ! g)) (persisted_groups st)) =
         (concat (map (\<lambda>g. group_slots types (groups s ! g)) (persisted_groups st)))[unat idx - unat (0 :: u64) := None]"
    using delete_in_eq[OF st(6,7) b, of idx] by auto
  let ?s = "s\<lparr>groups := gs\<rparr>"
  have "DeleteRow name idx s = Inr ?s" by (simp add: DeleteRow_def GetTableState_def st(2) gs(1))
  moreover have "table_inv name names types ?s"
    using st gs(2,3) by (auto simp: table_inv_def state_inv_def)
  moreover have "table_abs name ?s = abs_op names (Delete idx) (table_abs name s)"
    using gs(4) by (auto simp: table_abs_def state_abs_def st(2,4) list_update_beyond not_less)
  ultimately show ?thesis by blast
qed

lemma live_collected:
  "map the (filter (\<lambda>x. x \<noteq> None) (concat (map (\<lambda>g. group_slots types (gs ! g)) ps))) =
     concat (map (\<lambda>g. map (group_row types (gs ! g)) (filter (live_row (gs ! g)) [0..<unat (num_rows (gs ! g))])) ps)"
  by (induction ps) (simp_all add: group_slots_live del: not_None_eq)

lemma compact_refines:
  assumes law: "builder_law make_batch" and inv: "table_inv name names types s"
    and bound: "length (live_rows (table_abs name s)) < 2 ^ 63"
  shows "\<exists>s'. TriggerCompaction make_batch name s = Inr s' \<and> table_inv name names types s' \<and>
     table_abs name s' = abs_op names Compact (table_abs name s)"
proof -
  obtain st a where st: "schema_ok names types" "tables s name = Some st" "table_columns st = names" "table_types st = types"
    "frozen_memtable st = None" "distinct (persisted_groups st)"
    "\<forall>g\<in>set (persisted_groups st). g < length (groups s) \<and> group_ok types (groups s ! g)"
    "active_memtable st = Some a" "a < length (memtables s)" "memtable_ok names types (memtables s ! a)"
    using inv by (rule table_invE)
  have mem: "mem_rows (table_abs name s) = memtable_rows names (memtables s ! a)"
    using table_abs_mem[OF st(2,5,8)] by (simp add: st(3))
  show ?thesis
  proof (cases "nothing_to_compact st a s")
    case True
    have "length (memtable_rows names (memtables s ! a)) < 2 ^ 63" using bound by (simp add: live_rows_def mem)
    then have "memtable_rows names (memtables s ! a) = []"
      using True st(10) by (simp add: nothing_to_compact_def GetRowCount_def memtable_ok_def word_unat_eq_iff)
    then have "table_abs name s = \<lparr>slots = [], mem_rows = []\<rparr>"
      using True st(2,3,5,8) by (simp add: table_abs_def state_abs_def nothing_to_compact_def optional_def)
    then show ?thesis
      using True inv st(2,8) by (simp add: TriggerCompaction_def GetTableState_def live_rows_def)
  next
    case False
    obtain fs s1 where f: "freeze name st s = (fs, s1)" by (cases "freeze name st s")
    have fs: "fs = st\<lparr>active_memtable := Some (length (memtables s)), frozen_memtable := Some a, version := version st + 1\<rparr>"
        "groups s1 = groups s" "memtables s1 = memtables s @ [empty_memtable]" "tables s1 = (tables s)(name \<mapsto> fs)"
      using f st(8) by (auto simp: freeze_def new_memtable_def UpdateTableState_def Let_def)
    let ?R = "live_rows (table_abs name s)"
    have R: "collected_rows fs s1 = ?R"
      using st by (simp add: collected_rows_def fs live_rows_def table_abs_slots[OF st(2)] mem live_collected optional_def nth_append del: not_None_eq)
    have col: "collect make_batch fs s1 = Inr (make_batch (zip names types) (length ?R) (cols_of (length names) ?R))"
      using collect_eq[of fs s1 make_batch] st by (simp add: fs(1-3) optional_def nth_append R[unfolded fs(1)])
    have "\<forall>row\<in>set ?R. row_ok types row"
    proof -
      have "row_ok types row" if "batch_ok names types batch" "row \<in> set (rows_of_batch names batch)" for batch row
        using that by (auto simp: batch_ok_def rows_of_batch_def batch_row_def row_ok_def list_all2_conv_all_nth column_ok_def)
      then have "\<forall>row\<in>set (memtable_rows names (memtables s ! a)). row_ok types row"
        using st(10) by (fastforce simp: memtable_rows_def memtable_ok_def)
      moreover have "\<forall>row\<in>set (map the (filter (\<lambda>x. x \<noteq> None) (slots (table_abs name s)))). row_ok types row"
        using st(7) by (auto simp: table_abs_slots[OF st(2)] st(4) group_ok_def group_slots_def split: if_splits)
      ultimately show ?thesis by (auto simp: live_rows_def mem)
    qed
    then obtain rg where rg: "Ingest (make_batch (zip names types) (length ?R) (cols_of (length names) ?R)) = Inr rg"
        "num_rows rg = word_of_nat (length ?R)" "group_ok types rg" "group_slots types rg = map Some ?R"
      using ingest_built[OF law st(1) _ bound] by blast
    let ?gs = "if 0 < num_rows rg then [length (groups s)] else []"
    let ?s = "publish name fs rg s1" and ?st = "compact_state fs ?gs"
    have pub: "tables ?s name = Some ?st" "groups ?s = groups s @ [rg]" "memtables ?s = memtables s @ [empty_memtable]"
      using fs by (auto simp: publish_def new_group_def UpdateTableState_def Let_def)
    have trig: "TriggerCompaction make_batch name s = Inr ?s"
      using False st(2,8) by (simp add: TriggerCompaction_def GetTableState_def f col rg(1))
    have "memtable_ok names types empty_memtable"
      by (simp add: memtable_ok_def memtable_rows_def empty_memtable_def)
    moreover have fsf: "table_columns fs = names" "table_types fs = types" "active_memtable fs = Some (length (memtables s))"
      using st(3,4) by (simp_all add: fs(1))
    ultimately have "state_inv names types ?st ?s"
      using rg(3) by (simp add: state_inv_def pub(2,3) compact_state_def nth_append)
    then have "table_inv name names types ?s" using st(1) pub(1) by (auto simp: table_inv_def)
    moreover have "?gs = [] \<Longrightarrow> ?R = []"
      using bound rg(2) by (auto simp: word_less_nat_alt word_unat_eq_iff split: if_splits)
    then have "table_abs name ?s = abs_op names Compact (table_abs name s)"
      using rg(4) by (auto simp: table_abs_def[of name ?s] state_abs_def pub compact_state_def fsf nth_append optional_def
          memtable_rows_def empty_memtable_def)
    ultimately show ?thesis using trig by blast
  qed
qed

subsection \<open>Sequences of operations\<close>

text \<open>
  What a client of a table relies on, whatever stores it: each operation it may call succeeds and has
  its effect on the abstract table. From this alone every sequence of operations does.
\<close>

locale row_store =
  fixes names :: "string list"
    and inv :: "'s \<Rightarrow> bool"
    and abs :: "'s \<Rightarrow> lsm_table"
    and exec :: "table_op \<Rightarrow> 's \<Rightarrow> compaction_error + 's"
    and admissible :: "table_op \<Rightarrow> lsm_table \<Rightarrow> bool"
  assumes step: "inv s \<Longrightarrow> admissible p (abs s) \<Longrightarrow> \<exists>s'. exec p s = Inr s' \<and> inv s' \<and> abs s' = abs_op names p (abs s)"
begin

fun run :: "table_op list \<Rightarrow> 's \<Rightarrow> compaction_error + 's" where
  "run [] s = Inr s"
| "run (p # ps) s = ebind (exec p s) (run ps)"

fun admissible_all :: "table_op list \<Rightarrow> lsm_table \<Rightarrow> bool" where
  "admissible_all [] a = True"
| "admissible_all (p # ps) a \<longleftrightarrow> admissible p a \<and> admissible_all ps (abs_op names p a)"

lemma run_refines:
  "inv s \<Longrightarrow> admissible_all ps (abs s) \<Longrightarrow> \<exists>s'. run ps s = Inr s' \<and> inv s' \<and> abs s' = fold (abs_op names) ps (abs s)"
proof (induction ps arbitrary: s)
  case (Cons p ps)
  then obtain s1 where "exec p s = Inr s1" "inv s1" "abs s1 = abs_op names p (abs s)" using step by fastforce
  then show ?case using Cons.IH[of s1] Cons.prems by simp
qed simp

lemma run_append: "run (ps @ qs) s = ebind (run ps s) (run qs)"
  by (induction ps arbitrary: s) (auto simp: ebind_def split: sum.split)

end

definition exec_op :: "batch_maker \<Rightarrow> string \<Rightarrow> table_op \<Rightarrow> node \<Rightarrow> compaction_error + node" where
  "exec_op make_batch name p s = (case p of
     Insert batch \<Rightarrow> (case InsertBatch name (Some batch) s of Inl e \<Rightarrow> Inl (Undefined e) | Inr s' \<Rightarrow> Inr s')
   | Delete idx \<Rightarrow> (case DeleteRow name idx s of Inl e \<Rightarrow> Inl (Undefined e) | Inr s' \<Rightarrow> Inr s')
   | Compact \<Rightarrow> TriggerCompaction make_batch name s)"

fun exec_ops :: "batch_maker \<Rightarrow> string \<Rightarrow> table_op list \<Rightarrow> node \<Rightarrow> compaction_error + node" where
  "exec_ops make_batch name [] s = Inr s"
| "exec_ops make_batch name (p # ps) s = ebind (exec_op make_batch name p s) (exec_ops make_batch name ps)"

text \<open>What the code relies on: batches of the registered schema, and fewer than 2^63 rows.\<close>

fun op_ok :: "string list \<Rightarrow> u32 list \<Rightarrow> table_op \<Rightarrow> lsm_table \<Rightarrow> bool" where
  "op_ok names types (Insert batch) a \<longleftrightarrow> batch_ok names types batch"
| "op_ok names types (Delete idx) a \<longleftrightarrow> length (slots a) < 2 ^ 64"
| "op_ok names types Compact a \<longleftrightarrow> length (live_rows a) < 2 ^ 63"

fun ops_ok :: "string list \<Rightarrow> u32 list \<Rightarrow> table_op list \<Rightarrow> lsm_table \<Rightarrow> bool" where
  "ops_ok names types [] a = True"
| "ops_ok names types (p # ps) a \<longleftrightarrow> op_ok names types p a \<and> ops_ok names types ps (abs_op names p a)"

lemma exec_op_refines:
  assumes "builder_law make_batch" "table_inv name names types s" "op_ok names types p (table_abs name s)"
  shows "\<exists>s'. exec_op make_batch name p s = Inr s' \<and> table_inv name names types s' \<and> table_abs name s' = abs_op names p (table_abs name s)"
proof (cases p)
  case (Insert batch)
  then show ?thesis using insert_refines[OF assms(2), of batch] assms(3) by (auto simp: exec_op_def)
next
  case (Delete idx)
  then show ?thesis using delete_refines[OF assms(2), of idx] assms(3) by (auto simp: exec_op_def)
next
  case Compact
  then show ?thesis using compact_refines[OF assms(1,2)] assms(3) by (simp add: exec_op_def)
qed

text \<open>
  The tables of a node are row stores. The Arrow builders are a parameter, so the law they obey is
  part of the invariant's condition.
\<close>

interpretation lsm: row_store names "\<lambda>s. builder_law make_batch \<and> table_inv name names types s" "table_abs name"
    "exec_op make_batch name" "op_ok names types" for names types name make_batch
  by unfold_locales (metis exec_op_refines)

lemma exec_ops_run: "exec_ops make_batch name ps s = lsm.run make_batch name ps s"
  by (induction ps arbitrary: s) (simp_all add: lsm.run.simps ebind_def split: sum.split)

lemma ops_ok_all: "ops_ok names types ps a = lsm.admissible_all names types ps a"
  by (induction ps arbitrary: a) (simp_all add: lsm.admissible_all.simps)

subsection \<open>A batch maker for the witnesses\<close>

definition cell_array :: "u32 \<Rightarrow> cell list \<Rightarrow> arrow_array" where
  "cell_array t col = \<lparr>type_id = t, is_null = (\<lambda>i. col ! i = Null),
     raw_value = (\<lambda>i. case col ! i of Num w \<Rightarrow> uint w | _ \<Rightarrow> 0),
     get_view = (\<lambda>i. case col ! i of Str s \<Rightarrow> s | _ \<Rightarrow> []), buffer_sizes = []\<rparr>"

definition make_arrow :: batch_maker where
  "make_arrow fs n cols = batch_of n (map2 (\<lambda>(name, t) col. (name, cell_array t col)) fs cols)"

lemma make_arrow_law: "builder_law make_arrow"
  unfolding builder_law_def
proof (intro allI impI)
  fix fs :: "(string \<times> u32) list" and rows :: "row list"
  assume fs: "distinct (map fst fs)" "length rows < 2 ^ 63" "set (map snd fs) \<subseteq> {Type_STRING, Type_INT64}"
    and rows: "\<forall>row\<in>set rows. row_ok (map snd fs) row"
  let ?cols = "cols_of (length fs) rows"
  let ?nc = "map2 (\<lambda>(name, t) col. (name, cell_array t col)) fs ?cols"
  have lc: "length ?cols = length fs" by (simp add: cols_of_def)
  have nth: "?nc ! f = (fst (fs ! f), cell_array (snd (fs ! f)) (?cols ! f))" if "f < length fs" for f
    using that lc by (simp add: split_def)
  have names: "map fst ?nc = map fst fs" using lc by (intro nth_equalityI) (simp_all add: nth split_def)
  have ab: "arrow_batch (make_arrow fs (length rows) ?cols)"
    unfolding make_arrow_def by (rule arrow_batch_of) (simp_all only: names fs)
  have schema: "schema_fields (make_arrow fs (length rows) ?cols) = fs"
    using lc by (intro nth_equalityI) (simp_all add: make_arrow_def batch_of_def split_def cell_array_def)
  have "array_cell (batch_columns (make_arrow fs (length rows) ?cols) ! f) r = rows ! r ! f"
    if f: "f < length fs" and r: "r < length rows" for f r
  proof -
    have "row_ok (map snd fs) (rows ! r)" using rows r by simp
    then have ok: "cell_ok (snd (fs ! f)) (rows ! r ! f)" using f by (simp add: row_ok_def list_all2_conv_all_nth)
    have "snd (fs ! f) \<in> set (map snd fs)" using f by simp
    then have ty: "snd (fs ! f) \<in> {Type_STRING, Type_INT64}" using fs(3) by blast
    have "?cols ! f ! r = rows ! r ! f" using f r by (simp add: cols_of_def)
    then show ?thesis
      using f lc ok ty
      by (cases "rows ! r ! f") (auto simp: make_arrow_def batch_of_def split_def array_cell_def cell_array_def cell_ok_def is_string_type_def)
  qed
  then show "builds_batch make_arrow fs rows"
    using ab schema by (simp add: builds_batch_def Let_def make_arrow_def batch_of_def)
qed

lemma register_inv: "schema_ok names types \<Longrightarrow> table_inv name names types (RegisterTable name names types s)"
  "table_abs name (RegisterTable name names types s) = \<lparr>slots = [], mem_rows = []\<rparr>"
  by (auto simp: table_inv_def state_inv_def RegisterTable_def new_memtable_def first_state_def memtable_ok_def memtable_rows_def
      empty_memtable_def nth_append table_abs_def state_abs_def optional_def)

lemma ids_batch_ok: "batch_ok [''id''] [Type_INT64] (ids_batch xs)"
  by (auto simp: batch_ok_def column_ok_def ids_columns as_int64_array_def int64_array_def array_cell_def cell_ok_def is_string_type_def)

lemma ids_rows: "rows_of_batch [''id''] (ids_batch xs) = map (\<lambda>x. [case x of None \<Rightarrow> Null | Some v \<Rightarrow> Num (word_of_int v)]) xs"
  by (rule nth_equalityI) (auto simp: rows_of_batch_def batch_row_def ids_columns array_cell_def int64_array_def is_string_type_def split: option.split)

lemma demo_schema: "schema_ok [''id''] [Type_INT64]"
  by (simp add: schema_ok_def)

subsection \<open>Properties\<close>

text \<open>
  Property C19. The table refines its specification: started in a well-formed table, every sequence of
  insertions, deletions and compactions succeeds, keeps the table well formed, and its slots and
  rows in memory are those of the abstract table, as long as the batches have the registered
  schema, the Arrow builders keep their law, and fewer than 2^63 rows are stored.
\<close>

theorem table_refines_rows:
  assumes "builder_law make_batch" "table_inv name names types s" "ops_ok names types ps (table_abs name s)"
  shows "\<exists>s'. exec_ops make_batch name ps s = Inr s' \<and> table_inv name names types s' \<and>
     table_abs name s' = fold (abs_op names) ps (table_abs name s)"
  using lsm.run_refines[of make_batch name names types s ps] assms by (simp add: exec_ops_run ops_ok_all)

theorem table_refines_rows_witness:
  "\<exists>s'. exec_ops make_arrow ''t'' [Insert (ids_batch [Some 7, None]), Compact, Delete 0, Insert (ids_batch [Some 3]), Compact]
       (RegisterTable ''t'' [''id''] [Type_INT64] empty_node) = Inr s' \<and>
     live_rows (table_abs ''t'' s') = [[Null], [Num 3]]"
proof -
  let ?ps = "[Insert (ids_batch [Some 7, None]), Compact, Delete 0, Insert (ids_batch [Some 3]), Compact]"
  let ?s = "RegisterTable ''t'' [''id''] [Type_INT64] empty_node"
  have "ops_ok [''id''] [Type_INT64] ?ps (table_abs ''t'' ?s)"
    by (simp add: register_inv(2) ids_batch_ok ids_rows live_rows_def)
  then obtain s' where s': "exec_ops make_arrow ''t'' ?ps ?s = Inr s'" "table_abs ''t'' s' = fold (abs_op [''id'']) ?ps (table_abs ''t'' ?s)"
    using table_refines_rows[OF make_arrow_law register_inv(1)[OF demo_schema]] by blast
  have "live_rows (table_abs ''t'' s') = [[Null], [Num 3]]"
    unfolding s'(2) by (simp add: register_inv(2) ids_rows live_rows_def)
  then show ?thesis using s'(1) by blast
qed

text \<open>
  Property C20. A compaction that runs alone loses nothing and invents nothing: the live rows are the same
  rows in the same order, all of them are persisted, no tombstone is left, and the active memory
  table is empty.
\<close>

theorem compaction_preserves_rows:
  assumes "builder_law make_batch" "table_inv name names types s" "length (live_rows (table_abs name s)) < 2 ^ 63"
  shows "\<exists>s'. TriggerCompaction make_batch name s = Inr s' \<and> live_rows (table_abs name s') = live_rows (table_abs name s) \<and>
     mem_rows (table_abs name s') = [] \<and> None \<notin> set (slots (table_abs name s'))"
  using compact_refines[OF assms] by (auto simp: live_rows_def)

theorem compaction_preserves_rows_witness:
  "\<exists>s s'. InsertBatch ''t'' (Some (ids_batch [Some 7, None])) (RegisterTable ''t'' [''id''] [Type_INT64] empty_node) = Inr s \<and>
     TriggerCompaction make_arrow ''t'' s = Inr s' \<and> live_rows (table_abs ''t'' s') = [[Num 7], [Null]]"
proof -
  let ?s0 = "RegisterTable ''t'' [''id''] [Type_INT64] empty_node"
  obtain s where s: "InsertBatch ''t'' (Some (ids_batch [Some 7, None])) ?s0 = Inr s" "table_inv ''t'' [''id''] [Type_INT64] s"
      "table_abs ''t'' s = abs_op [''id''] (Insert (ids_batch [Some 7, None])) (table_abs ''t'' ?s0)"
    using insert_refines[OF register_inv(1)[OF demo_schema] ids_batch_ok] by blast
  have rows: "live_rows (table_abs ''t'' s) = [[Num 7], [Null]]"
    unfolding s(3) by (simp add: register_inv(2) ids_rows live_rows_def)
  then show ?thesis
    using compaction_preserves_rows[OF make_arrow_law s(2)] s(1) by auto
qed

text \<open>
  Synchronising a node can throw rows away: after a table is registered globally and a batch
  is inserted locally, \<open>SyncLocalNode\<close> replaces the local state by the global one, which has its
  own empty memory table, whatever the versions are.
\<close>

theorem sync_discards_local_rows:
  "\<exists>s. InsertBatch ''t'' (Some (ids_batch [Some 7])) (GlobalRegisterTable ''t'' [''id''] [Type_INT64] empty_node) = Inr s \<and>
     live_rows (table_abs ''t'' s) = [[Num 7]] \<and> live_rows (table_abs ''t'' (SyncLocalNode ''t'' s)) = []"
proof -
  let ?reg = "GlobalRegisterTable ''t'' [''id''] [Type_INT64] empty_node"
  let ?s = "append_to 1 (Some (ids_batch [Some 7])) ?reg"
  have "InsertBatch ''t'' (Some (ids_batch [Some 7])) ?reg = Inr ?s"
    by (simp add: InsertBatch_def GetTableState_def GlobalRegisterTable_def RegisterTable_def new_memtable_def empty_node_def first_state_def)
  moreover have "live_rows (table_abs ''t'' ?s) = [[Num 7]]"
    by (simp add: live_rows_def table_abs_def state_abs_def GlobalRegisterTable_def RegisterTable_def new_memtable_def empty_node_def
        first_state_def append_to_def optional_def memtable_rows_def Append_def empty_memtable_def ids_rows)
  moreover have "live_rows (table_abs ''t'' (SyncLocalNode ''t'' ?s)) = []"
    by (simp add: live_rows_def table_abs_def state_abs_def SyncLocalNode_def UpdateTableState_def GlobalRegisterTable_def RegisterTable_def
        new_memtable_def empty_node_def first_state_def append_to_def optional_def memtable_rows_def empty_memtable_def)
  ultimately show ?thesis by blast
qed

lemma global_publications: "groups (backplane.publish_all sts s) = groups s" "memtables (backplane.publish_all sts s) = memtables s"
  "tables (backplane.publish_all sts s) = tables s"
  by (induction sts arbitrary: s) (auto simp: backplane.publish_all_def UpdateGlobalState_def)

text \<open>
  Property C21. Synchronising a node replaces its table by the state that was published last for its name, whatever
  the local table holds and whatever the versions are, and leaves every other table as it was. The rows a client
  inserted locally since then are gone, as the witness shows.
\<close>

theorem sync_takes_last_publication:
  assumes "map_of (rev sts) name = Some st"
  shows "\<exists>s'. SyncLocalNode name (fold (\<lambda>(n, g). UpdateGlobalState n g) sts s) = s' \<and> table_abs name s' = state_abs st s \<and>
    (\<forall>other. GetTableState other s' = (if other = name then Some st else GetTableState other s))"
proof -
  let ?g = "backplane.publish_all sts s"
  have "GetGlobalState name ?g = Some st" by (simp add: backplane.lookup_publish_all assms)
  then have "SyncLocalNode name ?g = UpdateTableState name st ?g" by (simp add: SyncLocalNode_def GetGlobalState_def)
  moreover have look: "GetTableState other (UpdateTableState name st ?g) = (if other = name then Some st else GetTableState other s)" for other
    by (auto simp: local.lookup_publish_iff) (simp add: GetTableState_def global_publications)
  moreover have "table_abs name (UpdateTableState name st ?g) = state_abs st s"
    using look[of name] by (simp add: table_abs_def GetTableState_def state_abs_def UpdateTableState_def global_publications)
  ultimately show ?thesis unfolding backplane.publish_all_def by auto
qed

theorem sync_takes_last_publication_witness:
  "\<exists>s st s'. InsertBatch ''t'' (Some (ids_batch [Some 7])) (RegisterTable ''t'' [''id''] [Type_INT64] empty_node) = Inr s \<and>
     live_rows (table_abs ''t'' s) = [[Num 7]] \<and> SyncLocalNode ''t'' (UpdateGlobalState ''t'' st s) = s' \<and> live_rows (table_abs ''t'' s') = []"
proof -
  let ?reg = "RegisterTable ''t'' [''id''] [Type_INT64] empty_node"
  let ?st = "first_state ''t'' [''id''] [Type_INT64] 9 \<lparr>active_memtable := None\<rparr>"
  obtain s where s: "InsertBatch ''t'' (Some (ids_batch [Some 7])) ?reg = Inr s"
      "table_abs ''t'' s = abs_op [''id''] (Insert (ids_batch [Some 7])) (table_abs ''t'' ?reg)"
    using insert_refines[OF register_inv(1)[OF demo_schema] ids_batch_ok] by blast
  have "live_rows (table_abs ''t'' s) = [[Num 7]]" unfolding s(2) by (simp add: register_inv(2) ids_rows live_rows_def)
  moreover have "live_rows (state_abs ?st s) = []" by (simp add: live_rows_def state_abs_def first_state_def optional_def)
  moreover have "table_abs ''t'' (SyncLocalNode ''t'' (UpdateGlobalState ''t'' ?st s)) = state_abs ?st s"
    using sync_takes_last_publication[of "[(''t'', ?st)]" "''t''" ?st s] by simp
  ultimately have "InsertBatch ''t'' (Some (ids_batch [Some 7])) ?reg = Inr s \<and> live_rows (table_abs ''t'' s) = [[Num 7]] \<and>
      live_rows (table_abs ''t'' (SyncLocalNode ''t'' (UpdateGlobalState ''t'' ?st s))) = []" using s(1) by simp
  then show ?thesis by blast
qed

end
