(* ===== verification/Interleaving.thy ===== *)
theory Interleaving
  imports Lsm_Refines
begin

text \<open>
  Compactions, insertions and deletions at the same time. The registry's lock covers a lookup, a publication or the
  clearing of a tombstone bit, but not a whole insertion (lookup of the snapshot, then append to its memory table), not
  a whole deletion (lookup of the snapshot, then the bit in its row groups) and not a whole compaction (freeze, collect,
  publish). The step relation below has one step per critical section; one daemon compacts a table, any number of
  threads insert and delete. The theorems say which runs are serialisable, that a compaction can end, and which runs
  lose an insertion or undo a deletion.
\<close>

subsection \<open>Worlds and steps\<close>

datatype phase = Idle | Frozen table_state | Built table_state row_group

text \<open>
  \<open>pending\<close> are the insertions that have looked up their memory table and not appended yet, \<open>deleting\<close> the deletions that
  have looked up their snapshot and not cleared their bit yet. \<open>history\<close> and \<open>overlapping\<close> only record, for the statements,
  the operations that have returned: the batches of \<open>overlapping\<close> were appended since the last freeze, those of
  \<open>history\<close> before, and a publication counts as a compaction between the two.
\<close>

record world =
  store :: node
  pending :: "(nat \<times> record_batch) list"
  deleting :: "(table_state \<times> u64) list"
  phase :: phase
  history :: "table_op list"
  overlapping :: "record_batch list"

text \<open>The operations in the order in which they count: the serial run that a run is compared with.\<close>

definition serial :: "world \<Rightarrow> table_op list" where
  "serial w = history w @ map Insert (overlapping w)"

definition log_insert :: "record_batch \<Rightarrow> world \<Rightarrow> world" where
  "log_insert batch w = (if phase w = Idle then w\<lparr>history := history w @ [Insert batch]\<rparr> else w\<lparr>overlapping := overlapping w @ [batch]\<rparr>)"

definition log_publish :: "world \<Rightarrow> world" where
  "log_publish w = w\<lparr>history := history w @ [Compact] @ map Insert (overlapping w), overlapping := []\<rparr>"

text \<open>The second critical section of \<open>DeleteRow\<close>, on the snapshot of the first.\<close>

definition clear_row :: "table_state \<Rightarrow> u64 \<Rightarrow> node \<Rightarrow> table_error + node" where
  "clear_row st idx s = ebind (delete_in idx (persisted_groups st) 0 (groups s)) (\<lambda>gs. Inr (s\<lparr>groups := gs\<rparr>))"

lemma DeleteRow_sections:
  "DeleteRow name idx s = (case GetTableState name s of None \<Rightarrow> Inl (Table_not_registered name) | Some st \<Rightarrow> clear_row st idx s)"
  by (simp add: DeleteRow_def clear_row_def split: option.split)

text \<open>
  The daemon looks the state up before it publishes the frozen one; no other step of this relation publishes a state,
  so the two count as one step.
\<close>

datatype action = Start_insert record_batch | Finish_insert | Start_delete u64 | Finish_delete | Freeze | Collect | Publish

inductive lsm_step :: "batch_maker \<Rightarrow> string \<Rightarrow> action \<Rightarrow> world \<Rightarrow> world \<Rightarrow> bool" for make_batch name where
  start: "GetTableState name (store w) = Some st \<Longrightarrow> active_memtable st = Some m \<Longrightarrow>
    lsm_step make_batch name (Start_insert batch) w (w\<lparr>pending := pending w @ [(m, batch)]\<rparr>)"
| finish: "pending w = xs @ (m, batch) # ys \<Longrightarrow>
    lsm_step make_batch name Finish_insert w
      (log_insert batch (w\<lparr>store := append_to m (Some batch) (store w), pending := xs @ ys\<rparr>))"
| start_delete: "GetTableState name (store w) = Some st \<Longrightarrow>
    lsm_step make_batch name (Start_delete idx) w (w\<lparr>deleting := deleting w @ [(st, idx)]\<rparr>)"
| finish_delete: "deleting w = xs @ (st, idx) # ys \<Longrightarrow> clear_row st idx (store w) = Inr s \<Longrightarrow>
    lsm_step make_batch name Finish_delete w (w\<lparr>store := s, deleting := xs @ ys, history := history w @ [Delete idx]\<rparr>)"
| freeze: "phase w = Idle \<Longrightarrow> GetTableState name (store w) = Some st \<Longrightarrow> active_memtable st = Some a \<Longrightarrow>
    \<not> nothing_to_compact st a (store w) \<Longrightarrow> freeze name st (store w) = (fs, s) \<Longrightarrow>
    lsm_step make_batch name Freeze w (w\<lparr>store := s, phase := Frozen fs\<rparr>)"
| collect: "phase w = Frozen fs \<Longrightarrow> collect make_batch fs (store w) = Inr batch \<Longrightarrow> Ingest batch = Inr rg \<Longrightarrow>
    lsm_step make_batch name Collect w (w\<lparr>phase := Built fs rg\<rparr>)"
| publish: "phase w = Built fs rg \<Longrightarrow>
    lsm_step make_batch name Publish w (log_publish (w\<lparr>store := publish name fs rg (store w), phase := Idle\<rparr>))"

inductive_cases start_cases: "lsm_step make_batch name (Start_insert batch) w w'"
inductive_cases finish_cases: "lsm_step make_batch name Finish_insert w w'"
inductive_cases start_delete_cases: "lsm_step make_batch name (Start_delete idx) w w'"
inductive_cases finish_delete_cases: "lsm_step make_batch name Finish_delete w w'"
inductive_cases freeze_cases: "lsm_step make_batch name Freeze w w'"
inductive_cases collect_cases: "lsm_step make_batch name Collect w w'"
inductive_cases publish_cases: "lsm_step make_batch name Publish w w'"

lemmas step_cases = start_cases finish_cases start_delete_cases finish_delete_cases freeze_cases collect_cases publish_cases

inductive lsm_run :: "batch_maker \<Rightarrow> string \<Rightarrow> action list \<Rightarrow> world \<Rightarrow> world \<Rightarrow> bool" for make_batch name where
  stop: "lsm_run make_batch name [] w w"
| more: "lsm_step make_batch name a w w1 \<Longrightarrow> lsm_run make_batch name acts w1 w2 \<Longrightarrow> lsm_run make_batch name (a # acts) w w2"

inductive_simps run_simps: "lsm_run make_batch name [] w w'" "lsm_run make_batch name (a # acts) w w'"

definition idle_world :: "node \<Rightarrow> world" where
  "idle_world s = \<lparr>store = s, pending = [], deleting = [], phase = Idle, history = [], overlapping = []\<rparr>"

lemma log_simps [simp]:
  "store (log_insert batch w) = store w" "pending (log_insert batch w) = pending w" "deleting (log_insert batch w) = deleting w"
  "phase (log_insert batch w) = phase w" "store (log_publish w) = store w" "pending (log_publish w) = pending w"
  "deleting (log_publish w) = deleting w" "phase (log_publish w) = phase w" "overlapping (log_publish w) = []"
  "serial (log_publish w) = history w @ [Compact] @ map Insert (overlapping w)"
  by (simp_all add: log_insert_def log_publish_def serial_def)

lemma serial_log_insert: "(phase w = Idle \<Longrightarrow> overlapping w = []) \<Longrightarrow> serial (log_insert batch w) = serial w @ [Insert batch]"
  by (simp add: log_insert_def serial_def)

lemma fold_inserts: "fold (abs_op names) (map Insert bs) a = a\<lparr>mem_rows := mem_rows a @ concat (map (rows_of_batch names) bs)\<rparr>"
  by (induction bs arbitrary: a) simp_all

lemma delete_before_inserts:
  "abs_op names (Delete idx) (fold (abs_op names) (map Insert bs) a) = fold (abs_op names) (map Insert bs) (abs_op names (Delete idx) a)"
  by (simp add: fold_inserts)

subsection \<open>A table while a compaction runs\<close>

definition running_inv :: "string list \<Rightarrow> u32 list \<Rightarrow> table_state \<Rightarrow> nat \<Rightarrow> node \<Rightarrow> bool" where
  "running_inv names types st a s \<longleftrightarrow> table_columns st = names \<and> table_types st = types \<and> distinct (persisted_groups st) \<and>
     (\<forall>g\<in>set (persisted_groups st). g < length (groups s) \<and> group_ok types (groups s ! g)) \<and>
     active_memtable st = Some a \<and> a < length (memtables s) \<and> memtable_ok names types (memtables s ! a) \<and>
     (\<forall>f\<in>set (optional (frozen_memtable st)). f < length (memtables s) \<and> f \<noteq> a \<and> memtable_ok names types (memtables s ! f))"

lemma running_state: "frozen_memtable st = None \<Longrightarrow> state_inv names types st s \<longleftrightarrow> (\<exists>a. running_inv names types st a s)"
  by (auto simp: state_inv_def running_inv_def optional_def)

lemma live_split:
  assumes "running_inv names types st a s"
  shows "live_rows (state_abs st s) = collected_rows st s @ memtable_rows names (memtables s ! a)"
  using assms by (simp add: running_inv_def live_rows_def state_abs_def collected_rows_def live_collected optional_def del: not_None_eq)

text \<open>Appending to the active memory table adds rows at the end, and leaves what a compaction reads alone.\<close>

lemma append_running:
  assumes inv: "running_inv names types st a s" and ok: "batch_ok names types batch"
  shows "running_inv names types st a (append_to a (Some batch) s)"
    "collected_rows st (append_to a (Some batch) s) = collected_rows st s"
    "state_abs st (append_to a (Some batch) s) = abs_op names (Insert batch) (state_abs st s)"
    "memtable_rows names (memtables (append_to a (Some batch) s) ! a) = memtable_rows names (memtables s ! a) @ rows_of_batch names batch"
proof -
  let ?s = "append_to a (Some batch) s" and ?m = "Append (Some batch) (memtables s ! a)"
  have s: "groups ?s = groups s" "memtables ?s ! a = ?m" "b \<noteq> a \<Longrightarrow> memtables ?s ! b = memtables s ! b"
      "length (memtables ?s) = length (memtables s)" for b
    using inv by (auto simp: append_to_def running_inv_def)
  have rows: "memtable_rows names ?m = memtable_rows names (memtables s ! a) @ rows_of_batch names batch"
    by (simp add: memtable_rows_def Append_def)
  have "memtable_ok names types (memtables s ! a)" using inv by (simp add: running_inv_def)
  moreover have "row_count ?m = row_count (memtables s ! a) + word_of_nat (batch_rows batch)" by (simp add: Append_def)
  moreover have "set (batches ?m) = insert batch (set (batches (memtables s ! a)))" by (simp add: Append_def)
  ultimately have "memtable_ok names types ?m" using ok by (simp add: memtable_ok_def rows) (simp add: rows_of_batch_def)
  then show inv': "running_inv names types st a ?s" using inv s by (auto simp: running_inv_def)
  have frz: "concat (map (\<lambda>m. memtable_rows names (memtables ?s ! m)) (optional (frozen_memtable st))) =
      concat (map (\<lambda>m. memtable_rows names (memtables s ! m)) (optional (frozen_memtable st)))"
    by (intro arg_cong[of _ _ concat] map_cong refl) (use inv s(3) in \<open>auto simp: running_inv_def\<close>)
  then show "collected_rows st ?s = collected_rows st s" using inv by (simp add: collected_rows_def s(1) running_inv_def)
  show "state_abs st ?s = abs_op names (Insert batch) (state_abs st s)"
    using inv frz by (simp add: state_abs_def running_inv_def s(1,2) rows optional_def)
  show "memtable_rows names (memtables ?s ! a) = memtable_rows names (memtables s ! a) @ rows_of_batch names batch"
    by (simp add: s(2) rows)
qed

lemma freeze_running:
  assumes inv: "running_inv names types st a s" and frz: "frozen_memtable st = None" and f: "freeze name st s = (fs, s1)"
  shows "running_inv names types fs (length (memtables s)) s1" "frozen_memtable fs = Some a" "tables s1 name = Some fs"
    "state_abs fs s1 = state_abs st s" "memtable_rows names (memtables s1 ! length (memtables s)) = []"
    "persisted_groups fs = persisted_groups st"
proof -
  have fs: "fs = st\<lparr>active_memtable := Some (length (memtables s)), frozen_memtable := Some a, version := version st + 1\<rparr>"
      "groups s1 = groups s" "memtables s1 = memtables s @ [empty_memtable]" "tables s1 = (tables s)(name \<mapsto> fs)"
    using f inv by (auto simp: freeze_def new_memtable_def UpdateTableState_def Let_def running_inv_def)
  have e: "memtable_ok names types empty_memtable" "memtable_rows names empty_memtable = []"
    by (simp_all add: memtable_ok_def memtable_rows_def empty_memtable_def)
  show inv': "running_inv names types fs (length (memtables s)) s1"
    using inv e(1) by (auto simp: running_inv_def fs(1-3) optional_def nth_append)
  show "frozen_memtable fs = Some a" "tables s1 name = Some fs" by (simp_all add: fs)
  show z: "memtable_rows names (memtables s1 ! length (memtables s)) = []" by (simp add: fs(3) e(2))
  show "state_abs fs s1 = state_abs st s"
    using inv frz e(2) by (simp add: state_abs_def fs(1-3) optional_def nth_append running_inv_def)
  show "persisted_groups fs = persisted_groups st" by (simp add: fs)
qed

text \<open>The row group a compaction builds holds the collected rows.\<close>

definition holds_rows :: "u32 list \<Rightarrow> row_group \<Rightarrow> row list \<Rightarrow> bool" where
  "holds_rows types rg rows \<longleftrightarrow> length rows < 2 ^ 63 \<and> num_rows rg = word_of_nat (length rows) \<and> group_ok types rg \<and>
     group_slots types rg = map Some rows"

lemma collected_ok:
  assumes "running_inv names types st a s"
  shows "\<forall>row\<in>set (collected_rows st s). row_ok types row"
proof -
  have "row_ok types row" if "batch_ok names types batch" "row \<in> set (rows_of_batch names batch)" for batch row
    using that by (auto simp: batch_ok_def rows_of_batch_def batch_row_def row_ok_def list_all2_conv_all_nth column_ok_def)
  then show ?thesis
    using assms by (fastforce simp: collected_rows_def running_inv_def group_ok_def memtable_rows_def memtable_ok_def)
qed

lemma collect_running:
  assumes law: "builder_law make_batch" and sch: "schema_ok names types" and inv: "running_inv names types st a s"
    and bound: "length (collected_rows st s) < 2 ^ 63"
  shows "\<exists>batch rg. collect make_batch st s = Inr batch \<and> Ingest batch = Inr rg \<and> holds_rows types rg (collected_rows st s)"
proof -
  have "collect make_batch st s = Inr (make_batch (zip names types) (length (collected_rows st s)) (cols_of (length names) (collected_rows st s)))"
    using collect_eq[of st s make_batch] sch inv by (simp add: running_inv_def)
  then show ?thesis using ingest_built[OF law sch collected_ok[OF inv] bound] bound by (auto simp: holds_rows_def)
qed

lemma publish_running:
  assumes inv: "running_inv names types st a s" and rg: "holds_rows types rg rows"
  defines "st' \<equiv> compact_state st (if 0 < num_rows rg then [length (groups s)] else [])"
  shows "tables (publish name st rg s) name = Some st'" "running_inv names types st' a (publish name st rg s)" "frozen_memtable st' = None"
    "state_abs st' (publish name st rg s) = \<lparr>slots = map Some rows, mem_rows = memtable_rows names (memtables s ! a)\<rparr>"
proof -
  let ?s = "publish name st rg s"
  have s: "groups ?s = groups s @ [rg]" "memtables ?s = memtables s"
    by (simp_all add: publish_def new_group_def UpdateTableState_def)
  show "tables ?s name = Some st'" by (simp add: publish_def new_group_def UpdateTableState_def st'_def)
  show "frozen_memtable st' = None" by (simp add: st'_def compact_state_def)
  have ne: "0 < num_rows rg \<longleftrightarrow> rows \<noteq> []" using rg by (auto simp: holds_rows_def word_less_nat_alt)
  show inv': "running_inv names types st' a ?s"
    using inv rg by (simp add: running_inv_def st'_def compact_state_def s nth_append optional_def holds_rows_def)
  show "state_abs st' ?s = \<lparr>slots = map Some rows, mem_rows = memtable_rows names (memtables s ! a)\<rparr>"
    using inv rg ne by (simp add: state_abs_def st'_def compact_state_def optional_def s running_inv_def holds_rows_def)
qed

subsection \<open>Orderly runs are serial runs\<close>

text \<open>
  A run is orderly if the batches have the table's schema, no insertion is between its two steps when the daemon freezes,
  no deletion is between its two steps when the daemon reads the rows, none starts after that until the publication,
  and there are fewer than 2^63 rows to collect and fewer than 2^64 positions. Insertions may run at any time after the
  freeze, deletions at any time before the collection.
\<close>

definition orderly :: "string \<Rightarrow> string list \<Rightarrow> u32 list \<Rightarrow> action \<Rightarrow> world \<Rightarrow> bool" where
  "orderly name names types a w \<longleftrightarrow> (case a of
     Start_insert batch \<Rightarrow> batch_ok names types batch
   | Start_delete _ \<Rightarrow> (\<forall>fs rg. phase w \<noteq> Built fs rg)
   | Finish_delete \<Rightarrow> length (slots (table_abs name (store w))) < 2 ^ 64
   | Freeze \<Rightarrow> pending w = []
   | Collect \<Rightarrow> deleting w = [] \<and> length (live_rows (table_abs name (store w))) < 2 ^ 63
   | _ \<Rightarrow> True)"

inductive orderly_reachable :: "batch_maker \<Rightarrow> string \<Rightarrow> string list \<Rightarrow> u32 list \<Rightarrow> world \<Rightarrow> world \<Rightarrow> bool"
  for make_batch name names types w0 where
  initial: "orderly_reachable make_batch name names types w0 w0"
| next_step: "orderly_reachable make_batch name names types w0 w \<Longrightarrow> orderly name names types a w \<Longrightarrow>
    lsm_step make_batch name a w w' \<Longrightarrow> orderly_reachable make_batch name names types w0 w'"

definition phase_inv :: "u32 list \<Rightarrow> table_state \<Rightarrow> node \<Rightarrow> phase \<Rightarrow> bool" where
  "phase_inv types st s ph \<longleftrightarrow> (case ph of
     Idle \<Rightarrow> frozen_memtable st = None
   | Frozen fs \<Rightarrow> fs = st \<and> frozen_memtable st \<noteq> None
   | Built fs rg \<Rightarrow> fs = st \<and> frozen_memtable st \<noteq> None \<and> holds_rows types rg (collected_rows st s))"

text \<open>What the steps keep: \<open>st\<close> is the published state, \<open>a\<close> its active memory table, \<open>base\<close> the table at the start.\<close>

definition open_ops_inv :: "string list \<Rightarrow> u32 list \<Rightarrow> table_state \<Rightarrow> nat \<Rightarrow> world \<Rightarrow> bool" where
  "open_ops_inv names types st a w \<longleftrightarrow>
     (\<forall>(m, batch)\<in>set (pending w). m = a \<and> batch_ok names types batch) \<and>
     (\<forall>(d, idx)\<in>set (deleting w). persisted_groups d = persisted_groups st) \<and>
     ((\<exists>fs rg. phase w = Built fs rg) \<longrightarrow> deleting w = []) \<and>
     (if phase w = Idle then overlapping w = []
      else memtable_rows names (memtables (store w) ! a) = concat (map (rows_of_batch names) (overlapping w)))"

definition state_ok :: "string \<Rightarrow> string list \<Rightarrow> u32 list \<Rightarrow> lsm_table \<Rightarrow> world \<Rightarrow> table_state \<Rightarrow> nat \<Rightarrow> bool" where
  "state_ok name names types base w st a \<longleftrightarrow> tables (store w) name = Some st \<and> running_inv names types st a (store w) \<and>
     phase_inv types st (store w) (phase w) \<and> open_ops_inv names types st a w \<and>
     state_abs st (store w) = fold (abs_op names) (serial w) base"

definition world_inv :: "string \<Rightarrow> string list \<Rightarrow> u32 list \<Rightarrow> lsm_table \<Rightarrow> world \<Rightarrow> bool" where
  "world_inv name names types base w \<longleftrightarrow> (\<exists>st a. state_ok name names types base w st a)"

lemma state_okD:
  assumes "state_ok name names types base w st a"
  shows "tables (store w) name = Some st" "running_inv names types st a (store w)" "phase_inv types st (store w) (phase w)"
    "open_ops_inv names types st a w" "state_abs st (store w) = fold (abs_op names) (serial w) base"
    "table_abs name (store w) = state_abs st (store w)" "active_memtable st = Some a"
  using assms by (simp_all add: state_ok_def table_abs_def running_inv_def)

lemma world_inv_serial: "world_inv name names types base w \<Longrightarrow> table_abs name (store w) = fold (abs_op names) (serial w) base"
  using state_okD(5,6) by (fastforce simp: world_inv_def)

lemma finish_insert_ok:
  assumes w: "state_ok name names types base w st a" and p: "pending w = xs @ (m, batch) # ys"
  shows "state_ok name names types base (log_insert batch (w\<lparr>store := append_to m (Some batch) (store w), pending := xs @ ys\<rparr>)) st a"
    (is "state_ok _ _ _ _ ?w _ _")
proof -
  note d = state_okD[OF w]
  have m: "m = a" "batch_ok names types batch" using d(4) p by (auto simp: open_ops_inv_def)
  note app = append_running[OF d(2) m(2)]
  have "phase_inv types st (append_to a (Some batch) (store w)) (phase w)"
    using d(3) app(2) by (auto simp: phase_inv_def split: phase.splits)
  moreover have "open_ops_inv names types st a ?w"
    using d(4) app(4) p m(1) by (auto simp: open_ops_inv_def log_insert_def)
  moreover have "serial ?w = serial w @ [Insert batch]"
    using d(4) by (subst serial_log_insert) (auto simp: open_ops_inv_def serial_def)
  ultimately show ?thesis using app(1,3) d(1,5) m(1) by (simp add: state_ok_def append_to_def)
qed

text \<open>A deletion during a compaction changes the old row groups only.\<close>

lemma delete_running:
  assumes inv: "running_inv names types st a s" and t: "tables s name = Some st" and bound: "length (slots (table_abs name s)) < 2 ^ 64"
  shows "\<exists>s'. DeleteRow name idx s = Inr s' \<and> running_inv names types st a s' \<and> memtables s' = memtables s \<and>
     slots (table_abs name s') = (slots (table_abs name s))[unat idx := None] \<and> tables s' = tables s"
proof -
  have g: "distinct (persisted_groups st)" "\<forall>g\<in>set (persisted_groups st). g < length (groups s) \<and> group_ok types (groups s ! g)"
    and ty: "table_types st = types"
    using inv by (auto simp: running_inv_def)
  have "unat (0 :: u64) + length (concat (map (\<lambda>g. group_slots types (groups s ! g)) (persisted_groups st))) < 2 ^ 64"
    using bound by (simp add: table_abs_def t state_abs_def ty)
  then obtain gs where gs: "delete_in idx (persisted_groups st) 0 (groups s) = Inr gs" "length gs = length (groups s)"
      "\<forall>g\<in>set (persisted_groups st). group_ok types (gs ! g)"
      "concat (map (\<lambda>g. group_slots types (gs ! g)) (persisted_groups st)) =
         (concat (map (\<lambda>g. group_slots types (groups s ! g)) (persisted_groups st)))[unat idx - unat (0 :: u64) := None]"
    using delete_in_eq[OF g, of 0 idx] by auto
  have "DeleteRow name idx s = Inr (s\<lparr>groups := gs\<rparr>)" by (simp add: DeleteRow_def GetTableState_def t gs(1))
  moreover have "running_inv names types st a (s\<lparr>groups := gs\<rparr>)" using inv gs(2,3) by (auto simp: running_inv_def)
  ultimately show ?thesis using gs(4) by (auto simp: table_abs_def t state_abs_def ty)
qed

lemma clear_row_running:
  assumes inv: "running_inv names types st a s" and t: "tables s name = Some st" and bound: "length (slots (table_abs name s)) < 2 ^ 64"
    and d: "persisted_groups d = persisted_groups st"
  shows "\<exists>s'. clear_row d idx s = Inr s' \<and> running_inv names types st a s' \<and> memtables s' = memtables s \<and> tables s' = tables s \<and>
     state_abs st s' = abs_op names (Delete idx) (state_abs st s)"
proof -
  obtain s' where s': "DeleteRow name idx s = Inr s'" "running_inv names types st a s'" "memtables s' = memtables s"
      "slots (table_abs name s') = (slots (table_abs name s))[unat idx := None]" "tables s' = tables s"
    using delete_running[OF inv t bound] by blast
  have "clear_row d idx s = Inr s'" using s'(1) t d by (simp add: DeleteRow_sections GetTableState_def clear_row_def)
  moreover have "state_abs st s' = abs_op names (Delete idx) (state_abs st s)"
    using s'(3,4,5) t by (simp add: table_abs_def state_abs_def list_update_beyond)
  ultimately show ?thesis using s' by blast
qed

lemma finish_delete_ok:
  assumes w: "state_ok name names types base w st a" and p: "deleting w = xs @ (d, idx) # ys" and c: "clear_row d idx (store w) = Inr s"
    and bound: "length (slots (table_abs name (store w))) < 2 ^ 64"
  shows "state_ok name names types base (w\<lparr>store := s, deleting := xs @ ys, history := history w @ [Delete idx]\<rparr>) st a"
proof -
  note i = state_okD[OF w]
  have d: "persisted_groups d = persisted_groups st" and unbuilt: "\<forall>fs rg. phase w \<noteq> Built fs rg"
    using i(4) p by (auto simp: open_ops_inv_def)
  have s: "running_inv names types st a s" "memtables s = memtables (store w)" "tables s = tables (store w)"
      "state_abs st s = abs_op names (Delete idx) (state_abs st (store w))"
    using clear_row_running[OF i(2,1) bound d, of idx] c by auto
  have "phase_inv types st s (phase w)"
    using i(3) unbuilt by (cases "phase w") (auto simp: phase_inv_def)
  moreover have "open_ops_inv names types st a (w\<lparr>store := s, deleting := xs @ ys, history := history w @ [Delete idx]\<rparr>)"
    using i(4) p s(2) unbuilt by (auto simp: open_ops_inv_def)
  moreover have "state_abs st s = fold (abs_op names) (history w @ [Delete idx] @ map Insert (overlapping w)) base"
    unfolding s(4) i(5) serial_def fold_append o_apply by (simp only: delete_before_inserts fold_simps o_apply id_apply)
  ultimately show ?thesis using s(1,3) i(1) by (simp add: state_ok_def serial_def)
qed

lemma freeze_ok:
  assumes w: "state_ok name names types base w st a" and idle: "phase w = Idle" and p: "pending w = []"
    and f: "freeze name st (store w) = (fs, s)"
  shows "state_ok name names types base (w\<lparr>store := s, phase := Frozen fs\<rparr>) fs (length (memtables (store w)))"
proof -
  note i = state_okD[OF w]
  have "frozen_memtable st = None" using i(3) idle by (simp add: phase_inv_def)
  note fr = freeze_running[OF i(2) this f]
  show ?thesis
    using fr i(4,5) idle p by (auto simp: state_ok_def phase_inv_def open_ops_inv_def serial_def)
qed

lemma collected_serial:
  assumes w: "state_ok name names types base w st a" and ph: "phase w \<noteq> Idle"
  shows "collected_rows st (store w) = live_rows (fold (abs_op names) (history w) base)"
    "memtable_rows names (memtables (store w) ! a) = concat (map (rows_of_batch names) (overlapping w))"
proof -
  note i = state_okD[OF w]
  show mem: "memtable_rows names (memtables (store w) ! a) = concat (map (rows_of_batch names) (overlapping w))"
    using i(4) ph by (simp add: open_ops_inv_def)
  have "live_rows (state_abs st (store w)) = live_rows (fold (abs_op names) (history w) base) @ concat (map (rows_of_batch names) (overlapping w))"
    unfolding i(5) serial_def fold_append o_apply by (simp add: fold_inserts live_rows_def)
  then show "collected_rows st (store w) = live_rows (fold (abs_op names) (history w) base)"
    using live_split[OF i(2)] mem by simp
qed

lemma publish_ok:
  assumes w: "state_ok name names types base w st a" and ph: "phase w = Built fs rg"
  shows "state_ok name names types base (log_publish (w\<lparr>store := publish name fs rg (store w), phase := Idle\<rparr>))
     (compact_state st (if 0 < num_rows rg then [length (groups (store w))] else [])) a"
proof -
  note i = state_okD[OF w]
  have fs: "fs = st" "holds_rows types rg (collected_rows st (store w))" using i(3) ph by (auto simp: phase_inv_def)
  note p = publish_running[OF i(2) fs(2)]
  have ne: "phase w \<noteq> Idle" using ph by simp
  have "\<lparr>slots = map Some (live_rows (fold (abs_op names) (history w) base)), mem_rows = concat (map (rows_of_batch names) (overlapping w))\<rparr>
      = fold (abs_op names) (history w @ [Compact] @ map Insert (overlapping w)) base"
    by (simp add: fold_inserts)
  then show ?thesis
    using p i(4) ph fs(1) collected_serial[OF w ne] by (simp add: state_ok_def phase_inv_def open_ops_inv_def)
qed

lemma world_step:
  assumes law: "builder_law make_batch" and sch: "schema_ok names types" and inv: "world_inv name names types base w"
    and ord: "orderly name names types act w" and step: "lsm_step make_batch name act w w'"
  shows "world_inv name names types base w'"
proof -
  obtain st a where w: "state_ok name names types base w st a" using inv by (auto simp: world_inv_def)
  note i = state_okD[OF w]
  show ?thesis
    using step
  proof cases
    case (start st' m batch)
    then have "state_ok name names types base w' st a"
      using w ord i(1,7) by (auto simp: state_ok_def open_ops_inv_def GetTableState_def orderly_def serial_def)
    then show ?thesis by (auto simp: world_inv_def)
  next
    case (finish xs m batch ys)
    show ?thesis unfolding world_inv_def finish(2) using finish_insert_ok[OF w finish(3)] by blast
  next
    case (start_delete st' idx)
    then have "state_ok name names types base w' st a"
      using w ord i(1) by (auto simp: state_ok_def open_ops_inv_def GetTableState_def orderly_def serial_def)
    then show ?thesis by (auto simp: world_inv_def)
  next
    case (finish_delete xs d idx ys s)
    have "length (slots (table_abs name (store w))) < 2 ^ 64" using ord finish_delete(1) by (simp add: orderly_def)
    then show ?thesis unfolding world_inv_def finish_delete(2) using finish_delete_ok[OF w finish_delete(3,4)] by blast
  next
    case (freeze st' a' fs s)
    then have "st' = st" using i(1) by (simp add: GetTableState_def)
    then show ?thesis using freeze_ok[OF w freeze(3)] freeze ord by (auto simp: world_inv_def orderly_def)
  next
    case (collect fs batch rg)
    then have fs: "fs = st" "frozen_memtable st \<noteq> None" using i(3) by (auto simp: phase_inv_def)
    have "length (collected_rows st (store w)) < 2 ^ 63"
      using ord collect(1) live_split[OF i(2)] by (simp add: orderly_def i(6))
    then have "holds_rows types rg (collected_rows st (store w))"
      using collect_running[OF law sch i(2)] collect(4,5) fs(1) by auto
    then have "state_ok name names types base w' st a"
      using w collect fs ord by (auto simp: state_ok_def open_ops_inv_def phase_inv_def serial_def orderly_def)
    then show ?thesis by (auto simp: world_inv_def)
  next
    case (publish fs rg)
    show ?thesis unfolding world_inv_def publish(2) using publish_ok[OF w publish(3)] by blast
  qed
qed

lemma idle_world_inv:
  assumes "table_inv name names types s"
  shows "world_inv name names types (table_abs name s) (idle_world s)"
  using assms
  by (auto simp: table_inv_def world_inv_def state_ok_def idle_world_def phase_inv_def state_inv_def running_inv_def optional_def
      open_ops_inv_def serial_def table_abs_def)

lemma orderly_inv:
  assumes "orderly_reachable make_batch name names types (idle_world s) w" "builder_law make_batch" "schema_ok names types"
    "table_inv name names types s"
  shows "world_inv name names types (table_abs name s) w"
  using assms(1)
proof induction
  case initial
  then show ?case by (rule idle_world_inv[OF assms(4)])
next
  case (next_step w a w')
  then show ?case using world_step[OF assms(2,3)] by blast
qed

subsection \<open>Late insertions\<close>

text \<open>Appending to the memory table that was frozen, after it has been read.\<close>

lemma append_frozen:
  assumes inv: "running_inv names types st a s" and frz: "frozen_memtable st = Some f" and ok: "batch_ok names types batch"
  shows "running_inv names types st a (append_to f (Some batch) s)"
    "memtables (append_to f (Some batch) s) ! a = memtables s ! a"
proof -
  let ?s = "append_to f (Some batch) s" and ?m = "Append (Some batch) (memtables s ! f)"
  have f: "f < length (memtables s)" "f \<noteq> a" "memtable_ok names types (memtables s ! f)"
    using inv frz by (auto simp: running_inv_def optional_def)
  have s: "groups ?s = groups s" "memtables ?s ! f = ?m" "b \<noteq> f \<Longrightarrow> memtables ?s ! b = memtables s ! b"
      "length (memtables ?s) = length (memtables s)" for b
    using f(1) by (auto simp: append_to_def)
  have rows: "memtable_rows names ?m = memtable_rows names (memtables s ! f) @ rows_of_batch names batch"
    by (simp add: memtable_rows_def Append_def)
  have "row_count ?m = row_count (memtables s ! f) + word_of_nat (batch_rows batch)"
      "set (batches ?m) = insert batch (set (batches (memtables s ! f)))" by (simp_all add: Append_def)
  then have "memtable_ok names types ?m" using f(3) ok by (simp add: memtable_ok_def rows) (simp add: rows_of_batch_def)
  then show "running_inv names types st a ?s" using inv s f(2) frz by (auto simp: running_inv_def optional_def)
  show "memtables ?s ! a = memtables s ! a" using s(3)[of a] f(2) by simp
qed

subsection \<open>Steps that can be made\<close>

lemma collect_step:
  assumes law: "builder_law make_batch" and sch: "schema_ok names types" and inv: "world_inv name names types base w"
    and ph: "phase w = Frozen fs" and bound: "length (live_rows (table_abs name (store w))) < 2 ^ 63"
  shows "\<exists>rg. lsm_step make_batch name Collect w (w\<lparr>phase := Built fs rg\<rparr>)"
proof -
  obtain st a where w: "state_ok name names types base w st a" using inv by (auto simp: world_inv_def)
  note i = state_okD[OF w]
  have "fs = st" using i(3) ph by (simp add: phase_inv_def)
  moreover have "length (collected_rows st (store w)) < 2 ^ 63" using bound live_split[OF i(2)] by (simp add: i(6))
  ultimately show ?thesis using collect_running[OF law sch i(2)] lsm_step.collect[OF ph] by blast
qed

lemma publish_step:
  "phase w = Built fs rg \<Longrightarrow> lsm_step make_batch name Publish w (log_publish (w\<lparr>store := publish name fs rg (store w), phase := Idle\<rparr>))"
  by (rule lsm_step.publish)

lemma freeze_step:
  assumes "world_inv name names types base w" "phase w = Idle" "live_rows (table_abs name (store w)) \<noteq> []"
    "length (live_rows (table_abs name (store w))) < 2 ^ 63"
  shows "\<exists>fs s. lsm_step make_batch name Freeze w (w\<lparr>store := s, phase := Frozen fs\<rparr>)"
proof -
  obtain st a where w: "state_ok name names types base w st a" using assms(1) by (auto simp: world_inv_def)
  note i = state_okD[OF w]
  have frz: "frozen_memtable st = None" using i(3) assms(2) by (simp add: phase_inv_def)
  have "\<not> nothing_to_compact st a (store w)"
  proof
    assume "nothing_to_compact st a (store w)"
    then have none: "persisted_groups st = []" "row_count (memtables (store w) ! a) = 0"
      by (auto simp: nothing_to_compact_def GetRowCount_def)
    then have "live_rows (table_abs name (store w)) = memtable_rows names (memtables (store w) ! a)"
      using live_split[OF i(2)] frz by (simp add: i(6) collected_rows_def optional_def)
    moreover have "word_of_nat (length (memtable_rows names (memtables (store w) ! a))) = (0 :: u64)"
      using i(2) none(2) by (simp add: running_inv_def memtable_ok_def)
    moreover have "length (memtable_rows names (memtables (store w) ! a)) < 2 ^ 64" using assms(4) calculation(1) by simp
    ultimately have "length (live_rows (table_abs name (store w))) = 0" using unat_u64 unat_0 by metis
    then show False using assms(3) by simp
  qed
  moreover obtain fs s where "freeze name st (store w) = (fs, s)" by (cases "freeze name st (store w)")
  moreover have "GetTableState name (store w) = Some st" using i(1) by (simp add: GetTableState_def)
  ultimately show ?thesis using lsm_step.freeze[OF assms(2) _ i(7)] by blast
qed

lemma lsm_run_append: "lsm_run make_batch name xs w w1 \<Longrightarrow> lsm_run make_batch name ys w1 w2 \<Longrightarrow> lsm_run make_batch name (xs @ ys) w w2"
  by (induction rule: lsm_run.induct) (auto intro: lsm_run.intros)

lemma start_insert_step:
  assumes "world_inv name names types base w"
  shows "\<exists>m. lsm_step make_batch name (Start_insert batch) w (w\<lparr>pending := pending w @ [(m, batch)]\<rparr>)"
proof -
  obtain st a where w: "state_ok name names types base w st a" using assms by (auto simp: world_inv_def)
  show ?thesis using lsm_step.start[of name w st a make_batch batch] state_okD(1,7)[OF w] by (auto simp: GetTableState_def)
qed

lemma delete_steps:
  assumes inv: "world_inv name names types base w" and none: "deleting w = []" and bound: "length (slots (table_abs name (store w))) < 2 ^ 64"
  shows "\<exists>d s. lsm_step make_batch name (Start_delete idx) w (w\<lparr>deleting := [(d, idx)]\<rparr>) \<and>
     lsm_step make_batch name Finish_delete (w\<lparr>deleting := [(d, idx)]\<rparr>) (w\<lparr>store := s, deleting := [], history := history w @ [Delete idx]\<rparr>)"
proof -
  obtain st a where w: "state_ok name names types base w st a" using inv by (auto simp: world_inv_def)
  note i = state_okD[OF w]
  obtain s where s: "clear_row st idx (store w) = Inr s" using clear_row_running[OF i(2,1) bound] by blast
  have "lsm_step make_batch name (Start_delete idx) w (w\<lparr>deleting := [(st, idx)]\<rparr>)"
    using lsm_step.start_delete[of name w st make_batch idx] i(1) none by (simp add: GetTableState_def)
  moreover have "lsm_step make_batch name Finish_delete (w\<lparr>deleting := [(st, idx)]\<rparr>) (w\<lparr>store := s, deleting := [], history := history w @ [Delete idx]\<rparr>)"
    using lsm_step.finish_delete[of "w\<lparr>deleting := [(st, idx)]\<rparr>" "[]" st idx "[]" s make_batch name] s by simp
  ultimately show ?thesis by blast
qed

subsection \<open>Properties\<close>

text \<open>
  Property C22. Orderly runs are serialisable: whatever the interleaving of insertions and deletions with the phases of
  compactions, in every reachable world the table is the one that the operations that have returned produce when they
  are run one after the other. Insertions and deletions count in the order in which they returned, except that the
  insertions that finished while a compaction ran count after it, and deletions before it. So no row is lost, none
  appears twice, and no deletion is undone.
\<close>

theorem orderly_runs_lose_nothing:
  assumes "orderly_reachable make_batch name names types (idle_world s) w" "builder_law make_batch" "schema_ok names types"
    "table_inv name names types s"
  shows "table_abs name (store w) = fold (abs_op names) (serial w) (table_abs name s)"
  by (rule world_inv_serial[OF orderly_inv[OF assms]])

text \<open>
  A table with one row in memory. While it is compacted another batch is inserted, by a thread that looks the table up
  after the freeze and appends after the collection; when the compaction is published, row 0 is deleted.
\<close>

definition demo_start :: node where
  "demo_start = (case InsertBatch ''t'' (Some (ids_batch [Some 7])) (RegisterTable ''t'' [''id''] [Type_INT64] empty_node) of
     Inr s \<Rightarrow> s | Inl _ \<Rightarrow> empty_node)"

lemma demo_start_inv: "table_inv ''t'' [''id''] [Type_INT64] demo_start" "live_rows (table_abs ''t'' demo_start) = [[Num 7]]"
  "\<exists>st. tables demo_start ''t'' = Some st \<and> active_memtable st = Some 0 \<and> \<not> nothing_to_compact st 0 demo_start"
proof -
  let ?s0 = "RegisterTable ''t'' [''id''] [Type_INT64] empty_node"
  obtain s where s: "InsertBatch ''t'' (Some (ids_batch [Some 7])) ?s0 = Inr s" "table_inv ''t'' [''id''] [Type_INT64] s"
      "table_abs ''t'' s = abs_op [''id''] (Insert (ids_batch [Some 7])) (table_abs ''t'' ?s0)"
    using insert_refines[OF register_inv(1)[OF demo_schema] ids_batch_ok] by blast
  have d: "demo_start = s" by (simp add: demo_start_def s(1))
  show "table_inv ''t'' [''id''] [Type_INT64] demo_start" by (simp add: d s(2))
  show "live_rows (table_abs ''t'' demo_start) = [[Num 7]]"
    unfolding d s(3) by (simp add: register_inv(2) ids_rows live_rows_def)
  show "\<exists>st. tables demo_start ''t'' = Some st \<and> active_memtable st = Some 0 \<and> \<not> nothing_to_compact st 0 demo_start"
    by (simp add: demo_start_def InsertBatch_def GetTableState_def RegisterTable_def new_memtable_def empty_node_def first_state_def
        append_to_def nothing_to_compact_def GetRowCount_def Append_def empty_memtable_def ids_batch_def batch_of_def)
qed

lemma demo_reach:
  assumes "orderly_reachable make_arrow ''t'' [''id''] [Type_INT64] (idle_world demo_start) w"
  shows "world_inv ''t'' [''id''] [Type_INT64] (table_abs ''t'' demo_start) w"
    "table_abs ''t'' (store w) = fold (abs_op [''id'']) (serial w) (table_abs ''t'' demo_start)"
  using orderly_inv[OF assms make_arrow_law demo_schema demo_start_inv(1)] world_inv_serial by blast+

lemma demo_start_abs: "table_abs ''t'' demo_start = \<lparr>slots = [], mem_rows = [[Num 7]]\<rparr>"
proof -
  let ?s0 = "RegisterTable ''t'' [''id''] [Type_INT64] empty_node"
  obtain s where s: "InsertBatch ''t'' (Some (ids_batch [Some 7])) ?s0 = Inr s"
      "table_abs ''t'' s = abs_op [''id''] (Insert (ids_batch [Some 7])) (table_abs ''t'' ?s0)"
    using insert_refines[OF register_inv(1)[OF demo_schema] ids_batch_ok] by blast
  have "demo_start = s" by (simp add: demo_start_def s(1))
  then show ?thesis using s(2) by (simp add: register_inv(2) ids_rows)
qed

theorem orderly_runs_lose_nothing_witness:
  "\<exists>w0 fs rg w. orderly_reachable make_arrow ''t'' [''id''] [Type_INT64] (idle_world demo_start) w0 \<and>
     phase w0 = Built fs rg \<and> pending w0 \<noteq> [] \<and>
     orderly_reachable make_arrow ''t'' [''id''] [Type_INT64] (idle_world demo_start) w \<and> phase w = Idle \<and>
     serial w = [Compact, Insert (ids_batch [Some 3]), Delete 0] \<and>
     table_abs ''t'' (store w) = \<lparr>slots = [None], mem_rows = [[Num 3]]\<rparr>"
proof -
  let ?b = "ids_batch [Some 3]" and ?n = "[''id'']" and ?t = "[Type_INT64]"
  let ?reach = "orderly_reachable make_arrow ''t'' ?n ?t (idle_world demo_start)"
  let ?w0 = "idle_world demo_start"
  note law = make_arrow_law demo_schema
  have r0: "?reach ?w0" by (rule initial)
  have live0: "live_rows (table_abs ''t'' (store ?w0)) = [[Num 7]]" by (simp add: idle_world_def demo_start_inv(2))
  obtain fs s where f: "lsm_step make_arrow ''t'' Freeze ?w0 (?w0\<lparr>store := s, phase := Frozen fs\<rparr>)"
    using freeze_step[OF demo_reach(1)[OF r0], of make_arrow] live0 by (auto simp: idle_world_def)
  define w1 where "w1 = ?w0\<lparr>store := s, phase := Frozen fs\<rparr>"
  have r1: "?reach w1" using next_step[OF r0 _ f] by (simp add: w1_def orderly_def idle_world_def)
  obtain m where i: "lsm_step make_arrow ''t'' (Start_insert ?b) w1 (w1\<lparr>pending := pending w1 @ [(m, ?b)]\<rparr>)"
    using start_insert_step[OF demo_reach(1)[OF r1]] by blast
  define w2 where "w2 = w1\<lparr>pending := [(m, ?b)]\<rparr>"
  have r2: "?reach w2" using next_step[OF r1 _ i] by (simp add: w2_def w1_def orderly_def ids_batch_ok idle_world_def)
  have p2: "phase w2 = Frozen fs" "deleting w2 = []" "serial w2 = []" by (simp_all add: w2_def w1_def idle_world_def serial_def)
  have live2: "live_rows (table_abs ''t'' (store w2)) = [[Num 7]]"
    using demo_reach(2)[OF r2] by (simp add: p2(3) demo_start_inv(2))
  obtain rg where c: "lsm_step make_arrow ''t'' Collect w2 (w2\<lparr>phase := Built fs rg\<rparr>)"
    using collect_step[OF law demo_reach(1)[OF r2] p2(1)] live2 by auto
  define w3 where "w3 = w2\<lparr>phase := Built fs rg\<rparr>"
  have r3: "?reach w3" using next_step[OF r2 _ c] live2 p2(2) by (simp add: w3_def orderly_def)
  define w4 where "w4 = log_insert ?b (w3\<lparr>store := append_to m (Some ?b) (store w3), pending := []\<rparr>)"
  have "lsm_step make_arrow ''t'' Finish_insert w3 w4"
    using lsm_step.finish[of w3 "[]" m ?b "[]" make_arrow "''t''"] by (simp add: w4_def w3_def w2_def)
  then have r4: "?reach w4" by (rule next_step[OF r3, rotated]) (simp add: orderly_def)
  have p4: "phase w4 = Built fs rg" by (simp add: w4_def w3_def)
  define w5 where "w5 = log_publish (w4\<lparr>store := publish ''t'' fs rg (store w4), phase := Idle\<rparr>)"
  have "lsm_step make_arrow ''t'' Publish w4 w5" unfolding w5_def by (rule publish_step[OF p4])
  then have r5: "?reach w5" by (rule next_step[OF r4, rotated]) (simp add: orderly_def)
  have p5: "phase w5 = Idle" "deleting w5 = []" "history w5 = [Compact, Insert ?b]" "overlapping w5 = []"
    by (simp_all add: w5_def w4_def w3_def w2_def w1_def idle_world_def log_insert_def log_publish_def)
  have t5: "table_abs ''t'' (store w5) = \<lparr>slots = [Some [Num 7]], mem_rows = [[Num 3]]\<rparr>"
    using demo_reach(2)[OF r5] by (simp add: serial_def p5(3,4) demo_start_abs live_rows_def ids_rows)
  obtain d s' where del: "lsm_step make_arrow ''t'' (Start_delete 0) w5 (w5\<lparr>deleting := [(d, 0)]\<rparr>)"
      "lsm_step make_arrow ''t'' Finish_delete (w5\<lparr>deleting := [(d, 0)]\<rparr>) (w5\<lparr>store := s', deleting := [], history := history w5 @ [Delete 0]\<rparr>)"
    using delete_steps[OF demo_reach(1)[OF r5] p5(2), where idx=0 and make_batch=make_arrow] t5 by auto
  have r6: "?reach (w5\<lparr>deleting := [(d, 0)]\<rparr>)" by (rule next_step[OF r5 _ del(1)]) (simp add: orderly_def p5)
  define w7 where "w7 = w5\<lparr>store := s', deleting := [], history := history w5 @ [Delete 0]\<rparr>"
  have r7: "?reach w7" unfolding w7_def by (rule next_step[OF r6 _ del(2)]) (simp add: orderly_def t5)
  have p7: "phase w7 = Idle" "serial w7 = [Compact, Insert ?b, Delete 0]" by (simp_all add: w7_def p5 serial_def)
  have "table_abs ''t'' (store w7) = fold (abs_op ?n) (serial w7) (table_abs ''t'' demo_start)"
    by (rule orderly_runs_lose_nothing[OF r7 law demo_start_inv(1)])
  also have "\<dots> = \<lparr>slots = [None], mem_rows = [[Num 3]]\<rparr>" by (simp add: p7(2) demo_start_abs live_rows_def ids_rows)
  finally have "table_abs ''t'' (store w7) = \<lparr>slots = [None], mem_rows = [[Num 3]]\<rparr>" .
  moreover have "phase w3 = Built fs rg" "pending w3 \<noteq> []" by (simp_all add: w3_def w2_def)
  ultimately show ?thesis using r3 r7 p7 by blast
qed

text \<open>
  Property C23. A compaction can always finish: from every world an orderly run reaches, if fewer than 2^63
  rows are live, at most two more steps of the daemon, without any other thread, bring it back to
  rest.
\<close>

theorem compaction_can_finish:
  assumes "orderly_reachable make_batch name names types (idle_world s) w" "builder_law make_batch" "schema_ok names types"
    "table_inv name names types s" "length (live_rows (table_abs name (store w))) < 2 ^ 63"
  shows "\<exists>acts w'. lsm_run make_batch name acts w w' \<and> phase w' = Idle \<and> length acts \<le> 2 \<and> set acts \<subseteq> {Collect, Publish}"
proof (cases "phase w")
  case Idle
  then show ?thesis by (intro exI[of _ "[]"] exI[of _ w]) (simp add: lsm_run.stop)
next
  case (Frozen fs)
  obtain rg where c: "lsm_step make_batch name Collect w (w\<lparr>phase := Built fs rg\<rparr>)"
    using collect_step[OF assms(2,3) orderly_inv[OF assms(1-4)] Frozen assms(5)] by blast
  let ?w = "w\<lparr>phase := Built fs rg\<rparr>"
  have "lsm_step make_batch name Publish ?w (log_publish (?w\<lparr>store := publish name fs rg (store ?w), phase := Idle\<rparr>))"
    by (rule publish_step) simp
  with c have "lsm_run make_batch name [Collect, Publish] w (log_publish (?w\<lparr>store := publish name fs rg (store ?w), phase := Idle\<rparr>))"
    by (blast intro: lsm_run.intros)
  moreover have "length [Collect, Publish] \<le> 2" "set [Collect, Publish] \<subseteq> {Collect, Publish}" by simp_all
  ultimately show ?thesis by (metis log_simps(8) world.select_convs(4) world.update_convs(4) world.surjective)
next
  case (Built fs rg)
  then have "lsm_run make_batch name [Publish] w (log_publish (w\<lparr>store := publish name fs rg (store w), phase := Idle\<rparr>))"
    by (blast intro: lsm_run.intros publish_step)
  moreover have "phase (log_publish (w\<lparr>store := publish name fs rg (store w), phase := Idle\<rparr>)) = Idle"
      "length [Publish] \<le> 2" "set [Publish] \<subseteq> {Collect, Publish}" by simp_all
  ultimately show ?thesis by blast
qed

theorem compaction_can_finish_witness:
  "\<exists>w acts w'. lsm_step make_arrow ''t'' Freeze (idle_world demo_start) w \<and> phase w \<noteq> Idle \<and> lsm_run make_arrow ''t'' acts w w' \<and> phase w' = Idle"
proof -
  let ?reach = "orderly_reachable make_arrow ''t'' [''id''] [Type_INT64] (idle_world demo_start)"
  have r0: "?reach (idle_world demo_start)" by (rule initial)
  obtain fs s where f: "lsm_step make_arrow ''t'' Freeze (idle_world demo_start) (idle_world demo_start\<lparr>store := s, phase := Frozen fs\<rparr>)"
    using freeze_step[OF demo_reach(1)[OF r0], of make_arrow] demo_start_inv(2) by (auto simp: idle_world_def)
  let ?w = "idle_world demo_start\<lparr>store := s, phase := Frozen fs\<rparr>"
  have reach: "?reach ?w" by (rule next_step[OF r0 _ f]) (simp add: orderly_def idle_world_def)
  have "live_rows (table_abs ''t'' (store ?w)) = [[Num 7]]"
    using demo_reach(2)[OF reach] demo_start_inv(2) by (simp add: serial_def idle_world_def)
  then obtain acts w' where "lsm_run make_arrow ''t'' acts ?w w'" "phase w' = Idle"
    using compaction_can_finish[OF reach make_arrow_law demo_schema demo_start_inv(1)] by auto
  moreover have "phase ?w \<noteq> Idle" by simp
  ultimately show ?thesis using f by blast
qed

text \<open>
  Property C24. How a row is lost. From every orderly world without open insertions: an insertion that has looked up its
  memory table before the freeze and appends to it after the daemon has read it returns, and when the compaction is
  published its rows are in no part of the table, which has exactly the live rows it had before.
\<close>

theorem late_insertion_is_lost:
  assumes "orderly_reachable make_batch name names types (idle_world s) w" "builder_law make_batch" "schema_ok names types"
    "table_inv name names types s" "length (live_rows (table_abs name (store w))) < 2 ^ 63"
    and "pending w = []" "batch_ok names types batch"
    and "lsm_run make_batch name [Start_insert batch, Freeze, Collect, Finish_insert, Publish] w w'"
  shows "pending w' = [] \<and> Insert batch \<in> set (serial w') \<and>
     live_rows (table_abs name (store w')) = live_rows (table_abs name (store w))"
proof -
  obtain st a where ok: "state_ok name names types (table_abs name s) w st a"
    using orderly_inv[OF assms(1-4)] by (auto simp: world_inv_def)
  note i = state_okD[OF ok]
  obtain w1 w2 w3 w4 where steps: "lsm_step make_batch name (Start_insert batch) w w1" "lsm_step make_batch name Freeze w1 w2"
      "lsm_step make_batch name Collect w2 w3" "lsm_step make_batch name Finish_insert w3 w4" "lsm_step make_batch name Publish w4 w'"
    using assms(8) by (auto simp: run_simps)
  have w1: "w1 = w\<lparr>pending := [(a, batch)]\<rparr>"
    using steps(1) assms(6) i(1,7) by (auto elim: start_cases simp: GetTableState_def)
  obtain fs s1 where w2: "w2 = w1\<lparr>store := s1, phase := Frozen fs\<rparr>" "freeze name st (store w) = (fs, s1)" "phase w = Idle"
    using steps(2) i(1) by (auto elim!: freeze_cases simp: w1 GetTableState_def)
  have frz: "frozen_memtable st = None" using i(3) w2(3) by (simp add: phase_inv_def)
  note fr = freeze_running[OF i(2) frz w2(2)]
  have rows: "collected_rows fs s1 = live_rows (table_abs name (store w))" using live_split[OF fr(1)] fr(4,5) by (simp add: i(6))
  obtain rg where w3: "w3 = w2\<lparr>phase := Built fs rg\<rparr>" "holds_rows types rg (collected_rows fs s1)"
    using steps(3) collect_running[OF assms(2,3) fr(1)] assms(5) rows by (auto elim!: collect_cases simp: w2(1))
  let ?s4 = "append_to a (Some batch) s1"
  have w4: "store w4 = ?s4" "phase w4 = Built fs rg" "pending w4 = []" "Insert batch \<in> set (map Insert (overlapping w4))"
    using steps(4) by (auto elim!: finish_cases simp: w3(1) w2(1) w1 Cons_eq_append_conv log_insert_def)
  note late = append_frozen[OF fr(1,2) assms(7)]
  have w5: "w' = log_publish (w4\<lparr>store := publish name fs rg ?s4, phase := Idle\<rparr>)"
    using steps(5) w4(1,2) by (auto elim!: publish_cases)
  have "live_rows (table_abs name (store w')) = live_rows (table_abs name (store w))"
    using publish_running(1,4)[OF late(1) w3(2)] fr(5) late(2) rows by (simp add: w5 table_abs_def live_rows_def comp_def)
  then show ?thesis using w4(3,4) by (auto simp: w5)
qed

text \<open>The daemon's steps do not look at the open insertions.\<close>

lemma daemon_frame:
  "lsm_step make_batch name Freeze w w' \<Longrightarrow> lsm_step make_batch name Freeze (w\<lparr>pending := p\<rparr>) (w'\<lparr>pending := p\<rparr>)"
  "lsm_step make_batch name Collect w w' \<Longrightarrow> lsm_step make_batch name Collect (w\<lparr>pending := p\<rparr>) (w'\<lparr>pending := p\<rparr>)"
proof -
  assume "lsm_step make_batch name Freeze w w'"
  then show "lsm_step make_batch name Freeze (w\<lparr>pending := p\<rparr>) (w'\<lparr>pending := p\<rparr>)"
  proof cases
    case (freeze st a fs s)
    then show ?thesis using lsm_step.freeze[of "w\<lparr>pending := p\<rparr>" name st a fs s make_batch] by (cases w) simp
  qed
next
  assume "lsm_step make_batch name Collect w w'"
  then show "lsm_step make_batch name Collect (w\<lparr>pending := p\<rparr>) (w'\<lparr>pending := p\<rparr>)"
  proof cases
    case (collect fs batch rg)
    then show ?thesis using lsm_step.collect[of "w\<lparr>pending := p\<rparr>" fs make_batch batch rg name] by (cases w) simp
  qed
qed

lemma compaction_to_built:
  assumes "orderly_reachable make_batch name names types (idle_world s) w" "builder_law make_batch" "schema_ok names types"
    "table_inv name names types s" "phase w = Idle" "pending w = []" "deleting w = []" "live_rows (table_abs name (store w)) \<noteq> []"
    "length (live_rows (table_abs name (store w))) < 2 ^ 63"
  shows "\<exists>fs rg s1. lsm_step make_batch name Freeze w (w\<lparr>store := s1, phase := Frozen fs\<rparr>) \<and>
     lsm_step make_batch name Collect (w\<lparr>store := s1, phase := Frozen fs\<rparr>) (w\<lparr>store := s1, phase := Built fs rg\<rparr>) \<and>
     orderly_reachable make_batch name names types (idle_world s) (w\<lparr>store := s1, phase := Built fs rg\<rparr>) \<and>
     table_abs name s1 = table_abs name (store w)"
proof -
  note inv = orderly_inv[OF assms(1-4)]
  obtain fs s1 where f: "lsm_step make_batch name Freeze w (w\<lparr>store := s1, phase := Frozen fs\<rparr>)"
    using freeze_step[OF inv assms(5,8,9)] by blast
  let ?w = "w\<lparr>store := s1, phase := Frozen fs\<rparr>"
  have r: "orderly_reachable make_batch name names types (idle_world s) ?w"
    by (rule next_step[OF assms(1) _ f]) (simp add: orderly_def assms(6))
  have t: "table_abs name (store ?w) = table_abs name (store w)"
    using world_inv_serial[OF orderly_inv[OF r assms(2-4)]] world_inv_serial[OF inv] by (simp add: serial_def)
  have live: "length (live_rows (table_abs name (store ?w))) < 2 ^ 63" using assms(9) by (simp only: t)
  obtain rg where c: "lsm_step make_batch name Collect ?w (?w\<lparr>phase := Built fs rg\<rparr>)"
    using collect_step[OF assms(2,3) orderly_inv[OF r assms(2-4)] _ live] by auto
  have "orderly_reachable make_batch name names types (idle_world s) (?w\<lparr>phase := Built fs rg\<rparr>)"
    by (rule next_step[OF r _ c]) (use live in \<open>simp add: orderly_def assms(7)\<close>)
  then show ?thesis using f c t by auto
qed

theorem late_insertion_is_lost_witness:
  "\<exists>w. lsm_run make_arrow ''t'' [Start_insert (ids_batch [Some 3]), Freeze, Collect, Finish_insert, Publish] (idle_world demo_start) w \<and>
     Insert (ids_batch [Some 3]) \<in> set (serial w) \<and> live_rows (table_abs ''t'' (store w)) = [[Num 7]]"
proof -
  let ?b = "ids_batch [Some 3]" and ?start = "idle_world demo_start"
  have r0: "orderly_reachable make_arrow ''t'' [''id''] [Type_INT64] ?start ?start" by (rule initial)
  have w0: "phase ?start = Idle" "pending ?start = []" "deleting ?start = []" "store ?start = demo_start" by (simp_all add: idle_world_def)
  have live: "live_rows (table_abs ''t'' (store ?start)) = [[Num 7]]" by (simp add: w0 demo_start_inv(2))
  obtain m where i: "lsm_step make_arrow ''t'' (Start_insert ?b) ?start (?start\<lparr>pending := [(m, ?b)]\<rparr>)"
    using start_insert_step[OF demo_reach(1)[OF r0]] w0(2) by auto
  obtain fs rg s1 where d: "lsm_step make_arrow ''t'' Freeze ?start (?start\<lparr>store := s1, phase := Frozen fs\<rparr>)"
      "lsm_step make_arrow ''t'' Collect (?start\<lparr>store := s1, phase := Frozen fs\<rparr>) (?start\<lparr>store := s1, phase := Built fs rg\<rparr>)"
    using compaction_to_built[OF r0 make_arrow_law demo_schema demo_start_inv(1) w0(1-3)] live by auto
  let ?w3 = "?start\<lparr>store := s1, phase := Built fs rg, pending := [(m, ?b)]\<rparr>"
  have f: "lsm_step make_arrow ''t'' Finish_insert ?w3 (log_insert ?b (?w3\<lparr>store := append_to m (Some ?b) s1, pending := []\<rparr>))"
    using lsm_step.finish[of ?w3 "[]" m ?b "[]" make_arrow "''t''"] by simp
  let ?w4 = "log_insert ?b (?w3\<lparr>store := append_to m (Some ?b) s1, pending := []\<rparr>)"
  have p: "lsm_step make_arrow ''t'' Publish ?w4 (log_publish (?w4\<lparr>store := publish ''t'' fs rg (store ?w4), phase := Idle\<rparr>))"
    by (rule publish_step) simp
  obtain w where run: "lsm_run make_arrow ''t'' [Start_insert ?b, Freeze, Collect, Finish_insert, Publish] ?start w"
    using i daemon_frame(1)[OF d(1), of "[(m, ?b)]"] daemon_frame(2)[OF d(2), of "[(m, ?b)]"] f p
    by (blast intro: lsm_run.intros)
  show ?thesis
    using late_insertion_is_lost[OF r0 make_arrow_law demo_schema demo_start_inv(1) _ w0(2) ids_batch_ok run] run live by auto
qed

text \<open>
  Property C25. How a deleted row comes back. From every orderly world in which the daemon has read the rows and not
  published them yet: a deletion that runs now empties the slot of its position, whatever the position, and after the
  publication the table has exactly the live rows it had before the deletion.
\<close>

theorem late_deletion_is_undone:
  assumes "orderly_reachable make_batch name names types (idle_world s) w" "builder_law make_batch" "schema_ok names types"
    "table_inv name names types s" "phase w = Built fs rg" "length (slots (table_abs name (store w))) < 2 ^ 64"
    and "lsm_run make_batch name [Start_delete idx, Finish_delete] w w1" "lsm_step make_batch name Publish w1 w2"
  shows "table_abs name (store w1) = abs_op names (Delete idx) (table_abs name (store w)) \<and>
     live_rows (table_abs name (store w2)) = live_rows (table_abs name (store w))"
proof -
  obtain st a where ok: "state_ok name names types (table_abs name s) w st a"
    using orderly_inv[OF assms(1-4)] by (auto simp: world_inv_def)
  note i = state_okD[OF ok]
  have none: "deleting w = []" using i(4) assms(5) by (auto simp: open_ops_inv_def)
  have rg: "fs = st" "holds_rows types rg (collected_rows st (store w))" using i(3) assms(5) by (auto simp: phase_inv_def)
  obtain s1 where s1: "clear_row st idx (store w) = Inr s1" "running_inv names types st a s1" "memtables s1 = memtables (store w)"
      "tables s1 = tables (store w)" "state_abs st s1 = abs_op names (Delete idx) (state_abs st (store w))"
    using clear_row_running[OF i(2,1) assms(6), of st idx] by auto
  obtain w' where steps: "lsm_step make_batch name (Start_delete idx) w w'" "lsm_step make_batch name Finish_delete w' w1"
    using assms(7) by (auto simp: run_simps)
  have "w' = w\<lparr>deleting := [(st, idx)]\<rparr>" using steps(1) i(1) none by (auto elim: start_delete_cases simp: GetTableState_def)
  then have w1: "store w1 = s1" "phase w1 = Built fs rg"
    using steps(2) s1(1) assms(5) by (auto elim!: finish_delete_cases simp: Cons_eq_append_conv)
  have "store w2 = publish name st rg s1" using assms(8) w1 rg(1) by (auto elim!: publish_cases)
  then have "live_rows (table_abs name (store w2)) = collected_rows st (store w) @ memtable_rows names (memtables s1 ! a)"
    using publish_running(1,4)[OF s1(2) rg(2)] by (simp add: table_abs_def live_rows_def comp_def)
  then have "live_rows (table_abs name (store w2)) = live_rows (table_abs name (store w))"
    using live_split[OF i(2)] by (simp add: s1(3) i(6))
  moreover have "table_abs name (store w1) = abs_op names (Delete idx) (table_abs name (store w))"
    using i(1) s1(4,5) by (simp add: w1(1) i(6)) (simp add: table_abs_def)
  ultimately show ?thesis by simp
qed

text \<open>A compacted table with one row, compacted again while its row is deleted.\<close>

theorem late_deletion_is_undone_witness:
  "\<exists>s w1 w2. TriggerCompaction make_arrow ''t'' demo_start = Inr s \<and>
     lsm_run make_arrow ''t'' [Freeze, Collect, Start_delete 0, Finish_delete] (idle_world s) w1 \<and>
     lsm_step make_arrow ''t'' Publish w1 w2 \<and>
     live_rows (table_abs ''t'' (store w1)) = [] \<and> live_rows (table_abs ''t'' (store w2)) = [[Num 7]]"
proof -
  let ?n = "[''id'']" and ?t = "[Type_INT64]"
  obtain s where s: "TriggerCompaction make_arrow ''t'' demo_start = Inr s" "table_inv ''t'' ?n ?t s"
      "table_abs ''t'' s = \<lparr>slots = [Some [Num 7]], mem_rows = []\<rparr>"
    using compact_refines[OF make_arrow_law demo_start_inv(1)] by (auto simp: demo_start_inv(2))
  let ?start = "idle_world s"
  have r0: "orderly_reachable make_arrow ''t'' ?n ?t ?start ?start" by (rule initial)
  have w0: "phase ?start = Idle" "pending ?start = []" "deleting ?start = []" "store ?start = s" by (simp_all add: idle_world_def)
  obtain fs rg s1 where d: "lsm_step make_arrow ''t'' Freeze ?start (?start\<lparr>store := s1, phase := Frozen fs\<rparr>)"
      "lsm_step make_arrow ''t'' Collect (?start\<lparr>store := s1, phase := Frozen fs\<rparr>) (?start\<lparr>store := s1, phase := Built fs rg\<rparr>)"
      "orderly_reachable make_arrow ''t'' ?n ?t ?start (?start\<lparr>store := s1, phase := Built fs rg\<rparr>)" "table_abs ''t'' s1 = table_abs ''t'' s"
    using compaction_to_built[OF r0 make_arrow_law demo_schema s(2) w0(1-3)] by (auto simp: s(3) w0(4) live_rows_def)
  let ?w = "?start\<lparr>store := s1, phase := Built fs rg\<rparr>"
  have t: "table_abs ''t'' (store ?w) = \<lparr>slots = [Some [Num 7]], mem_rows = []\<rparr>" by (simp add: d(4) s(3))
  have bound: "length (slots (table_abs ''t'' (store ?w))) < 2 ^ 64" by (simp only: t) simp
  obtain w1 where del: "lsm_run make_arrow ''t'' [Start_delete 0, Finish_delete] ?w w1" "phase w1 = Built fs rg"
    using delete_steps[OF orderly_inv[OF d(3) make_arrow_law demo_schema s(2)] _ bound, where idx=0 and make_batch=make_arrow]
    by (fastforce simp: idle_world_def intro: lsm_run.intros)
  obtain w2 where pub: "lsm_step make_arrow ''t'' Publish w1 w2" using publish_step[OF del(2)] by blast
  have "lsm_run make_arrow ''t'' ([Freeze, Collect] @ [Start_delete 0, Finish_delete]) ?start w1"
    using d(1,2) del(1) by (blast intro: lsm_run_append lsm_run.intros)
  moreover have "phase ?w = Built fs rg" by simp
  note undone = late_deletion_is_undone[OF d(3) make_arrow_law demo_schema s(2) this bound del(1) pub, unfolded t]
  have "live_rows (table_abs ''t'' (store w1)) = []" "live_rows (table_abs ''t'' (store w2)) = [[Num 7]]"
    using undone by (simp_all add: live_rows_def)
  ultimately show ?thesis using s(1) pub unfolding append_Cons append_Nil by blast
qed

end
