(* ===== verification/Srd_Transport.thy ===== *)
theory Srd_Transport
  imports Prelude "HOL-Library.Multiset"
begin

text \<open>
  The shuffle transport of \<open>src/lex/distributed/srd_transport.cpp\<close>: a message of shuffle entries is
  cut into datagrams of five entries, the datagrams are sent in a random order, and the receiver
  reassembles messages by sender and message id. Sockets and the network are outside: \<open>Send\<close>
  yields the datagrams handed to \<open>sendto\<close>, and the receiver is a function of the datagrams that
  arrive, in any order, interleaved with others and repeated.
\<close>

subsection \<open>Entries and headers\<close>

record fat_signature =
  sig_kim :: u64
  sig_xor :: u64

record shuffle_entry =
  entry_sig :: fat_signature
  row_id :: u32

record srd_header =
  sender_node_id :: u32
  msg_id :: u32
  packet_seq :: u32
  total_packets :: u32
  payload_len :: u32

text \<open>
  Both structs are copied byte by byte. A \<open>ShuffleEntry\<close> has 24 bytes, the last four are padding
  (\<open>pad\<close>, whatever memory holds); a header has 20.
\<close>

definition entry_bytes :: "u32 \<Rightarrow> shuffle_entry \<Rightarrow> bytes" where
  "entry_bytes pad e = put_u64 (sig_kim (entry_sig e)) @ put_u64 (sig_xor (entry_sig e)) @ put_u32 (row_id e) @ put_u32 pad"

definition entry_of_bytes :: "bytes \<Rightarrow> shuffle_entry" where
  "entry_of_bytes bs = \<lparr>entry_sig = \<lparr>sig_kim = get_u64 bs, sig_xor = get_u64 (drop 8 bs)\<rparr>, row_id = get_u32 (drop 16 bs)\<rparr>"

definition header_bytes :: "srd_header \<Rightarrow> bytes" where
  "header_bytes h = put_u32 (sender_node_id h) @ put_u32 (msg_id h) @ put_u32 (packet_seq h) @
     put_u32 (total_packets h) @ put_u32 (payload_len h)"

definition header_of_bytes :: "bytes \<Rightarrow> srd_header" where
  "header_of_bytes bs = \<lparr>sender_node_id = get_u32 bs, msg_id = get_u32 (drop 4 bs), packet_seq = get_u32 (drop 8 bs),
     total_packets = get_u32 (drop 12 bs), payload_len = get_u32 (drop 16 bs)\<rparr>"

text \<open>\<open>size() / sizeof(ShuffleEntry)\<close> entries of a payload.\<close>

definition entries_of_payload :: "bytes \<Rightarrow> shuffle_entry list" where
  "entries_of_payload bs = map (\<lambda>i. entry_of_bytes (drop (24 * i) bs)) [0..<length bs div 24]"

subsection \<open>State\<close>

record reconstruction =
  expected :: u32
  packets_received :: u32
  packets :: "bytes list"

definition empty_reconstruction :: reconstruction where
  "empty_reconstruction = \<lparr>expected = 0, packets_received = 0, packets = []\<rparr>"

record transport =
  node_id :: u32
  socket_open :: bool
  running :: bool
  next_msg_id :: u32
  recon_buffers :: "u64 \<rightharpoonup> reconstruction"
  completed_messages :: "shuffle_entry list list"
  total_bytes_sent :: u64
  total_bytes_received :: u64

text \<open>The constructor, and \<open>Start\<close> with what the system answers to \<open>socket\<close>, \<open>inet_pton\<close> and \<open>bind\<close>.\<close>

definition new_transport :: "u32 \<Rightarrow> transport" where
  "new_transport n = \<lparr>node_id = n, socket_open = False, running = False, next_msg_id = 1, recon_buffers = Map.empty,
     completed_messages = [], total_bytes_sent = 0, total_bytes_received = 0\<rparr>"

definition StartTransport :: "bool \<Rightarrow> bool \<Rightarrow> bool \<Rightarrow> transport \<Rightarrow> string option \<times> transport" where
  "StartTransport socket_ok address_ok bind_ok t =
     (if \<not> socket_ok then (Some ''Failed to create UDP socket'', t\<lparr>socket_open := False\<rparr>)
      else if \<not> address_ok then (Some ''Invalid IP address'', t\<lparr>socket_open := True\<rparr>)
      else if \<not> bind_ok then (Some ''Failed to bind socket'', t\<lparr>socket_open := True\<rparr>)
      else (None, t\<lparr>socket_open := True, running := True\<rparr>))"

definition StopTransport :: "transport \<Rightarrow> transport" where
  "StopTransport t = (let t1 = (if running t then t\<lparr>running := False\<rparr> else t) in t1\<lparr>socket_open := False\<rparr>)"

subsection \<open>Sending\<close>

abbreviation "entries_per_packet \<equiv> (5 :: nat)"

definition packet_count :: "shuffle_entry list \<Rightarrow> nat" where
  "packet_count entries = (length entries + entries_per_packet - 1) div entries_per_packet"

definition packet_entries :: "shuffle_entry list \<Rightarrow> nat \<Rightarrow> shuffle_entry list" where
  "packet_entries entries p =
     (let start_idx = p * entries_per_packet; end_idx = min (start_idx + entries_per_packet) (length entries)
      in take (end_idx - start_idx) (drop start_idx entries))"

definition packet_payload :: "u32 \<Rightarrow> shuffle_entry list \<Rightarrow> nat \<Rightarrow> bytes" where
  "packet_payload pad entries p = concat (map (entry_bytes pad) (packet_entries entries p))"

definition packet_header :: "u32 \<Rightarrow> u32 \<Rightarrow> shuffle_entry list \<Rightarrow> nat \<Rightarrow> srd_header" where
  "packet_header node msg entries p = \<lparr>sender_node_id = node, msg_id = msg, packet_seq = word_of_nat p,
     total_packets = word_of_nat (packet_count entries), payload_len = word_of_nat (length (packet_entries entries p) * 24)\<rparr>"

definition packet_buffer :: "u32 \<Rightarrow> u32 \<Rightarrow> u32 \<Rightarrow> shuffle_entry list \<Rightarrow> nat \<Rightarrow> bytes" where
  "packet_buffer pad node msg entries p = header_bytes (packet_header node msg entries p) @ packet_payload pad entries p"

text \<open>
  \<open>order\<close> is the permutation \<open>std::shuffle\<close> makes, \<open>address_ok\<close> the answer of \<open>inet_pton\<close> for the
  target, \<open>sendto\<close> what the system call returns for a datagram. The result has the datagrams
  handed to \<open>sendto\<close>.
\<close>

definition Send :: "nat list \<Rightarrow> bool \<Rightarrow> (bytes \<Rightarrow> int) \<Rightarrow> u32 \<Rightarrow> shuffle_entry list \<Rightarrow> transport \<Rightarrow> transport \<times> bytes list" where
  "Send order address_ok sendto pad entries t =
     (if entries = [] then (t, [])
      else if \<not> socket_open t then (t, [])
      else
        (let msg = next_msg_id t;
             t1 = t\<lparr>next_msg_id := next_msg_id t + 1\<rparr>;
             datagrams = map (packet_buffer pad (node_id t) msg entries) order
         in if \<not> address_ok then (t1, [])
            else (t1\<lparr>total_bytes_sent := fold (\<lambda>pkt n. if sendto pkt > 0 then n + word_of_int (sendto pkt) else n)
                     datagrams (total_bytes_sent t1)\<rparr>, datagrams)))"

subsection \<open>Receiving\<close>

definition recon_key :: "srd_header \<Rightarrow> u64" where
  "recon_key h = push_bit 32 (ucast (sender_node_id h)) OR ucast (msg_id h)"

definition assemble :: "bytes list \<Rightarrow> shuffle_entry list" where
  "assemble pkts = concat (map entries_of_payload pkts)"

text \<open>A new buffer is sized by the first header that arrives for its key.\<close>

definition prepare :: "srd_header \<Rightarrow> reconstruction \<Rightarrow> reconstruction" where
  "prepare h msg = (if expected msg = 0 then msg\<lparr>expected := total_packets h, packets := replicate (unat (total_packets h)) []\<rparr>
     else msg)"

definition receive :: "bytes \<Rightarrow> transport \<Rightarrow> transport" where
  "receive datagram t0 =
     (let recv_buf = take 1500 datagram; received = length recv_buf
      in if received < 20 then t0
         else
           (let t = t0\<lparr>total_bytes_received := total_bytes_received t0 + word_of_nat received\<rparr>;
                h = header_of_bytes recv_buf
            in if received < 20 + unat (payload_len h) then t
               else
                 (let key = recon_key h;
                      msg = prepare h (case recon_buffers t key of None \<Rightarrow> empty_reconstruction | Some m \<Rightarrow> m)
                  in if packet_seq h < expected msg \<and> packets msg ! unat (packet_seq h) = [] then
                       (let msg1 = msg\<lparr>packets := (packets msg)[unat (packet_seq h) := take (unat (payload_len h)) (drop 20 recv_buf)],
                              packets_received := packets_received msg + 1\<rparr>
                        in if packets_received msg1 = expected msg1
                           then t\<lparr>completed_messages := completed_messages t @ [assemble (packets msg1)],
                                  recon_buffers := (recon_buffers t)(key := None)\<rparr>
                           else t\<lparr>recon_buffers := (recon_buffers t)(key \<mapsto> msg1)\<rparr>)
                     else t\<lparr>recon_buffers := (recon_buffers t)(key \<mapsto> msg)\<rparr>)))"

text \<open>
  The receiver thread. Its input are the answers of \<open>recvfrom\<close> while \<open>running_\<close> is set: a timeout, a failure,
  which ends the thread, or a datagram.
\<close>

datatype recv_result = Would_block | Recv_error | Datagram bytes

fun ReceiverLoop :: "recv_result list \<Rightarrow> transport \<Rightarrow> transport" where
  "ReceiverLoop [] t = t"
| "ReceiverLoop (Would_block # rs) t = ReceiverLoop rs t"
| "ReceiverLoop (Recv_error # rs) t = t"
| "ReceiverLoop (Datagram d # rs) t = ReceiverLoop rs (receive d t)"

definition ReceiveAll :: "transport \<Rightarrow> transport \<times> shuffle_entry list list" where
  "ReceiveAll t = (t\<lparr>completed_messages := []\<rparr>, completed_messages t)"

definition ResetStats :: "transport \<Rightarrow> transport" where
  "ResetStats t = t\<lparr>total_bytes_sent := 0, total_bytes_received := 0\<rparr>"

subsection \<open>What is encoded is decoded\<close>

lemma length_entry_bytes [simp, length_simps]: "length (entry_bytes pad e) = 24"
  by (simp add: entry_bytes_def)

lemma length_header_bytes [simp, length_simps]: "length (header_bytes h) = 20"
  by (simp add: header_bytes_def)

lemma entry_roundtrip [word_read]: "entry_of_bytes (entry_bytes pad e @ rest) = e"
  by (simp add: entry_of_bytes_def entry_bytes_def)

lemma header_roundtrip [word_read]: "header_of_bytes (header_bytes h @ rest) = h"
  by (simp add: header_of_bytes_def header_bytes_def)

lemma length_payload: "length (concat (map (entry_bytes pad) es)) = length es * 24"
  by (induction es) simp_all

lemma drop_payload: "i \<le> length es \<Longrightarrow> drop (24 * i) (concat (map (entry_bytes pad) es)) = concat (map (entry_bytes pad) (drop i es))"
proof (induction es arbitrary: i)
  case (Cons e es)
  then show ?case by (cases i) (simp_all add: drop_append)
qed simp

lemma payload_roundtrip: "entries_of_payload (concat (map (entry_bytes pad) es)) = es"
proof (rule nth_equalityI)
  show "length (entries_of_payload (concat (map (entry_bytes pad) es))) = length es"
    by (simp add: entries_of_payload_def length_payload)
  fix i assume "i < length (entries_of_payload (concat (map (entry_bytes pad) es)))"
  then have i: "i < length es" by (simp add: entries_of_payload_def length_payload)
  then have "drop i es = es ! i # drop (Suc i) es" by (simp add: Cons_nth_drop_Suc)
  then show "entries_of_payload (concat (map (entry_bytes pad) es)) ! i = es ! i"
    using i by (simp add: entries_of_payload_def length_payload drop_payload entry_roundtrip)
qed

subsection \<open>Cutting into packets\<close>

lemma packet_count_bounds: "entries \<noteq> [] \<Longrightarrow> 0 < packet_count entries"
  "p < packet_count entries \<longleftrightarrow> p * 5 < length entries"
  by (cases entries; simp add: packet_count_def) (simp add: packet_count_def; linarith)

lemma packet_entries_eq: "packet_entries entries p = take 5 (drop (p * 5) entries)"
  by (auto simp: packet_entries_def Let_def min_def)

lemma concat_packets: "concat (map (packet_entries entries) [0..<packet_count entries]) = entries"
proof -
  have "concat (map (packet_entries entries) [0..<n]) = take (n * 5) entries" for n
    by (induction n) (simp_all add: packet_entries_eq take_add[symmetric] add.commute)
  moreover have "length entries \<le> packet_count entries * 5" unfolding packet_count_def by linarith
  ultimately show ?thesis by simp
qed

lemma packet_entries_length: "length (packet_entries entries p) \<le> 5"
  "p < packet_count entries \<Longrightarrow> 0 < length (packet_entries entries p)"
  using packet_count_bounds(2)[of p entries] by (simp_all add: packet_entries_eq)

lemma payload_length: "length (packet_payload pad entries p) = length (packet_entries entries p) * 24"
  by (simp add: packet_payload_def length_payload)

subsection \<open>One arriving packet\<close>

text \<open>A message in flight: its sender, its id and its entries.\<close>

type_synonym message = "u32 \<times> u32 \<times> shuffle_entry list"

definition message_key :: "message \<Rightarrow> u64" where
  "message_key = (\<lambda>(node, msg, _). push_bit 32 (ucast node) OR ucast msg)"

definition message_entries :: "message \<Rightarrow> shuffle_entry list" where
  "message_entries = (\<lambda>(_, _, entries). entries)"

definition message_packet :: "u32 \<Rightarrow> message \<times> nat \<Rightarrow> bytes" where
  "message_packet pad = (\<lambda>((node, msg, entries), p). packet_buffer pad node msg entries p)"

abbreviation message_count :: "message \<Rightarrow> nat" where
  "message_count m \<equiv> packet_count (message_entries m)"

definition sendable :: "message \<Rightarrow> bool" where
  "sendable m \<longleftrightarrow> message_entries m \<noteq> [] \<and> message_count m < 2 ^ 32"

text \<open>What the receiver keeps of a message after the packets \<open>S\<close> of it.\<close>

definition partial_message :: "u32 \<Rightarrow> message \<Rightarrow> nat set \<Rightarrow> reconstruction" where
  "partial_message pad m S = \<lparr>expected = word_of_nat (message_count m), packets_received = word_of_nat (card S),
     packets = map (\<lambda>p. if p \<in> S then packet_payload pad (message_entries m) p else []) [0..<message_count m]\<rparr>"

definition buffered :: "u32 \<Rightarrow> message \<Rightarrow> nat set \<Rightarrow> reconstruction option" where
  "buffered pad m S = (if S = {} \<or> S = {..<message_count m} then None else Some (partial_message pad m S))"

lemma message_key_inject: "message_key (a, b, es) = message_key (c, d, fs) \<longleftrightarrow> a = c \<and> b = d"
proof
  have parts: "ucast (drop_bit 32 (message_key (a, b, es))) = a \<and> ucast (message_key (a, b, es)) = b" for a b es
    by (intro conjI bit_word_eqI; simp add: message_key_def bit_simps) (auto dest: bit_imp_le_length simp: not_less)
  show "message_key (a, b, es) = message_key (c, d, fs) \<Longrightarrow> a = c \<and> b = d" by (metis parts)
qed (simp add: message_key_def)

lemma word_of_nat_u32_eq: "a < 2 ^ 32 \<Longrightarrow> b < 2 ^ 32 \<Longrightarrow> (word_of_nat a :: u32) = word_of_nat b \<longleftrightarrow> a = b"
  using unat_u32[of a] unat_u32[of b] by metis

text \<open>The packet as the receiver reads it.\<close>

lemma message_packet_parts:
  fixes m :: message and pad :: u32
  assumes "sendable m" "p < message_count m"
  defines "b \<equiv> message_packet pad (m, p)"
  shows "length b \<le> 140" "take 1500 b = b" "\<not> length b < 20 + unat (payload_len (header_of_bytes b))" "\<not> length b < 20"
    "recon_key (header_of_bytes b) = message_key m" "unat (packet_seq (header_of_bytes b)) = p"
    "total_packets (header_of_bytes b) = word_of_nat (message_count m)"
    "take (unat (payload_len (header_of_bytes b))) (drop 20 b) = packet_payload pad (message_entries m) p"
proof -
  obtain node msg es where m: "m = (node, msg, es)" by (cases m) auto
  have h: "header_of_bytes b = packet_header node msg es p"
    using header_roundtrip[of _ "packet_payload pad es p"] by (simp add: b_def m message_packet_def packet_buffer_def)
  have len: "length (packet_entries es p) \<le> 5" by (rule packet_entries_length)
  then have u: "unat (word_of_nat (length (packet_entries es p) * 24) :: u32) = length (packet_entries es p) * 24"
    by (intro unat_u32) simp
  have lb: "length b = 20 + length (packet_entries es p) * 24"
    by (simp add: b_def m message_packet_def packet_buffer_def payload_length)
  show "length b \<le> 140" "take 1500 b = b" "\<not> length b < 20" using lb len by simp_all
  show "\<not> length b < 20 + unat (payload_len (header_of_bytes b))" by (simp add: h packet_header_def u lb del: of_nat_mult)
  show "recon_key (header_of_bytes b) = message_key m" by (simp add: h packet_header_def recon_key_def message_key_def m)
  show "unat (packet_seq (header_of_bytes b)) = p"
    using assms(1,2) by (simp add: h packet_header_def sendable_def unat_u32)
  show "total_packets (header_of_bytes b) = word_of_nat (message_count m)"
    by (simp add: h packet_header_def m message_entries_def)
  show "take (unat (payload_len (header_of_bytes b))) (drop 20 b) = packet_payload pad (message_entries m) p"
    by (simp add: h packet_header_def u del: of_nat_mult) (simp add: b_def m message_packet_def packet_buffer_def payload_length message_entries_def)
qed

lemma payload_nonempty: "p < message_count m \<Longrightarrow> packet_payload pad (message_entries m) p \<noteq> []"
  using packet_entries_length(2)[of p "message_entries m"] payload_length[of pad "message_entries m" p] by auto

lemma assemble_all:
  "assemble (map (\<lambda>p. packet_payload pad (message_entries m) p) [0..<message_count m]) = message_entries m"
  by (simp add: assemble_def packet_payload_def payload_roundtrip comp_def concat_packets)

lemma packets_full:
  "packets (partial_message pad m {..<message_count m}) = map (\<lambda>p. packet_payload pad (message_entries m) p) [0..<message_count m]"
  by (simp add: partial_message_def)

lemma prepare_buffered:
  assumes "sendable m" "total_packets h = word_of_nat (message_count m)" "S \<noteq> {..<message_count m}"
  shows "prepare h (case buffered pad m S of None \<Rightarrow> empty_reconstruction | Some r \<Rightarrow> r) = partial_message pad m S"
proof -
  have c: "message_count m < 2 ^ 32" "0 < message_count m" using assms(1) packet_count_bounds(1) by (auto simp: sendable_def)
  then have "unat (word_of_nat (message_count m) :: u32) = message_count m" "(word_of_nat (message_count m) :: u32) \<noteq> 0"
    using word_of_nat_u32_eq[of "message_count m" 0] by (simp_all add: unat_u32)
  then show ?thesis using assms(2,3)
    by (auto simp: prepare_def buffered_def partial_message_def empty_reconstruction_def map_replicate_const)
qed

lemma receive_packet:
  fixes pad :: u32
  assumes "sendable m" "p < message_count m" "S \<subseteq> {..<message_count m}" "p \<notin> S"
    "recon_buffers t (message_key m) = buffered pad m S"
  defines "t' \<equiv> receive (message_packet pad (m, p)) t"
  shows "recon_buffers t' = (recon_buffers t)(message_key m := buffered pad m (insert p S))"
    "completed_messages t' = completed_messages t @ (if insert p S = {..<message_count m} then [message_entries m] else [])"
proof -
  let ?n = "message_count m" and ?b = "message_packet pad (m, p)"
  note parts = message_packet_parts[OF assms(1,2), where pad=pad]
  have n: "?n < 2 ^ 32" using assms(1) by (simp add: sendable_def)
  have S: "finite S" "S \<noteq> {..<?n}" using assms(2,3,4) finite_subset by auto
  have prep: "prepare (header_of_bytes ?b) (case buffered pad m S of None \<Rightarrow> empty_reconstruction | Some r \<Rightarrow> r) = partial_message pad m S"
    by (rule prepare_buffered[OF assms(1) parts(7) S(2)])
  have seq: "packet_seq (header_of_bytes ?b) < expected (partial_message pad m S)"
    using assms(2) n by (simp add: partial_message_def word_less_nat_alt parts(6) unat_u32)
  have upd: "(packets (partial_message pad m S))[p := packet_payload pad (message_entries m) p] = packets (partial_message pad m (insert p S))"
    using assms(2) by (intro nth_equalityI) (auto simp: partial_message_def nth_list_update)
  have card: "packets_received (partial_message pad m S) + 1 = packets_received (partial_message pad m (insert p S))"
    using S assms(4) by (simp add: partial_message_def add.commute)
  have new: "partial_message pad m S\<lparr>packets := packets (partial_message pad m (insert p S)),
      packets_received := packets_received (partial_message pad m (insert p S))\<rparr> = partial_message pad m (insert p S)"
    by (simp add: partial_message_def)
  have "card (insert p S) \<le> ?n" using card_mono[of "{..<?n}" "insert p S"] assms(2,3) by simp
  then have full: "packets_received (partial_message pad m (insert p S)) = expected (partial_message pad m (insert p S)) \<longleftrightarrow> insert p S = {..<?n}"
    using n assms(2,3) card_subset_eq[of "{..<?n}" "insert p S"] by (simp add: partial_message_def word_of_nat_u32_eq) fastforce
  have all: "assemble (packets (partial_message pad m {..<?n})) = message_entries m"
    by (simp add: packets_full assemble_all)
  have hole: "packets (partial_message pad m S) ! p = []" using assms(2,4) by (simp add: partial_message_def)
  have t': "t' = (let u = t\<lparr>total_bytes_received := total_bytes_received t + word_of_nat (length ?b)\<rparr> in
      if insert p S = {..<?n} then u\<lparr>completed_messages := completed_messages t @ [message_entries m], recon_buffers := (recon_buffers t)(message_key m := None)\<rparr>
      else u\<lparr>recon_buffers := (recon_buffers t)(message_key m \<mapsto> partial_message pad m (insert p S))\<rparr>)"
    by (simp add: t'_def receive_def Let_def parts(2-6,8) assms(5) prep seq hole upd card new full all)
  show "recon_buffers t' = (recon_buffers t)(message_key m := buffered pad m (insert p S))"
    "completed_messages t' = completed_messages t @ (if insert p S = {..<?n} then [message_entries m] else [])"
    by (simp_all add: t' Let_def buffered_def)
qed

subsection \<open>Any arrival order\<close>

definition arrived :: "(message \<times> nat) list \<Rightarrow> message \<Rightarrow> nat set" where
  "arrived rs m = {p. (m, p) \<in> set rs}"

lemma arrived_snoc [simp]: "arrived (rs @ [(m, p)]) k = (if k = m then insert p (arrived rs m) else arrived rs k)"
  by (auto simp: arrived_def)

lemma receive_arrivals:
  fixes pad :: u32
  assumes "finite M" "inj_on message_key M" "\<forall>m \<in> M. sendable m \<and> recon_buffers t (message_key m) = None"
    "distinct rs" "\<forall>(m, p) \<in> set rs. m \<in> M \<and> p < message_count m"
  defines "t' \<equiv> fold receive (map (message_packet pad) rs) t"
  shows "(\<forall>m \<in> M. recon_buffers t' (message_key m) = buffered pad m (arrived rs m)) \<and>
    (\<forall>k. k \<notin> message_key ` M \<longrightarrow> recon_buffers t' k = recon_buffers t k) \<and>
    mset (completed_messages t') = mset (completed_messages t) +
      image_mset message_entries (mset_set {m \<in> M. arrived rs m = {..<message_count m}})"
  using assms(4,5) unfolding t'_def
proof (induction rs rule: rev_induct)
  case Nil
  have none: "arrived [] m = {}" for m by (simp add: arrived_def)
  have "{m \<in> M. {} = {..<message_count m}} = {}"
  proof -
    have "{} \<noteq> {..<message_count m}" if "m \<in> M" for m
      using that assms(3) packet_count_bounds(1)[of "message_entries m"] by (auto simp: sendable_def lessThan_def)
    then show ?thesis by blast
  qed
  then have "mset_set {m \<in> M. {} = {..<message_count m}} = {#}" by (simp only: mset_set.empty)
  then show ?case using assms(3) by (simp add: none buffered_def del: split_paired_All split_paired_Ex)
next
  case (snoc r rs)
  obtain m p where r: "r = (m, p)" by (cases r)
  let ?t = "fold receive (map (message_packet pad) rs) t"
  have m: "m \<in> M" "p < message_count m" "sendable m" and fresh: "p \<notin> arrived rs m"
    and below: "arrived rs m \<subseteq> {..<message_count m}"
    using snoc.prems assms(3) by (auto simp: r arrived_def)
  have IH: "\<forall>m \<in> M. recon_buffers ?t (message_key m) = buffered pad m (arrived rs m)"
      "\<forall>k. k \<notin> message_key ` M \<longrightarrow> recon_buffers ?t k = recon_buffers t k"
      "mset (completed_messages ?t) = mset (completed_messages t) +
        image_mset message_entries (mset_set {m \<in> M. arrived rs m = {..<message_count m}})"
    using snoc by auto
  note step = receive_packet[OF m(3,2) below fresh IH(1)[rule_format, OF m(1)]]
  let ?done = "{k \<in> M. arrived rs k = {..<message_count k}}"
  have "m \<notin> ?done" using fresh m(2) by auto
  then have grow: "mset_set {k \<in> M. arrived (rs @ [(m, p)]) k = {..<message_count k}} =
      mset_set ?done + (if insert p (arrived rs m) = {..<message_count m} then {#m#} else {#})"
  proof (cases "insert p (arrived rs m) = {..<message_count m}")
    case True
    then have "{k \<in> M. arrived (rs @ [(m, p)]) k = {..<message_count k}} = insert m ?done" using m(1) by auto
    then show ?thesis using True \<open>m \<notin> ?done\<close> assms(1) by simp
  next
    case False
    then have "{k \<in> M. arrived (rs @ [(m, p)]) k = {..<message_count k}} = ?done" using \<open>m \<notin> ?done\<close> by auto
    then show ?thesis using False by simp
  qed
  have other: "k \<in> M \<Longrightarrow> k \<noteq> m \<Longrightarrow> message_key k \<noteq> message_key m" for k
    using assms(2) m(1) by (auto dest: inj_onD)
  let ?t2 = "fold receive (map (message_packet pad) (rs @ [(m, p)])) t"
  have t2: "?t2 = receive (message_packet pad (m, p)) ?t" by simp
  have "recon_buffers ?t2 (message_key k) = buffered pad k (arrived (rs @ [(m, p)]) k)" if "k \<in> M" for k
    using IH(1) other[OF that] that unfolding t2 step(1) arrived_snoc by (cases "k = m") simp_all
  moreover have "recon_buffers ?t2 k = recon_buffers t k" if "k \<notin> message_key ` M" for k
    using IH(2) that m(1) unfolding t2 step(1) by auto
  moreover have "mset (completed_messages ?t2) = mset (completed_messages t) +
      image_mset message_entries (mset_set {k \<in> M. arrived (rs @ [(m, p)]) k = {..<message_count k}})"
    unfolding t2 step(2) grow using IH(3) by simp
  ultimately show ?case unfolding r by blast
qed

lemma arrange: "image_mset f M = mset ds \<Longrightarrow> \<exists>ys. mset ys = M \<and> map f ys = ds"
proof (induction ds arbitrary: M)
  case (Cons d ds)
  then obtain N a where a: "M = add_mset a N" "f a = d" "image_mset f N = mset ds"
    using msed_map_invR[of f M d "mset ds"] by auto
  then obtain ys where "mset ys = N" "map f ys = ds" using Cons.IH by blast
  then show ?case using a by (intro exI[of _ "a # ys"]) simp
qed simp

definition sent_message :: "nat list \<times> shuffle_entry list \<times> transport \<Rightarrow> message" where
  "sent_message = (\<lambda>(order, entries, s). (node_id s, next_msg_id s, entries))"

text \<open>A call of \<open>Send\<close> that puts its datagrams on the wire, in some order.\<close>

definition valid_send :: "nat list \<times> shuffle_entry list \<times> transport \<Rightarrow> bool" where
  "valid_send = (\<lambda>(order, entries, s). mset order = mset [0..<packet_count entries] \<and> socket_open s \<and>
     entries \<noteq> [] \<and> packet_count entries < 2 ^ 32)"

definition sent_datagrams :: "(bytes \<Rightarrow> int) \<Rightarrow> u32 \<Rightarrow> nat list \<times> shuffle_entry list \<times> transport \<Rightarrow> bytes list" where
  "sent_datagrams sendto pad = (\<lambda>(order, entries, s). snd (Send order True sendto pad entries s))"

lemma sent_datagrams_eq:
  assumes "valid_send x"
  shows "mset (sent_datagrams sendto pad x) =
    image_mset (message_packet pad) (mset (map (Pair (sent_message x)) [0..<message_count (sent_message x)]))"
proof -
  obtain order entries s where x: "x = (order, entries, s)" by (cases x) auto
  have "mset (sent_datagrams sendto pad x) = image_mset (packet_buffer pad (node_id s) (next_msg_id s) entries) (mset order)"
    using assms by (simp add: x sent_datagrams_def valid_send_def Send_def Let_def)
  then show ?thesis using assms
    by (simp add: x valid_send_def sent_message_def message_entries_def message_packet_def multiset.map_comp comp_def)
qed

lemma sent_message_facts: "valid_send x \<Longrightarrow> sendable (sent_message x)"
  by (auto simp: valid_send_def sendable_def sent_message_def message_entries_def split: prod.splits)

lemma all_datagrams:
  "\<forall>x \<in> set sends. valid_send x \<Longrightarrow> mset (concat (map (sent_datagrams sendto pad) sends)) =
    image_mset (message_packet pad) (mset (concat (map (\<lambda>m. map (Pair m) [0..<message_count m]) (map sent_message sends))))"
  by (induction sends) (simp_all add: sent_datagrams_eq)

fun datagrams_of :: "recv_result list \<Rightarrow> bytes list" where
  "datagrams_of [] = []"
| "datagrams_of (Datagram d # rs) = d # datagrams_of rs"
| "datagrams_of (Would_block # rs) = datagrams_of rs"
| "datagrams_of (Recv_error # rs) = datagrams_of rs"

lemma ReceiverLoop_fold: "Recv_error \<notin> set rs \<Longrightarrow> ReceiverLoop rs t = fold receive (datagrams_of rs) t"
  by (induction rs t rule: ReceiverLoop.induct) simp_all

lemma datagrams_of_map [simp]: "datagrams_of (map Datagram ds) = ds"
  by (induction ds) simp_all

lemma arrivals_deliver:
  assumes "\<forall>x \<in> set sends. valid_send x \<and> recon_buffers r (message_key (sent_message x)) = None"
    and "distinct (map (\<lambda>(_, _, s). (node_id s, next_msg_id s)) sends)"
    and "Recv_error \<notin> set arrivals"
    and "mset (datagrams_of arrivals) = mset (concat (map (sent_datagrams sendto pad) sends))"
  shows "mset (completed_messages (ReceiverLoop arrivals r)) =
      mset (completed_messages r) + mset (map (\<lambda>(_, entries, _). entries) sends) \<and>
    recon_buffers (ReceiverLoop arrivals r) = recon_buffers r"
proof -
  define datagrams where "datagrams = datagrams_of arrivals"
  have loop: "ReceiverLoop arrivals r = fold receive datagrams r"
    unfolding datagrams_def by (rule ReceiverLoop_fold[OF assms(3)])
  define ms where "ms = map sent_message sends"
  define rs0 where "rs0 = concat (map (\<lambda>m. map (Pair m) [0..<message_count m]) ms)"
  have keys: "map (\<lambda>(_, _, s). (node_id s, next_msg_id s)) sends = map (\<lambda>(n, i, _). (n, i)) ms"
    by (auto simp: ms_def sent_message_def)
  have dms: "distinct ms" using assms(2) unfolding keys by (rule distinct_map[THEN iffD1, THEN conjunct1])
  have inj0: "inj_on (\<lambda>(n, i, _). (n, i)) (set ms)" using assms(2) unfolding keys distinct_map by blast
  have inj: "inj_on message_key (set ms)"
  proof (rule inj_onI)
    fix x y assume xy: "x \<in> set ms" "y \<in> set ms" "message_key x = message_key y"
    obtain a b es c d fs where "x = (a, b, es)" "y = (c, d, fs)" by (metis prod_cases3)
    then show "x = y" using inj_onD[OF inj0 _ xy(1,2)] xy(3) by (simp add: message_key_inject)
  qed
  have "mset (concat (map (sent_datagrams sendto pad) sends)) = image_mset (message_packet pad) (mset rs0)"
    unfolding rs0_def ms_def using assms(1) by (intro all_datagrams) simp
  then obtain rs where rs: "mset rs = mset rs0" "map (message_packet pad) rs = datagrams"
    using arrange assms(4) unfolding datagrams_def by metis
  have set_rs: "set rs = {(m, p). m \<in> set ms \<and> p < message_count m}"
    using mset_eq_setD[OF rs(1)] by (auto simp: rs0_def)
  have "distinct rs0" using dms unfolding rs0_def
    by (induction ms) (auto simp: distinct_map inj_on_def)
  then have "distinct rs" using mset_eq_imp_distinct_iff[OF rs(1)] by simp
  have ok: "\<forall>m \<in> set ms. sendable m \<and> recon_buffers r (message_key m) = None"
    using assms(1) sent_message_facts by (auto simp: ms_def)
  have full: "arrived rs m = {..<message_count m}" if "m \<in> set ms" for m
    using that by (auto simp: arrived_def set_rs)
  note R = receive_arrivals[OF _ inj ok \<open>distinct rs\<close>, where pad=pad, unfolded rs(2)]
  have all: "{m \<in> set ms. arrived rs m = {..<message_count m}} = set ms" using full by auto
  have fin: "(\<forall>m \<in> set ms. recon_buffers (fold receive datagrams r) (message_key m) = buffered pad m (arrived rs m)) \<and>
      (\<forall>k. k \<notin> message_key ` set ms \<longrightarrow> recon_buffers (fold receive datagrams r) k = recon_buffers r k) \<and>
      mset (completed_messages (fold receive datagrams r)) = mset (completed_messages r) + image_mset message_entries (mset_set (set ms))"
    using R by (simp add: set_rs all)
  have "image_mset message_entries (mset_set (set ms)) = mset (map (\<lambda>(_, entries, _). entries) sends)"
    using dms by (simp add: mset_set_set) (auto simp: ms_def message_entries_def sent_message_def intro!: image_mset_cong simp: multiset.map_comp)
  moreover have "recon_buffers (fold receive datagrams r) k = recon_buffers r k" for k
    using fin full ok by (cases "k \<in> message_key ` set ms") (auto simp: buffered_def)
  ultimately show ?thesis using fin unfolding loop by auto
qed

text \<open>
  Property C28. Whatever the order in which the datagrams of any number of messages of any senders arrive, the
  receiver delivers every message exactly once, with all its entries in their order, and keeps nothing.
\<close>

theorem any_arrival_order_delivers:
  assumes "\<forall>x \<in> set sends. valid_send x \<and> recon_buffers r (message_key (sent_message x)) = None"
    and "distinct (map (\<lambda>(_, _, s). (node_id s, next_msg_id s)) sends)"
    and "Recv_error \<notin> set arrivals"
    and "mset (datagrams_of arrivals) = mset (concat (map (sent_datagrams sendto pad) sends))"
  shows "mset (completed_messages (ReceiverLoop arrivals r)) =
      mset (completed_messages r) + mset (map (\<lambda>(_, entries, _). entries) sends) \<and>
    recon_buffers (ReceiverLoop arrivals r) = recon_buffers r"
  by (rule arrivals_deliver[OF assms])

definition demo_transport :: "u32 \<Rightarrow> transport" where
  "demo_transport n = \<lparr>node_id = n, socket_open = True, running = True, next_msg_id = 1, recon_buffers = Map.empty,
     completed_messages = [], total_bytes_sent = 0, total_bytes_received = 0\<rparr>"

definition demo_entry :: shuffle_entry where
  "demo_entry = \<lparr>entry_sig = \<lparr>sig_kim = 3, sig_xor = 5\<rparr>, row_id = 7\<rparr>"

theorem any_arrival_order_delivers_witness:
  "mset (completed_messages (ReceiverLoop (Would_block # map Datagram (rev (concat (map (sent_datagrams (\<lambda>_. 1) 0)
      [([1, 0], replicate 6 demo_entry, demo_transport 1), ([0], [demo_entry], demo_transport 2)])))) (demo_transport 3))) =
    {#replicate 6 demo_entry, [demo_entry]#}"
proof -
  let ?sends = "[([1, 0], replicate 6 demo_entry, demo_transport 1), ([0], [demo_entry], demo_transport 2)]"
  let ?arrivals = "Would_block # map Datagram (rev (concat (map (sent_datagrams (\<lambda>_. 1) 0) ?sends)))"
  have 1: "\<forall>x \<in> set ?sends. valid_send x \<and> recon_buffers (demo_transport 3) (message_key (sent_message x)) = None"
    by (simp add: valid_send_def demo_transport_def packet_count_def upt_rec)
  have 2: "distinct (map (\<lambda>(_, _, s). (node_id s, next_msg_id s)) ?sends)" by (simp add: demo_transport_def)
  have 3: "Recv_error \<notin> set ?arrivals" by auto
  have 4: "mset (datagrams_of ?arrivals) = mset (concat (map (sent_datagrams (\<lambda>_. 1) 0) ?sends))"
    by (simp only: datagrams_of.simps datagrams_of_map mset_rev)
  show ?thesis using any_arrival_order_delivers[OF 1 2 3 4, THEN conjunct1]
    by (simp add: demo_transport_def add_mset_commute del: ReceiverLoop.simps)
qed

text \<open>
  The receiver forgets a message it has delivered: a message that fits one datagram is delivered as
  often as the network repeats the datagram.
\<close>

theorem repeated_datagram_delivers_again:
  assumes "valid_send (order, entries, s)" "length entries \<le> 5" "recon_buffers r (message_key (sent_message (order, entries, s))) = None"
  shows "completed_messages (ReceiverLoop (map Datagram (concat (replicate n (sent_datagrams sendto pad (order, entries, s))))) r) =
    completed_messages r @ concat (replicate n [entries])"
  using assms(3)
proof (induction n arbitrary: r)
  case (Suc n)
  let ?m = "sent_message (order, entries, s)"
  have m: "message_entries ?m = entries" by (simp add: sent_message_def message_entries_def)
  have "entries \<noteq> []" using assms(1) by (simp add: valid_send_def)
  then have one: "packet_count entries = 1" using assms(2) by (cases entries) (simp_all add: packet_count_def)
  have "mset (sent_datagrams sendto pad (order, entries, s)) = {#message_packet pad (?m, 0)#}"
    using sent_datagrams_eq[OF assms(1), of sendto pad] by (simp add: m one)
  then have d: "sent_datagrams sendto pad (order, entries, s) = [message_packet pad (?m, 0)]" by simp
  have "{0} = {..<message_count ?m}" by (auto simp: m one)
  then have step: "recon_buffers (receive (message_packet pad (?m, 0)) r) (message_key ?m) = None"
      "completed_messages (receive (message_packet pad (?m, 0)) r) = completed_messages r @ [entries]"
    using receive_packet[OF sent_message_facts[OF assms(1)], of 0 "{}" r pad] Suc.prems
    by (simp_all add: buffered_def m one)
  show ?case using Suc.IH[OF step(1)] by (simp add: d step(2))
qed simp

theorem repeated_datagram_delivers_again_witness:
  "completed_messages (ReceiverLoop (map Datagram (concat (replicate 2 (sent_datagrams (\<lambda>_. 1) 0 ([0], [demo_entry], demo_transport 1))))) (demo_transport 3)) =
    [[demo_entry], [demo_entry]]"
proof -
  have "valid_send ([0], [demo_entry], demo_transport 1)" by (simp add: valid_send_def demo_transport_def packet_count_def)
  then have "completed_messages (ReceiverLoop (map Datagram (concat (replicate 2 (sent_datagrams (\<lambda>_. 1) 0 ([0], [demo_entry], demo_transport 1))))) (demo_transport 3)) =
      completed_messages (demo_transport 3) @ concat (replicate 2 [[demo_entry]])"
    by (rule repeated_datagram_delivers_again) (simp_all add: demo_transport_def)
  then show ?thesis by (simp add: demo_transport_def numeral_2_eq_2)
qed

end
