(* ===== verification/Std_String.thy ===== *)
theory Std_String
  imports Runner
begin

text \<open>
  The operations of \<open>std::string\<close> the text-processing parts use: \<open>find\<close>, \<open>find_last_of\<close>, \<open>substr\<close>,
  \<open>std::to_string\<close>, the trimming helper of \<open>pg_wire_server.cpp\<close>, and the character classes of the C
  locale. A position that \<open>find\<close> would report as \<open>npos\<close> is \<open>None\<close>.
\<close>

subsection \<open>Searching\<close>

definition is_at :: "string \<Rightarrow> string \<Rightarrow> nat \<Rightarrow> bool" where
  "is_at s pat i \<longleftrightarrow> take (length pat) (drop i s) = pat"

definition find_from :: "string \<Rightarrow> string \<Rightarrow> nat \<Rightarrow> nat option" where
  "find_from s pat i = List.find (is_at s pat) [i..<length s + 1]"

abbreviation find_first :: "string \<Rightarrow> string \<Rightarrow> nat option" where
  "find_first s pat \<equiv> find_from s pat 0"

definition starts_with :: "string \<Rightarrow> string \<Rightarrow> bool" where
  "starts_with s pat \<longleftrightarrow> is_at s pat 0"

definition find_last_of :: "string \<Rightarrow> char \<Rightarrow> nat option" where
  "find_last_of s c = List.find (\<lambda>i. s ! i = c) (rev [0..<length s])"

text \<open>\<open>s.substr(pos, n)\<close> and \<open>s.substr(pos)\<close>; a position past the end throws \<open>std::out_of_range\<close>.\<close>

definition substr :: "string \<Rightarrow> nat \<Rightarrow> nat \<Rightarrow> string" where
  "substr s pos n = take n (drop pos s)"

lemma find_Some_iff_first:
  "List.find P [i..<n] = Some j \<longleftrightarrow> i \<le> j \<and> j < n \<and> P j \<and> (\<forall>k. i \<le> k \<longrightarrow> k < j \<longrightarrow> \<not> P k)"
proof
  assume "List.find P [i..<n] = Some j"
  then obtain m where m: "m < length [i..<n]" "P ([i..<n] ! m)" "j = [i..<n] ! m" "\<forall>l < m. \<not> P ([i..<n] ! l)"
    unfolding find_Some_iff by blast
  have "\<not> P k" if "i \<le> k" "k < j" for k
  proof -
    have "k - i < m" "[i..<n] ! (k - i) = k" using that m(1,3) by (auto simp: nth_upt)
    then show ?thesis using m(4) by metis
  qed
  then show "i \<le> j \<and> j < n \<and> P j \<and> (\<forall>k. i \<le> k \<longrightarrow> k < j \<longrightarrow> \<not> P k)" using m(1-3) by auto
next
  assume R: "i \<le> j \<and> j < n \<and> P j \<and> (\<forall>k. i \<le> k \<longrightarrow> k < j \<longrightarrow> \<not> P k)"
  then show "List.find P [i..<n] = Some j"
    unfolding find_Some_iff by (intro exI[of _ "j - i"]) (auto simp: nth_upt)
qed

lemma find_None_iff_none: "List.find P [i..<n] = None \<longleftrightarrow> (\<forall>k. i \<le> k \<longrightarrow> k < n \<longrightarrow> \<not> P k)"
  by (auto simp: find_None_iff)

lemma find_from_Some:
  "find_from s pat i = Some j \<longleftrightarrow> i \<le> j \<and> j \<le> length s \<and> is_at s pat j \<and> (\<forall>k. i \<le> k \<longrightarrow> k < j \<longrightarrow> \<not> is_at s pat k)"
  by (simp add: find_from_def find_Some_iff_first less_Suc_eq_le del: upt_Suc)

lemma find_from_None: "find_from s pat i = None \<longleftrightarrow> (\<forall>k. i \<le> k \<longrightarrow> k \<le> length s \<longrightarrow> \<not> is_at s pat k)"
  by (simp add: find_from_def find_None_iff_none less_Suc_eq_le del: upt_Suc)

lemma find_last_of_Some:
  assumes "c \<notin> set q" shows "find_last_of (p @ c # q) c = Some (length p)"
proof -
  have "find_last_of (p @ c # q) c = List.find (\<lambda>i. (p @ c # q) ! i = c) (rev [length p + 1..<length p + 1 + length q] @ rev [0..<length p + 1])"
    using upt_add_eq_append[of 0 "length p + 1" "length q"]
    unfolding find_last_of_def rev_append[symmetric] by (simp del: upt_Suc)
  moreover have "(p @ c # q) ! i \<noteq> c" if "i \<in> set [length p + 1..<length p + 1 + length q]" for i
  proof -
    obtain k where k: "i = length p + Suc k" "k < length q" using \<open>i \<in> _\<close> by (auto simp: Suc_le_eq less_iff_Suc_add)
    then have "(p @ c # q) ! i = q ! k" by (simp add: nth_append)
    then show ?thesis using assms nth_mem[OF k(2)] by metis
  qed
  then have "List.find (\<lambda>i. (p @ c # q) ! i = c) (rev [length p + 1..<length p + 1 + length q]) = None"
    unfolding find_None_iff by (simp del: upt_Suc)
  moreover have "List.find f (xs @ ys) = (case List.find f xs of None \<Rightarrow> List.find f ys | Some r \<Rightarrow> Some r)" for f :: "nat \<Rightarrow> bool" and xs ys
    by (induction xs) auto
  ultimately show ?thesis by simp
qed

lemma find_last_of_None: "find_last_of s c = None \<longleftrightarrow> c \<notin> set s"
  by (auto simp: find_last_of_def find_None_iff in_set_conv_nth)

subsection \<open>Numbers as text\<close>

fun decimal :: "nat \<Rightarrow> string" where
  "decimal n = (if n < 10 then [char_of (48 + n)] else decimal (n div 10) @ [char_of (48 + n mod 10)])"

declare decimal.simps [simp del]

text \<open>\<open>std::to_string\<close> of an unsigned and of a signed 64-bit number.\<close>

definition to_string_u64 :: "u64 \<Rightarrow> string" where
  "to_string_u64 w = decimal (unat w)"

definition to_string_i64 :: "u64 \<Rightarrow> string" where
  "to_string_i64 w = (if sint w < 0 then CHR ''-'' # decimal (nat (- sint w)) else decimal (nat (sint w)))"

definition is_digit :: "char \<Rightarrow> bool" where
  "is_digit c \<longleftrightarrow> CHR ''0'' \<le> c \<and> c \<le> CHR ''9''"

fun digits_value :: "nat \<Rightarrow> string \<Rightarrow> nat" where
  "digits_value acc [] = acc"
| "digits_value acc (c # cs) = digits_value (10 * acc + (of_char c - 48)) cs"

lemma digits_value_snoc: "digits_value acc (s @ [c]) = 10 * digits_value acc s + (of_char c - 48)"
  by (induction s arbitrary: acc) simp_all

lemma digit_char: "d < 10 \<Longrightarrow> of_char (char_of (48 + d) :: char) = 48 + (d :: nat)" "d < 10 \<Longrightarrow> is_digit (char_of (48 + d))"
  by (simp_all add: is_digit_def less_eq_char_def)

lemma decimal_value: "digits_value 0 (decimal n) = n"
proof (induction n rule: decimal.induct)
  case (1 n)
  show ?case
  proof (cases "n < 10")
    case True then show ?thesis by (subst decimal.simps) (simp add: digit_char)
  next
    case False
    then show ?thesis using 1[OF False] by (subst decimal.simps) (simp add: digits_value_snoc digit_char)
  qed
qed

lemma decimal_nonempty [simp]: "decimal n \<noteq> []"
  by (subst decimal.simps) simp

lemma decimal_digits: "list_all is_digit (decimal n)"
proof (induction n rule: decimal.induct)
  case (1 n)
  then show ?case using digit_char(2)[of n] digit_char(2)[of "n mod 10"] by (subst decimal.simps) simp
qed

lemma decimal_inject: "decimal m = decimal n \<longleftrightarrow> m = n"
  by (metis decimal_value)

lemma length_decimal: "n < 10 ^ k \<Longrightarrow> 0 < k \<Longrightarrow> length (decimal n) \<le> k"
proof (induction k arbitrary: n)
  case (Suc k)
  show ?case
  proof (cases "n < 10")
    case True then show ?thesis by (subst decimal.simps) simp
  next
    case False
    then have "0 < k" using Suc.prems(1) by (cases k) auto
    moreover have "n div 10 < 10 ^ k" using Suc.prems(1) by (simp add: less_mult_imp_div_less mult.commute)
    ultimately have "length (decimal (n div 10)) \<le> k" using Suc.IH by blast
    then show ?thesis using False by (subst decimal.simps) simp
  qed
qed simp

lemma length_to_string_u64: "length (to_string_u64 w) \<le> 20"
proof -
  have "unat w < 10 ^ 20" using unsigned_less[of w, where ?'a = nat] by (rule order_less_trans) simp
  then show ?thesis unfolding to_string_u64_def by (rule length_decimal) simp
qed

subsection \<open>Characters\<close>

definition tolower_char :: "char \<Rightarrow> char" where
  "tolower_char c = (if CHR ''A'' \<le> c \<and> c \<le> CHR ''Z'' then char_of (of_char c + 32 :: nat) else c)"

definition lowercase :: "string \<Rightarrow> string" where
  "lowercase = map tolower_char"

text \<open>\<open>isspace\<close> of the C locale, and the four characters \<open>Trim\<close> takes off.\<close>

definition is_space :: "char \<Rightarrow> bool" where
  "is_space c \<longleftrightarrow> of_char c \<in> {9, 10, 11, 12, 13, 32 :: nat}"

definition is_blank :: "char \<Rightarrow> bool" where
  "is_blank c \<longleftrightarrow> of_char c \<in> {9, 10, 13, 32 :: nat}"

lemma length_lowercase [simp]: "length (lowercase s) = length s"
  by (simp add: lowercase_def)

end
