(* ===== verification/Coordinator.thy ===== *)
theory Coordinator
  imports Srd_Transport Std_String Query_Result Mem_Table Registry
begin

text \<open>
  The distributed join of \<open>src/lex/distributed/distributed_coordinator.cpp\<close>: cluster nodes that keep
  Arrow partitions, the signatures of their rows, the two shuffles with replication of hot keys, the local
  hash joins, the verification of the candidate pairs, and the placement of tasks. Networking is the
  parameter \<open>environment\<close>; the transport is that of \<open>Srd_Transport\<close>.
\<close>

subsection \<open>Hashes and row ids\<close>

definition GenerateXorSum :: "string \<Rightarrow> u64" where
  "GenerateXorSum str = fold (\<lambda>c h. (h XOR word_of_nat (of_char c)) * 1099511628211) str 14695981039346656037"

definition signature_of :: "string \<Rightarrow> fat_signature" where
  "signature_of val = \<lparr>sig_kim = GenerateKimSignature val, sig_xor = GenerateXorSum val\<rparr>"

definition PackRowId :: "u32 \<Rightarrow> u32 \<Rightarrow> u32 \<Rightarrow> u32" where
  "PackRowId nd batch_idx row_idx = push_bit 24 nd OR push_bit 12 batch_idx OR row_idx"

definition UnpackRowId :: "u32 \<Rightarrow> u32 \<times> u32 \<times> u32" where
  "UnpackRowId packed = (drop_bit 24 packed, drop_bit 12 packed AND 0xFFF, packed AND 0xFFF)"

definition sig_hash :: "fat_signature \<Rightarrow> u64" where
  "sig_hash s = sig_kim s XOR sig_xor s"

subsection \<open>Filters\<close>

text \<open>
  A row that still matches, under one predicate. An operator the branches do not name leaves the row
  matching.
\<close>

definition keeps_row :: "predicate \<Rightarrow> arrow_array \<Rightarrow> nat \<Rightarrow> bool" where
  "keeps_row pred arr r =
     (if is_null arr r then False
      else if is_string pred then
        (let val = get_view arr r; clean_pat = clean_pattern (pred_op pred) (pred_value pred)
         in case pred_op pred of
              EQ \<Rightarrow> val = clean_pat
            | LIKE_PREFIX \<Rightarrow> length clean_pat \<le> length val \<and> take (length clean_pat) val = clean_pat
            | LIKE_CONTAINS \<Rightarrow> contains val clean_pat
            | _ \<Rightarrow> True)
      else
        (let val = sint (int_value arr r); target = sint (numeric_value pred)
         in case pred_op pred of EQ \<Rightarrow> val = target | GT \<Rightarrow> val > target | LT \<Rightarrow> val < target | _ \<Rightarrow> True))"

fun filter_rows :: "record_batch \<Rightarrow> predicate list \<Rightarrow> bool list \<Rightarrow> bool list option" where
  "filter_rows batch [] matches = Some matches"
| "filter_rows batch (pred # preds) matches =
     (case column_by_name batch (pred_column pred) of
        None \<Rightarrow> Some (replicate (length matches) False)
      | Some col \<Rightarrow>
          (case pred_array pred col of
             None \<Rightarrow> None
           | Some arr \<Rightarrow> filter_rows batch preds
               (map (\<lambda>r. if matches ! r then keeps_row pred arr r else False) [0..<length matches])))"

definition GetMatchingRows :: "record_batch \<Rightarrow> predicate list \<Rightarrow> bool list option" where
  "GetMatchingRows batch preds = filter_rows batch preds (replicate (batch_rows batch) True)"

subsection \<open>Cluster nodes\<close>

record cluster_node =
  transport :: transport
  availability_zone :: string
  left_batches :: "record_batch list"
  right_batches :: "record_batch list"
  left_row_groups :: "row_group list"
  right_row_groups :: "row_group list"
  local_left_signatures :: "shuffle_entry list"
  local_right_signatures :: "shuffle_entry list"
  received_left_signatures :: "shuffle_entry list"
  received_right_signatures :: "shuffle_entry list"

definition new_cluster_node :: "nat \<Rightarrow> cluster_node" where
  "new_cluster_node n = \<lparr>transport = new_transport (word_of_nat n), availability_zone = ''us-east-1-az'' @ decimal (n + 1),
     left_batches = [], right_batches = [], left_row_groups = [], right_row_groups = [],
     local_left_signatures = [], local_right_signatures = [], received_left_signatures = [], received_right_signatures = []\<rparr>"

text \<open>The batch is kept before the ingester may throw.\<close>

definition IngestLeftPartition :: "record_batch \<Rightarrow> cluster_node \<Rightarrow> ingest_error option \<times> cluster_node" where
  "IngestLeftPartition batch nd =
     (let nd1 = nd\<lparr>left_batches := left_batches nd @ [batch]\<rparr>
      in case Ingest batch of
           Inl e \<Rightarrow> (Some e, nd1)
         | Inr rg \<Rightarrow> (None, nd1\<lparr>left_row_groups := left_row_groups nd @ [rg]\<rparr>))"

definition IngestRightPartition :: "record_batch \<Rightarrow> cluster_node \<Rightarrow> ingest_error option \<times> cluster_node" where
  "IngestRightPartition batch nd =
     (let nd1 = nd\<lparr>right_batches := right_batches nd @ [batch]\<rparr>
      in case Ingest batch of
           Inl e \<Rightarrow> (Some e, nd1)
         | Inr rg \<Rightarrow> (None, nd1\<lparr>right_row_groups := right_row_groups nd @ [rg]\<rparr>))"

text \<open>\<open>None\<close> is the undefined behaviour of an unchecked cast or of an index out of range.\<close>

definition batch_signatures :: "u32 \<Rightarrow> predicate list \<Rightarrow> string \<Rightarrow> nat \<times> record_batch \<Rightarrow> shuffle_entry list option" where
  "batch_signatures nd preds join_col = (\<lambda>(b, batch).
     (case GetMatchingRows batch preds of
        None \<Rightarrow> None
      | Some matches \<Rightarrow>
          (case column_by_name batch join_col of
             None \<Rightarrow> Some []
           | Some col \<Rightarrow>
               map_option (\<lambda>str_arr.
                 map (\<lambda>r. \<lparr>entry_sig = signature_of (get_view str_arr r), row_id = PackRowId nd (word_of_nat b) (word_of_nat r)\<rparr>)
                   (filter (\<lambda>r. matches ! r \<and> \<not> is_null str_arr r) [0..<batch_rows batch]))
               (as_string_array col))))"

definition partition_signatures :: "u32 \<Rightarrow> predicate list \<Rightarrow> string \<Rightarrow> record_batch list \<Rightarrow> shuffle_entry list option" where
  "partition_signatures nd preds join_col bs = map_option concat (those (map (batch_signatures nd preds join_col) (enumerate 0 bs)))"

definition PrepareJoinSignatures ::
    "predicate list \<Rightarrow> predicate list \<Rightarrow> string \<Rightarrow> string \<Rightarrow> cluster_node \<Rightarrow> cluster_node option" where
  "PrepareJoinSignatures left_preds right_preds left_join_col right_join_col nd =
     (case partition_signatures (node_id (transport nd)) left_preds left_join_col (left_batches nd) of
        None \<Rightarrow> None
      | Some l \<Rightarrow>
          (case partition_signatures (node_id (transport nd)) right_preds right_join_col (right_batches nd) of
             None \<Rightarrow> None
           | Some r \<Rightarrow> Some (nd\<lparr>local_left_signatures := l, local_right_signatures := r\<rparr>)))"

subsection \<open>Shuffles\<close>

text \<open>
  What the code gets from outside: whether \<open>inet_pton\<close> accepts a host, the order \<open>std::shuffle\<close> gives the
  packets of a message, the results of \<open>sendto\<close>, the padding of the copied structs, and what the receiver
  thread of an address sees after datagrams were sent.
\<close>

type_synonym address = "string \<times> nat"

record environment =
  resolves :: "string \<Rightarrow> bool"
  packet_order :: "u32 \<Rightarrow> u32 \<Rightarrow> nat \<Rightarrow> nat list"
  sendto_result :: "bytes \<Rightarrow> int"
  padding :: u32
  arrivals :: "(address \<times> bytes) list \<Rightarrow> address \<Rightarrow> recv_result list"

fun send_each :: "environment \<Rightarrow> (address \<times> shuffle_entry list) list \<Rightarrow> transport \<Rightarrow> transport \<times> (address \<times> bytes) list" where
  "send_each env [] t = (t, [])"
| "send_each env ((a, entries) # rest) t =
     (if entries = [] then send_each env rest t
      else (case Send (packet_order env (node_id t) (next_msg_id t) (packet_count entries)) (resolves env (fst a))
                   (sendto_result env) (padding env) entries t of
              (t1, ds) \<Rightarrow> (case send_each env rest t1 of (t2, ds2) \<Rightarrow> (t2, map (Pair a) ds @ ds2))))"

definition push_to :: "nat \<Rightarrow> shuffle_entry \<Rightarrow> shuffle_entry list list \<Rightarrow> shuffle_entry list list" where
  "push_to n e sends = sends[n := sends ! n @ [e]]"

definition cold_target :: "nat \<Rightarrow> shuffle_entry \<Rightarrow> nat" where
  "cold_target num e = unat (sig_hash (entry_sig e) mod word_of_nat num)"

definition left_sends :: "nat \<Rightarrow> fat_signature set \<Rightarrow> shuffle_entry list \<Rightarrow> shuffle_entry list list" where
  "left_sends num hot entries = fold (\<lambda>e sends.
     if entry_sig e \<in> hot then fold (\<lambda>n. push_to n e) [0..<num] sends
     else push_to (cold_target num e) e sends) entries (replicate num [])"

definition right_target :: "nat \<Rightarrow> fat_signature set \<Rightarrow> shuffle_entry \<Rightarrow> nat" where
  "right_target num hot e =
     (if entry_sig e \<in> hot then
        (case UnpackRowId (row_id e) of (nd, batch_idx, row_idx) \<Rightarrow>
           unat ((sig_hash (entry_sig e) + ucast batch_idx) mod word_of_nat num))
      else cold_target num e)"

definition right_sends :: "nat \<Rightarrow> fat_signature set \<Rightarrow> shuffle_entry list \<Rightarrow> shuffle_entry list list" where
  "right_sends num hot entries = fold (\<lambda>e. push_to (right_target num hot e) e) entries (replicate num [])"

definition ShuffleLeftSignatures ::
    "environment \<Rightarrow> nat \<Rightarrow> address list \<Rightarrow> fat_signature set \<Rightarrow> cluster_node \<Rightarrow> cluster_node \<times> (address \<times> bytes) list" where
  "ShuffleLeftSignatures env num addrs hot nd =
     (case send_each env (zip addrs (left_sends num hot (local_left_signatures nd))) (transport nd) of
        (t, ds) \<Rightarrow> (nd\<lparr>received_left_signatures := [], transport := t\<rparr>, ds))"

definition ShuffleRightSignatures ::
    "environment \<Rightarrow> nat \<Rightarrow> address list \<Rightarrow> fat_signature set \<Rightarrow> cluster_node \<Rightarrow> cluster_node \<times> (address \<times> bytes) list" where
  "ShuffleRightSignatures env num addrs hot nd =
     (case send_each env (zip addrs (right_sends num hot (local_right_signatures nd))) (transport nd) of
        (t, ds) \<Rightarrow> (nd\<lparr>received_right_signatures := [], transport := t\<rparr>, ds))"

definition CollectLeftSignatures :: "cluster_node \<Rightarrow> cluster_node" where
  "CollectLeftSignatures nd = (case ReceiveAll (transport nd) of
     (t, msgs) \<Rightarrow> nd\<lparr>transport := t, received_left_signatures := received_left_signatures nd @ concat msgs\<rparr>)"

definition CollectRightSignatures :: "cluster_node \<Rightarrow> cluster_node" where
  "CollectRightSignatures nd = (case ReceiveAll (transport nd) of
     (t, msgs) \<Rightarrow> nd\<lparr>transport := t, received_right_signatures := received_right_signatures nd @ concat msgs\<rparr>)"

text \<open>The order of equal keys in the multimap is that of insertion.\<close>

definition PerformLocalJoin :: "cluster_node \<Rightarrow> (u32 \<times> u32) list" where
  "PerformLocalJoin nd = concat (map (\<lambda>r.
     map (\<lambda>l. (row_id l, row_id r)) (filter (\<lambda>l. entry_sig l = entry_sig r) (received_left_signatures nd)))
     (received_right_signatures nd))"

subsection \<open>Looking up rows\<close>

definition nth_in :: "'a list \<Rightarrow> nat \<Rightarrow> 'a option" where
  "nth_in xs i = (if i < length xs then Some (xs ! i) else None)"

definition row_string :: "record_batch list \<Rightarrow> u32 \<Rightarrow> string \<Rightarrow> string option" where
  "row_string bs rid col_name =
     (case UnpackRowId rid of (nd, batch_idx, row_idx) \<Rightarrow>
        (case nth_in bs (unat batch_idx) of
           None \<Rightarrow> None
         | Some batch \<Rightarrow>
             (case column_by_name batch col_name of
                None \<Rightarrow> Some []
              | Some col \<Rightarrow> map_option (\<lambda>arr. get_view arr (unat row_idx)) (as_string_array col))))"

definition row_number :: "record_batch list \<Rightarrow> u32 \<Rightarrow> string \<Rightarrow> u64 option" where
  "row_number bs rid col_name =
     (case UnpackRowId rid of (nd, batch_idx, row_idx) \<Rightarrow>
        (case nth_in bs (unat batch_idx) of
           None \<Rightarrow> None
         | Some batch \<Rightarrow>
             (case column_by_name batch col_name of
                None \<Rightarrow> Some 0
              | Some col \<Rightarrow> map_option (\<lambda>arr. int_value arr (unat row_idx)) (as_int64_array col))))"

definition GetLeftStringVal :: "u32 \<Rightarrow> string \<Rightarrow> cluster_node \<Rightarrow> string option" where
  "GetLeftStringVal rid col_name nd = row_string (left_batches nd) rid col_name"

definition GetRightStringVal :: "u32 \<Rightarrow> string \<Rightarrow> cluster_node \<Rightarrow> string option" where
  "GetRightStringVal rid col_name nd = row_string (right_batches nd) rid col_name"

definition GetLeftNumericVal :: "u32 \<Rightarrow> string \<Rightarrow> cluster_node \<Rightarrow> u64 option" where
  "GetLeftNumericVal rid col_name nd = row_number (left_batches nd) rid col_name"

definition GetRightNumericVal :: "u32 \<Rightarrow> string \<Rightarrow> cluster_node \<Rightarrow> u64 option" where
  "GetRightNumericVal rid col_name nd = row_number (right_batches nd) rid col_name"

subsection \<open>The coordinator\<close>

record coordinator =
  num_nodes :: nat
  node_addresses :: "address list"
  cluster_nodes :: "cluster_node list"

text \<open>\<open>started n\<close>: the answers of the system when node \<open>n\<close> starts; an exception leaves the loop.\<close>

fun start_nodes :: "(nat \<Rightarrow> bool \<times> bool \<times> bool) \<Rightarrow> nat list \<Rightarrow> coordinator \<Rightarrow> string option \<times> coordinator" where
  "start_nodes started [] c = (None, c)"
| "start_nodes started (i # js) c =
     (let nd = new_cluster_node i; (s, a, b) = started i
      in case StartTransport s a b (transport nd) of
           (err, t) \<Rightarrow>
             (let c1 = c\<lparr>cluster_nodes := cluster_nodes c @ [nd\<lparr>transport := t\<rparr>]\<rparr>
              in case err of Some e \<Rightarrow> (Some e, c1) | None \<Rightarrow> start_nodes started js c1))"

definition InitializeCluster :: "(nat \<Rightarrow> bool \<times> bool \<times> bool) \<Rightarrow> address list \<Rightarrow> coordinator \<Rightarrow> string option \<times> coordinator" where
  "InitializeCluster started addrs c = start_nodes started [0..<num_nodes c] (c\<lparr>node_addresses := addrs, cluster_nodes := []\<rparr>)"

definition ShutdownCluster :: "coordinator \<Rightarrow> coordinator" where
  "ShutdownCluster c = c\<lparr>cluster_nodes := []\<rparr>"

definition CoordinatorRegisterTable :: "string \<Rightarrow> string list \<Rightarrow> u32 list \<Rightarrow> node \<Rightarrow> node" where
  "CoordinatorRegisterTable name cols types s = GlobalRegisterTable name cols types s"

text \<open>The slice of node \<open>n\<close>, as its first row and its length; the last node takes the rest.\<close>

definition node_slice :: "nat \<Rightarrow> nat \<Rightarrow> nat \<Rightarrow> nat \<times> nat" where
  "node_slice total_rows num n =
     (let rows_per_node = total_rows div num; start = n * rows_per_node
      in (start, if n = num - 1 then total_rows - start else rows_per_node))"

fun distribute :: "(nat \<Rightarrow> nat \<Rightarrow> record_batch) \<Rightarrow> string \<Rightarrow> nat \<Rightarrow> nat list \<Rightarrow> coordinator \<Rightarrow> ingest_error option \<times> coordinator" where
  "distribute slice_of tbl total_rows [] c = (None, c)"
| "distribute slice_of tbl total_rows (n # ns) c =
     (case node_slice total_rows (num_nodes c) n of (start, len) \<Rightarrow>
        if 0 < len then
          (case (if tbl = ''left'' \<or> tbl = ''L'' then IngestLeftPartition else IngestRightPartition)
              (slice_of start len) (cluster_nodes c ! n) of
             (err, nd) \<Rightarrow>
               (let c1 = c\<lparr>cluster_nodes := (cluster_nodes c)[n := nd]\<rparr>
                in case err of Some e \<Rightarrow> (Some e, c1) | None \<Rightarrow> distribute slice_of tbl total_rows ns c1))
        else distribute slice_of tbl total_rows ns c)"

text \<open>\<open>slice_of\<close> is the \<open>Slice\<close> member of the Arrow batch.\<close>

definition DistributeAndIngest ::
    "(record_batch \<Rightarrow> nat \<Rightarrow> nat \<Rightarrow> record_batch) \<Rightarrow> string \<Rightarrow> record_batch \<Rightarrow> coordinator \<Rightarrow> ingest_error option \<times> coordinator" where
  "DistributeAndIngest slice_of tbl batch c =
     distribute (slice_of batch) tbl (batch_rows batch) [0..<num_nodes c] c"

subsection \<open>Joins\<close>

text \<open>The signatures with more than 16 left rows in the cluster.\<close>

definition hot_signatures :: "cluster_node list \<Rightarrow> fat_signature set" where
  "hot_signatures nds =
     (let sigs = map entry_sig (concat (map local_left_signatures nds))
      in set (filter (\<lambda>s. 16 < count_list sigs s) sigs))"

definition deliver :: "environment \<Rightarrow> (address \<times> bytes) list \<Rightarrow> address \<Rightarrow> cluster_node \<Rightarrow> cluster_node" where
  "deliver env sent a nd = nd\<lparr>transport := ReceiverLoop (arrivals env sent a) (transport nd)\<rparr>"

text \<open>A shuffle: every node sends, the network delivers during the barrier, every node collects.\<close>

definition shuffle_phase ::
    "(cluster_node \<Rightarrow> cluster_node \<times> (address \<times> bytes) list) \<Rightarrow> (cluster_node \<Rightarrow> cluster_node) \<Rightarrow>
     environment \<Rightarrow> address list \<Rightarrow> cluster_node list \<Rightarrow> cluster_node list" where
  "shuffle_phase shuffle_step collect_step env addrs nds =
     (let results = map shuffle_step nds; sent = concat (map snd results)
      in map2 (\<lambda>a nd. collect_step (deliver env sent a nd)) addrs (map fst results))"

definition verified :: "cluster_node list \<Rightarrow> string \<Rightarrow> string \<Rightarrow> u32 \<times> u32 \<Rightarrow> bool option" where
  "verified nds left_join_col right_join_col = (\<lambda>(left_row_id, right_row_id).
     (case UnpackRowId left_row_id of (l_node, _, _) \<Rightarrow>
      case UnpackRowId right_row_id of (r_node, _, _) \<Rightarrow>
      case nth_in nds (unat l_node) of None \<Rightarrow> None | Some l \<Rightarrow>
      case nth_in nds (unat r_node) of None \<Rightarrow> None | Some r \<Rightarrow>
      case GetLeftStringVal left_row_id left_join_col l of None \<Rightarrow> None | Some l_val \<Rightarrow>
      case GetRightStringVal right_row_id right_join_col r of None \<Rightarrow> None | Some r_val \<Rightarrow>
      Some (l_val = r_val)))"

fun verified_pairs :: "cluster_node list \<Rightarrow> string \<Rightarrow> string \<Rightarrow> (u32 \<times> u32) list \<Rightarrow> (u32 \<times> u32) list option" where
  "verified_pairs nds lc rc [] = Some []"
| "verified_pairs nds lc rc (p # ps) =
     (case verified nds lc rc p of
        None \<Rightarrow> None
      | Some ok \<Rightarrow> map_option (\<lambda>qs. if ok then p # qs else qs) (verified_pairs nds lc rc ps))"

text \<open>Steps 1 to 4, which the two join queries share: the nodes afterwards and the verified pairs.\<close>

definition join_pairs ::
    "environment \<Rightarrow> string \<Rightarrow> string \<Rightarrow> predicate list \<Rightarrow> predicate list \<Rightarrow> coordinator \<Rightarrow>
     (cluster_node list \<times> (u32 \<times> u32) list) option" where
  "join_pairs env left_join_col right_join_col left_preds right_preds c =
     (case those (map (PrepareJoinSignatures left_preds right_preds left_join_col right_join_col) (cluster_nodes c)) of
        None \<Rightarrow> None
      | Some nds \<Rightarrow>
          (let hot = hot_signatures nds;
               nds1 = shuffle_phase (ShuffleLeftSignatures env (num_nodes c) (node_addresses c) hot) CollectLeftSignatures
                        env (node_addresses c) nds;
               nds2 = shuffle_phase (ShuffleRightSignatures env (num_nodes c) (node_addresses c) hot) CollectRightSignatures
                        env (node_addresses c) nds1
           in map_option (Pair nds2)
                (verified_pairs nds2 left_join_col right_join_col (concat (map PerformLocalJoin nds2)))))"

definition left_numbers :: "cluster_node list \<Rightarrow> string \<Rightarrow> (u32 \<times> u32) list \<Rightarrow> u64 list option" where
  "left_numbers nds agg_col pairs = those (map (\<lambda>(l, r).
     case UnpackRowId l of (l_node, _, _) \<Rightarrow> Option.bind (nth_in nds (unat l_node)) (GetLeftNumericVal l agg_col)) pairs)"

definition left_strings :: "cluster_node list \<Rightarrow> string \<Rightarrow> (u32 \<times> u32) list \<Rightarrow> string list option" where
  "left_strings nds agg_col pairs = those (map (\<lambda>(l, r).
     case UnpackRowId l of (l_node, _, _) \<Rightarrow> Option.bind (nth_in nds (unat l_node)) (GetLeftStringVal l agg_col)) pairs)"

definition ExecuteJoinQuery ::
    "environment \<Rightarrow> string \<Rightarrow> string \<Rightarrow> predicate list \<Rightarrow> predicate list \<Rightarrow> string \<Rightarrow> coordinator \<Rightarrow>
     (u64 \<times> u64 \<times> coordinator) option" where
  "ExecuteJoinQuery env left_join_col right_join_col left_preds right_preds agg_col c =
     (case join_pairs env left_join_col right_join_col left_preds right_preds c of
        None \<Rightarrow> None
      | Some (nds, pairs) \<Rightarrow>
          map_option (\<lambda>nums. (word_of_nat (length pairs), sum_list nums, c\<lparr>cluster_nodes := nds\<rparr>))
            (if agg_col = [] then Some [] else left_numbers nds agg_col pairs))"

text \<open>The type of the aggregated column is looked up in the global metadata.\<close>

definition global_string_column :: "table_state option \<Rightarrow> string \<Rightarrow> bool" where
  "global_string_column st agg_col = (case st of
     None \<Rightarrow> False
   | Some s \<Rightarrow> (case List.find (\<lambda>(n, t). n = agg_col) (zip (table_columns s) (table_types s)) of
       None \<Rightarrow> False | Some (n, t) \<Rightarrow> t = Type_STRING))"

definition ExecuteJoinQueryExtended ::
    "environment \<Rightarrow> table_state option \<Rightarrow> string \<Rightarrow> string \<Rightarrow> predicate list \<Rightarrow> predicate list \<Rightarrow> string \<Rightarrow> coordinator \<Rightarrow>
     (query_result \<times> coordinator) option" where
  "ExecuteJoinQueryExtended env left_state left_join_col right_join_col left_preds right_preds agg_col c =
     (case join_pairs env left_join_col right_join_col left_preds right_preds c of
        None \<Rightarrow> None
      | Some (nds, pairs) \<Rightarrow>
          (let c1 = c\<lparr>cluster_nodes := nds\<rparr>; res = empty_result\<lparr>res_count := word_of_nat (length pairs)\<rparr>
           in if res_count res = 0 \<or> agg_col = [] then Some (res, c1)
              else if global_string_column left_state agg_col then
                map_option (\<lambda>strs. (summarise_strings strs res, c1)) (left_strings nds agg_col pairs)
              else
                map_option (\<lambda>nums. (summarise_numerics nums (res\<lparr>res_sum := sum_list nums\<rparr>), c1)) (left_numbers nds agg_col pairs)))"

subsection \<open>Placing tasks\<close>

definition GetS3ExpressBucketAZ :: "string \<Rightarrow> string" where
  "GetS3ExpressBucketAZ bucket_name =
     (case find_first bucket_name ''--'' of
        None \<Rightarrow> []
      | Some start \<Rightarrow>
          (case find_from bucket_name ''--x-s3'' (start + 2) of
             None \<Rightarrow> []
           | Some stop \<Rightarrow> substr bucket_name (start + 2) (stop - (start + 2))))"

definition after_dash :: "string \<Rightarrow> string" where
  "after_dash az = (case find_last_of az CHR ''-'' of None \<Rightarrow> az | Some i \<Rightarrow> drop (i + 1) az)"

definition zone_fits :: "string \<Rightarrow> string \<Rightarrow> bool" where
  "zone_fits bucket_az node_az \<longleftrightarrow> after_dash node_az = after_dash bucket_az \<or>
     find_first node_az bucket_az \<noteq> None \<or> find_first bucket_az node_az \<noteq> None"

definition ScheduleTask :: "string \<Rightarrow> coordinator \<Rightarrow> nat" where
  "ScheduleTask bucket_name c =
     (let bucket_az = GetS3ExpressBucketAZ bucket_name
      in if bucket_az = [] then 0
         else (case List.find (\<lambda>n. zone_fits bucket_az (availability_zone (cluster_nodes c ! n))) [0..<num_nodes c] of
                 None \<Rightarrow> 0
               | Some n \<Rightarrow> n))"

end
