(* ===== verification/Shuffle.thy ===== *)
theory Shuffle
  imports Coordinator
begin

text \<open>
  What a shuffle of the distributed join delivers. The transport promises that the datagrams of all nodes
  may arrive in any order; from this, each node receives exactly the signatures that \<open>left_sends\<close> and
  \<open>right_sends\<close> address to it.
\<close>

subsection \<open>Who gets which signature\<close>

lemma nth_push_to: "length sends = num \<Longrightarrow> m < num \<Longrightarrow> push_to n e sends ! m = sends ! m @ (if m = n then [e] else [])"
  by (simp add: push_to_def nth_list_update)

lemma length_push_to [simp]: "length (push_to n e sends) = length sends"
  by (simp add: push_to_def)

lemma fold_push_all:
  "length sends = num \<Longrightarrow> length (fold (\<lambda>n. push_to n e) ns sends) = num"
  "length sends = num \<Longrightarrow> m < num \<Longrightarrow> distinct ns \<Longrightarrow>
    fold (\<lambda>n. push_to n e) ns sends ! m = sends ! m @ (if m \<in> set ns then [e] else [])"
  by (induction ns arbitrary: sends) (auto simp: nth_push_to)

definition goes_left :: "nat \<Rightarrow> fat_signature set \<Rightarrow> nat \<Rightarrow> shuffle_entry \<Rightarrow> bool" where
  "goes_left num hot n e \<longleftrightarrow> entry_sig e \<in> hot \<or> cold_target num e = n"

lemma left_sends_fold:
  fixes hot :: "fat_signature set" and es :: "shuffle_entry list"
  assumes "length sends = num"
  defines "out \<equiv> fold (\<lambda>e sends. if entry_sig e \<in> hot then fold (\<lambda>n. push_to n e) [0..<num] sends
     else push_to (cold_target num e) e sends) es sends"
  shows "length out = num \<and> (\<forall>m < num. out ! m = sends ! m @ filter (goes_left num hot m) es)"
  using assms(1) unfolding out_def
proof (induction es arbitrary: sends)
  case (Cons e es)
  let ?next = "if entry_sig e \<in> hot then fold (\<lambda>n. push_to n e) [0..<num] sends else push_to (cold_target num e) e sends"
  have "length ?next = num" using Cons.prems by (simp add: fold_push_all(1))
  moreover have "?next ! m = sends ! m @ (if goes_left num hot m e then [e] else [])" if "m < num" for m
    using that Cons.prems by (auto simp: fold_push_all(2) nth_push_to goes_left_def)
  ultimately show ?case using Cons.IH[of ?next] by simp
qed simp

lemma left_sends_eq: "length (left_sends num hot es) = num"
  "n < num \<Longrightarrow> left_sends num hot es ! n = filter (goes_left num hot n) es"
  using left_sends_fold[of "replicate num []" num hot es] by (simp_all add: left_sends_def)

lemma right_sends_fold:
  fixes hot :: "fat_signature set" and es :: "shuffle_entry list"
  assumes "length sends = num"
  defines "out \<equiv> fold (\<lambda>e. push_to (right_target num hot e) e) es sends"
  shows "length out = num \<and> (\<forall>m < num. out ! m = sends ! m @ filter (\<lambda>e. right_target num hot e = m) es)"
  using assms(1) unfolding out_def
  by (induction es arbitrary: sends) (auto simp: nth_push_to)

lemma right_sends_eq: "length (right_sends num hot es) = num"
  "n < num \<Longrightarrow> right_sends num hot es ! n = filter (\<lambda>e. right_target num hot e = n) es"
  using right_sends_fold[of "replicate num []" num hot es] by (simp_all add: right_sends_def)

lemma unat_mod_less: "0 < num \<Longrightarrow> num < 2 ^ 64 \<Longrightarrow> unat (w mod word_of_nat num :: u64) < num"
  by (simp add: unat_mod)

lemma right_target_less: "0 < num \<Longrightarrow> num < 2 ^ 64 \<Longrightarrow> right_target num hot e < num"
  by (simp add: right_target_def cold_target_def unat_mod_less split: prod.split)

lemma meets: "entry_sig l = entry_sig r \<Longrightarrow> goes_left num hot (right_target num hot r) l"
  by (simp add: goes_left_def right_target_def cold_target_def)

subsection \<open>What a node puts on the wire\<close>

fun send_log :: "environment \<Rightarrow> (address \<times> shuffle_entry list) list \<Rightarrow> transport \<Rightarrow> (address \<times> nat list \<times> shuffle_entry list \<times> transport) list" where
  "send_log env [] t = []"
| "send_log env ((a, entries) # rest) t =
     (if entries = [] then send_log env rest t
      else (let order = packet_order env (node_id t) (next_msg_id t) (packet_count entries)
            in (a, order, entries, t) # send_log env rest (fst (Send order True (sendto_result env) (padding env) entries t))))"

text \<open>What the environment promises.\<close>

definition shuffles :: "environment \<Rightarrow> bool" where
  "shuffles env \<longleftrightarrow> (\<forall>nd msg k. mset (packet_order env nd msg k) = mset [0..<k])"

definition reliable :: "environment \<Rightarrow> bool" where
  "reliable env \<longleftrightarrow> (\<forall>sent a. Recv_error \<notin> set (arrivals env sent a) \<and>
     mset (datagrams_of (arrivals env sent a)) = mset (map snd (filter (\<lambda>d. fst d = a) sent)))"

definition same_receiver :: "transport \<Rightarrow> transport \<Rightarrow> bool" where
  "same_receiver t u \<longleftrightarrow> node_id t = node_id u \<and> socket_open t = socket_open u \<and>
     recon_buffers t = recon_buffers u \<and> completed_messages t = completed_messages u"

lemma Send_keeps: "same_receiver (fst (Send order ok sendto pad entries t)) t"
  by (simp add: Send_def same_receiver_def Let_def)

lemma Send_msg_id: "entries \<noteq> [] \<Longrightarrow> socket_open t \<Longrightarrow> next_msg_id (fst (Send order True sendto pad entries t)) = next_msg_id t + 1"
  by (simp add: Send_def Let_def)

lemma same_receiver_trans: "same_receiver t u \<Longrightarrow> same_receiver u v \<Longrightarrow> same_receiver t v"
  by (simp add: same_receiver_def)

lemma send_each_keeps: "same_receiver (fst (send_each env xs t)) t"
proof (induction env xs t rule: send_each.induct)
  case (2 env a entries rest t)
  show ?case
  proof (cases "entries = []")
    case True then show ?thesis using 2(1) by simp
  next
    case False
    obtain t1 ds where S: "Send (packet_order env (node_id t) (next_msg_id t) (packet_count entries)) (resolves env (fst a))
        (sendto_result env) (padding env) entries t = (t1, ds)" by fastforce
    obtain t2 ds2 where R: "send_each env rest t1 = (t2, ds2)" by fastforce
    have "same_receiver t2 t1" using 2(2)[OF False S[symmetric]] R by simp
    moreover have "same_receiver t1 t" using Send_keeps S by (metis fst_conv)
    ultimately show ?thesis using same_receiver_trans by (simp add: False S R)
  qed
qed (simp add: same_receiver_def)

lemma send_each_log:
  "\<forall>a \<in> fst ` set xs. resolves env (fst a) \<Longrightarrow>
   snd (send_each env xs t) = concat (map (\<lambda>(a, x). map (Pair a) (sent_datagrams (sendto_result env) (padding env) x)) (send_log env xs t))"
proof (induction env xs t rule: send_log.induct)
  case (2 env a entries rest t)
  show ?case
  proof (cases "entries = []")
    case True then show ?thesis using 2 by simp
  next
    case False
    let ?order = "packet_order env (node_id t) (next_msg_id t) (packet_count entries)"
    obtain t1 ds where S: "Send ?order True (sendto_result env) (padding env) entries t = (t1, ds)" by fastforce
    obtain t2 ds2 where R: "send_each env rest t1 = (t2, ds2)" by fastforce
    have ok: "resolves env (fst a) = True" using 2(3) by simp
    have "ds2 = concat (map (\<lambda>(a, x). map (Pair a) (sent_datagrams (sendto_result env) (padding env) x)) (send_log env rest t1))"
      using 2(2)[OF False refl] 2(3) S R by simp
    then show ?thesis by (simp add: False ok S R sent_datagrams_def)
  qed
qed simp

lemma send_log_addresses: "(a, x) \<in> set (send_log env xs t) \<Longrightarrow> a \<in> fst ` set xs"
  by (induction env xs t rule: send_log.induct) (auto simp: Let_def split: if_splits)

lemma send_log_valid:
  assumes "shuffles env" "socket_open t" "\<forall>(a, es) \<in> set xs. packet_count es < 2 ^ 32"
  shows "\<forall>(a, x) \<in> set (send_log env xs t). valid_send x \<and> fst (sent_message x) = node_id t"
  using assms
proof (induction env xs t rule: send_log.induct)
  case (2 env a entries rest t)
  let ?t1 = "fst (Send (packet_order env (node_id t) (next_msg_id t) (packet_count entries)) True (sendto_result env) (padding env) entries t)"
  have keep: "socket_open ?t1 = socket_open t" "node_id ?t1 = node_id t" using Send_keeps unfolding same_receiver_def by blast+
  show ?case
  proof (cases "entries = []")
    case True then show ?thesis using 2 by simp
  next
    case False
    have "\<forall>(a, x) \<in> set (send_log env rest ?t1). valid_send x \<and> fst (sent_message x) = node_id t"
      using 2(2)[OF False refl] 2(3-5) keep by simp
    then show ?thesis using False 2(3-5) by (auto simp: Let_def valid_send_def sent_message_def shuffles_def)
  qed
qed simp

lemma send_log_ids:
  assumes "socket_open t"
  shows "length (send_log env xs t) \<le> length xs \<and>
    map (\<lambda>(a, x). fst (snd (sent_message x))) (send_log env xs t) = map (\<lambda>k. next_msg_id t + word_of_nat k) [0..<length (send_log env xs t)]"
  using assms
proof (induction env xs t rule: send_log.induct)
  case (2 env a entries rest t)
  let ?order = "packet_order env (node_id t) (next_msg_id t) (packet_count entries)"
  let ?t1 = "fst (Send ?order True (sendto_result env) (padding env) entries t)"
  show ?case
  proof (cases "entries = []")
    case True then show ?thesis using 2(1,3) by simp
  next
    case False
    have "socket_open ?t1" using Send_keeps 2(3) unfolding same_receiver_def by blast
    then have IH: "length (send_log env rest ?t1) \<le> length rest"
      "map (\<lambda>(a, x). fst (snd (sent_message x))) (send_log env rest ?t1) =
        map (\<lambda>k. next_msg_id ?t1 + word_of_nat k) [0..<length (send_log env rest ?t1)]"
      using 2(2)[OF False refl] by blast+
    have "map (\<lambda>k. next_msg_id t + word_of_nat k) [0..<Suc m] = next_msg_id t # map (\<lambda>k. next_msg_id t + 1 + word_of_nat k) [0..<m]" for m
      by (simp add: upt_conv_Cons map_Suc_upt[symmetric] comp_def add.assoc del: upt_Suc)
    then show ?thesis using IH Send_msg_id[OF False 2(3)] False by (simp add: Let_def sent_message_def del: upt_Suc)
  qed
qed simp

lemma send_log_distinct:
  assumes "socket_open t" "length xs < 2 ^ 32"
  shows "distinct (map (\<lambda>(a, x). fst (snd (sent_message x))) (send_log env xs t))"
proof -
  have "inj_on (\<lambda>k. next_msg_id t + word_of_nat k) {0..<m}" if "m < 2 ^ 32" for m
    using that by (intro inj_onI) (simp add: word_of_nat_u32_eq)
  then show ?thesis using send_log_ids[OF assms(1), of env xs] assms(2) by (simp add: distinct_map)
qed

definition log_to :: "address \<Rightarrow> (address \<times> 'x) list \<Rightarrow> 'x list" where
  "log_to a xs = map snd (filter (\<lambda>x. fst x = a) xs)"

lemma log_to_simps [simp]: "log_to a [] = []" "log_to a ((b, x) # xs) = (if b = a then x # log_to a xs else log_to a xs)"
  "log_to a (xs @ ys) = log_to a xs @ log_to a ys"
  by (simp_all add: log_to_def)

lemma log_to_zip:
  "distinct addrs \<Longrightarrow> length addrs = length ys \<Longrightarrow> n < length addrs \<Longrightarrow> log_to (addrs ! n) (zip addrs ys) = [ys ! n]"
proof (induction addrs ys arbitrary: n rule: list_induct2')
  case (4 a addrs y ys)
  have "log_to b (zip addrs ys) = []" if "b \<notin> set addrs" for b
    using that by (auto simp: log_to_def filter_empty_conv dest: set_zip_leftD)
  then show ?case using 4 by (cases n) auto
qed simp_all

lemma log_to_concat: "log_to a (concat (map F js)) = concat (map (\<lambda>i. log_to a (F i)) js)"
  by (induction js) simp_all

lemma concat_map_concat: "concat (map (\<lambda>i. concat (map f (G i))) js) = concat (map f (concat (map G js)))"
  by (induction js) simp_all

lemma log_to_datagrams:
  "log_to a (concat (map (\<lambda>(b, x). map (Pair b) (f x)) log)) = concat (map f (log_to a log))"
proof -
  have same: "log_to a (map (Pair a) ds) = ds" for ds by (induction ds) simp_all
  have other: "b \<noteq> a \<Longrightarrow> log_to a (map (Pair b) ds) = []" for b ds by (induction ds) simp_all
  show ?thesis by (induction log) (auto simp: same other)
qed

lemma send_log_entries: "concat (map (\<lambda>(_, es, _). es) (log_to a (send_log env xs t))) = concat (log_to a xs)"
  by (induction env xs t rule: send_log.induct) (auto simp: Let_def)

lemma distinct_concat_map:
  "distinct js \<Longrightarrow> (\<And>i. i \<in> set js \<Longrightarrow> distinct (map f (F i))) \<Longrightarrow>
   (\<And>i j x y. i \<in> set js \<Longrightarrow> j \<in> set js \<Longrightarrow> x \<in> set (F i) \<Longrightarrow> y \<in> set (F j) \<Longrightarrow> f x = f y \<Longrightarrow> i = j) \<Longrightarrow>
   distinct (map f (concat (map F js)))"
proof (induction js)
  case (Cons i js)
  have "distinct (map f (concat (map F js)))" using Cons by (intro Cons.IH) auto
  moreover have "f ` set (F i) \<inter> f ` set (concat (map F js)) = {}"
    using Cons.prems(1,3) by fastforce
  ultimately show ?case using Cons.prems(2)[of i] by auto
qed simp

subsection \<open>What a node receives in a shuffle\<close>

definition ready_transports :: "transport list \<Rightarrow> bool" where
  "ready_transports ts \<longleftrightarrow> (\<forall>i < length ts. node_id (ts ! i) = word_of_nat i \<and> socket_open (ts ! i) \<and>
     recon_buffers (ts ! i) = Map.empty \<and> completed_messages (ts ! i) = [])"

lemma mset_concat_cong: "mset xss = mset yss \<Longrightarrow> mset (concat xss) = mset (concat yss)"
proof -
  have "mset (concat zss) = sum_mset (image_mset mset (mset zss))" for zss :: "'a list list"
    by (induction zss) simp_all
  then show "mset xss = mset yss \<Longrightarrow> ?thesis" by metis
qed

lemma phase_received:
  fixes S :: "nat \<Rightarrow> shuffle_entry list list"
  assumes env: "shuffles env" "reliable env" "\<forall>a \<in> set addrs. resolves env (fst a)" "distinct addrs"
    and ts: "ready_transports ts" "length ts = length addrs" "length addrs < 2 ^ 32"
    and S: "\<forall>i < length addrs. length (S i) = length addrs \<and> (\<forall>es \<in> set (S i). packet_count es < 2 ^ 32)"
    and n: "n < length addrs"
    and sent: "sent = concat (map (\<lambda>i. snd (send_each env (zip addrs (S i)) (ts ! i))) [0..<length addrs])"
  shows "mset (concat (completed_messages (ReceiverLoop (arrivals env sent (addrs ! n)) (fst (send_each env (zip addrs (S n)) (ts ! n)))))) =
      mset (concat (map (\<lambda>i. S i ! n) [0..<length addrs])) \<and>
    recon_buffers (ReceiverLoop (arrivals env sent (addrs ! n)) (fst (send_each env (zip addrs (S n)) (ts ! n)))) = Map.empty"
proof -
  let ?N = "length addrs" and ?a = "addrs ! n"
  let ?log = "\<lambda>i. send_log env (zip addrs (S i)) (ts ! i)"
  let ?X = "concat (map (\<lambda>i. log_to ?a (?log i)) [0..<?N])"
  let ?r = "fst (send_each env (zip addrs (S n)) (ts ! n))"
  have node: "node_id (ts ! i) = word_of_nat i" "socket_open (ts ! i)" if "i < ?N" for i
    using that ts(1,2) by (simp_all add: ready_transports_def)
  have r: "recon_buffers ?r = Map.empty" "completed_messages ?r = []"
    using send_each_keeps[of env "zip addrs (S n)" "ts ! n"] ts n by (simp_all add: same_receiver_def ready_transports_def)
  have valid: "valid_send x \<and> fst (sent_message x) = word_of_nat i" if "i < ?N" "x \<in> set (log_to b (?log i))" for i x b
  proof -
    have "\<forall>(a, es) \<in> set (zip addrs (S i)). packet_count es < 2 ^ 32"
      using S that(1) by (auto dest: set_zip_rightD)
    then have "\<forall>(a, x) \<in> set (?log i). valid_send x \<and> fst (sent_message x) = word_of_nat i"
      using send_log_valid[OF env(1) node(2)[OF that(1)]] node(1)[OF that(1)] by simp
    moreover obtain a where "(a, x) \<in> set (?log i)" using \<open>x \<in> _\<close> by (auto simp: log_to_def)
    ultimately show ?thesis by blast
  qed
  have wire: "snd (send_each env (zip addrs (S i)) (ts ! i)) =
      concat (map (\<lambda>(a, x). map (Pair a) (sent_datagrams (sendto_result env) (padding env) x)) (?log i))" for i
    using env(3) by (intro send_each_log) (fastforce dest: set_zip_leftD)
  have here: "log_to ?a sent = concat (map (sent_datagrams (sendto_result env) (padding env)) ?X)"
    unfolding sent log_to_concat unfolding wire log_to_datagrams by (rule concat_map_concat)
  have arrive: "Recv_error \<notin> set (arrivals env sent ?a)" "mset (datagrams_of (arrivals env sent ?a)) = mset (log_to ?a sent)"
    using env(2) unfolding reliable_def log_to_def by blast+
  have "distinct (map (\<lambda>(_, _, s). (node_id s, next_msg_id s)) ?X)"
  proof (rule distinct_concat_map)
    fix i assume i: "i \<in> set [0..<?N]"
    have "distinct (map (\<lambda>(a, x). fst (snd (sent_message x))) (?log i))"
      using i node(2) ts(3) by (intro send_log_distinct) auto
    then have "distinct (map (\<lambda>x. fst (snd (sent_message x))) (log_to ?a (?log i)))"
      by (auto simp: log_to_def distinct_map split_def inj_on_def intro!: distinct_filter)
    moreover have "map (\<lambda>x. fst (snd (sent_message x))) xs = map snd (map (\<lambda>(_, _, s). (node_id s, next_msg_id s)) xs)" for xs
      by (auto simp: sent_message_def)
    ultimately have "distinct (map snd (map (\<lambda>(_, _, s). (node_id s, next_msg_id s)) (log_to ?a (?log i))))" by simp
    then show "distinct (map (\<lambda>(_, _, s). (node_id s, next_msg_id s)) (log_to ?a (?log i)))"
      by (rule distinct_map[THEN iffD1, THEN conjunct1])
  next
    fix i j x y
    assume "i \<in> set [0..<?N]" "j \<in> set [0..<?N]" "x \<in> set (log_to ?a (?log i))" "y \<in> set (log_to ?a (?log j))"
      "(case x of (_, _, s) \<Rightarrow> (node_id s, next_msg_id s)) = (case y of (_, _, s) \<Rightarrow> (node_id s, next_msg_id s))"
    then have "(word_of_nat i :: u32) = word_of_nat j" "i < ?N" "j < ?N"
      using valid[of i x ?a] valid[of j y ?a] by (auto simp: sent_message_def split: prod.splits)
    then show "i = j" using ts(3) by (simp add: word_of_nat_u32_eq)
  qed simp
  moreover have "\<forall>x \<in> set ?X. valid_send x \<and> recon_buffers ?r (message_key (sent_message x)) = None"
    using valid r by auto
  ultimately have D: "mset (completed_messages (ReceiverLoop (arrivals env sent ?a) ?r)) = mset (map (\<lambda>(_, es, _). es) ?X)"
      "recon_buffers (ReceiverLoop (arrivals env sent ?a) ?r) = Map.empty"
    using arrivals_deliver[OF _ _ arrive(1), of ?X ?r "sendto_result env" "padding env"] arrive(2) here r by auto
  have "concat (map (\<lambda>(_, es, _). es) ?X) = concat (map (\<lambda>i. concat (map (\<lambda>(_, es, _). es) (log_to ?a (?log i)))) [0..<?N])"
    by (simp only: concat_map_concat)
  also have "\<dots> = concat (map (\<lambda>i. S i ! n) [0..<?N])"
    using S n env(4) by (intro arg_cong[where f=concat] map_cong) (simp_all add: send_log_entries log_to_zip)
  finally show ?thesis using mset_concat_cong[OF D(1)] D(2) by simp
qed

end
