(* ===== verification/Distributed_Join.thy ===== *)
theory Distributed_Join
  imports Shuffle
begin

text \<open>
  The distributed join computes the join: whatever the order in which the datagrams arrive, the nodes
  together find every pair of matching rows with equal join strings, each once, as a nested loop over the
  filtered rows of both tables would.
\<close>

subsection \<open>The two shuffles\<close>

definition network_ok :: "environment \<Rightarrow> address list \<Rightarrow> bool" where
  "network_ok env addrs \<longleftrightarrow> shuffles env \<and> reliable env \<and> (\<forall>a \<in> set addrs. resolves env (fst a)) \<and>
     distinct addrs \<and> length addrs < 2 ^ 32"

definition same_tables :: "cluster_node \<Rightarrow> cluster_node \<Rightarrow> bool" where
  "same_tables nd nd' \<longleftrightarrow> left_batches nd = left_batches nd' \<and> right_batches nd = right_batches nd' \<and>
     local_left_signatures nd = local_left_signatures nd' \<and> local_right_signatures nd = local_right_signatures nd'"

lemma ReceiverLoop_keeps: "node_id (ReceiverLoop rs t) = node_id t \<and> socket_open (ReceiverLoop rs t) = socket_open t"
proof -
  have "node_id (receive d t) = node_id t \<and> socket_open (receive d t) = socket_open t" for d t
    by (simp add: receive_def Let_def)
  then show ?thesis by (induction rs t rule: ReceiverLoop.induct) simp_all
qed

lemma packet_count_filter: "length es < 2 ^ 32 \<Longrightarrow> packet_count (filter P es) < 2 ^ 32"
  using length_filter_le[of P es] unfolding packet_count_def by linarith

lemma phase_generic:
  fixes S :: "cluster_node \<Rightarrow> shuffle_entry list list"
  assumes net: "network_ok env addrs" and len: "length nds = length addrs"
    and ready: "ready_transports (map transport nds)"
    and shape: "\<And>nd. snd (shuffle_step nd) = snd (send_each env (zip addrs (S nd)) (transport nd))"
      "\<And>nd. transport (fst (shuffle_step nd)) = fst (send_each env (zip addrs (S nd)) (transport nd))"
    and S: "\<forall>nd \<in> set nds. length (S nd) = length addrs \<and> (\<forall>es \<in> set (S nd). packet_count es < 2 ^ 32)"
    and n: "n < length addrs"
  shows "\<exists>u. shuffle_phase shuffle_step collect_step env addrs nds ! n = collect_step (fst (shuffle_step (nds ! n))\<lparr>transport := u\<rparr>) \<and>
    mset (concat (completed_messages u)) = mset (concat (map (\<lambda>nd. S nd ! n) nds)) \<and>
    recon_buffers u = Map.empty \<and> node_id u = word_of_nat n \<and> socket_open u"
proof -
  let ?N = "length addrs"
  let ?each = "\<lambda>nd. send_each env (zip addrs (S nd)) (transport nd)"
  define sent where "sent = concat (map snd (map shuffle_step nds))"
  let ?u = "ReceiverLoop (arrivals env sent (addrs ! n)) (fst (?each (nds ! n)))"
  have "map (\<lambda>nd. snd (?each nd)) nds = map (\<lambda>i. snd (?each (nds ! i))) [0..<?N]"
    using map_nth_upt[of ?N nds "\<lambda>nd. snd (?each nd)"] len by simp
  then have sent: "sent = concat (map (\<lambda>i. snd (send_each env (zip addrs (S (nds ! i))) (map transport nds ! i))) [0..<?N])"
    unfolding sent_def using len by (simp add: comp_def shape(1)) (auto intro!: arg_cong[where f=concat] map_cong)
  have S': "\<forall>i < ?N. length (S (nds ! i)) = ?N \<and> (\<forall>es \<in> set (S (nds ! i)). packet_count es < 2 ^ 32)"
    using S len by (auto simp: nth_mem)
  have got: "mset (concat (completed_messages ?u)) = mset (concat (map (\<lambda>i. S (nds ! i) ! n) [0..<?N]))" "recon_buffers ?u = Map.empty"
    using phase_received[OF _ _ _ _ ready _ _ S' n sent] net len n unfolding network_ok_def by simp_all
  have "concat (map (\<lambda>i. S (nds ! i) ! n) [0..<?N]) = concat (map (\<lambda>nd. S nd ! n) nds)"
    using map_nth_upt[of ?N nds "\<lambda>nd. S nd ! n"] len by simp
  moreover have "shuffle_phase shuffle_step collect_step env addrs nds ! n = collect_step (fst (shuffle_step (nds ! n))\<lparr>transport := ?u\<rparr>)"
    unfolding shuffle_phase_def Let_def sent_def[symmetric] using n len by (simp add: deliver_def shape(2))
  moreover have "node_id ?u = word_of_nat n" "socket_open ?u"
    using ready n len ReceiverLoop_keeps[of "arrivals env sent (addrs ! n)" "fst (?each (nds ! n))"]
      send_each_keeps[of env "zip addrs (S (nds ! n))" "transport (nds ! n)"]
    by (simp_all add: ready_transports_def same_receiver_def)
  ultimately show ?thesis using got by auto
qed

lemma shuffle_parts:
  "snd (ShuffleLeftSignatures env num addrs hot nd) = snd (send_each env (zip addrs (left_sends num hot (local_left_signatures nd))) (transport nd))"
  "transport (fst (ShuffleLeftSignatures env num addrs hot nd)) =
    fst (send_each env (zip addrs (left_sends num hot (local_left_signatures nd))) (transport nd))"
  "snd (ShuffleRightSignatures env num addrs hot nd) = snd (send_each env (zip addrs (right_sends num hot (local_right_signatures nd))) (transport nd))"
  "transport (fst (ShuffleRightSignatures env num addrs hot nd)) =
    fst (send_each env (zip addrs (right_sends num hot (local_right_signatures nd))) (transport nd))"
  by (simp_all add: ShuffleLeftSignatures_def ShuffleRightSignatures_def split: prod.split)

lemma length_shuffle_phase: "length nds = length addrs \<Longrightarrow> length (shuffle_phase st co env addrs nds) = length addrs"
  by (simp add: shuffle_phase_def Let_def)

lemma left_phase:
  assumes net: "network_ok env addrs" and len: "length nds = length addrs"
    and ready: "ready_transports (map transport nds)"
    and few: "\<forall>nd \<in> set nds. length (local_left_signatures nd) < 2 ^ 32"
    and n: "n < length addrs"
    and nd1: "nd1 = shuffle_phase (ShuffleLeftSignatures env (length addrs) addrs hot) CollectLeftSignatures env addrs nds ! n"
  shows "same_tables nd1 (nds ! n)"
    "mset (received_left_signatures nd1) = mset (filter (goes_left (length addrs) hot n) (concat (map local_left_signatures nds)))"
    "node_id (transport nd1) = word_of_nat n \<and> socket_open (transport nd1) \<and> recon_buffers (transport nd1) = Map.empty \<and>
      completed_messages (transport nd1) = []"
proof -
  let ?S = "\<lambda>nd. left_sends (length addrs) hot (local_left_signatures nd)"
  have S: "\<forall>nd \<in> set nds. length (?S nd) = length addrs \<and> (\<forall>es \<in> set (?S nd). packet_count es < 2 ^ 32)"
    using few by (auto simp: left_sends_eq in_set_conv_nth[of _ "?S _"] intro!: packet_count_filter[simplified])
  obtain u where u: "nd1 = CollectLeftSignatures (fst (ShuffleLeftSignatures env (length addrs) addrs hot (nds ! n))\<lparr>transport := u\<rparr>)"
    "mset (concat (completed_messages u)) = mset (concat (map (\<lambda>nd. ?S nd ! n) nds))"
    "recon_buffers u = Map.empty" "node_id u = word_of_nat n" "socket_open u"
    using phase_generic[OF net len ready shuffle_parts(1) shuffle_parts(2) S n, of CollectLeftSignatures] unfolding nd1 by blast
  have "concat (map (\<lambda>nd. ?S nd ! n) nds) = filter (goes_left (length addrs) hot n) (concat (map local_left_signatures nds))"
    by (simp add: left_sends_eq(2)[OF n] filter_concat comp_def)
  then show "mset (received_left_signatures nd1) = mset (filter (goes_left (length addrs) hot n) (concat (map local_left_signatures nds)))"
    using u(2) by (simp add: u(1) CollectLeftSignatures_def ReceiveAll_def ShuffleLeftSignatures_def split: prod.split)
  show "same_tables nd1 (nds ! n)"
    by (simp add: u(1) CollectLeftSignatures_def ReceiveAll_def ShuffleLeftSignatures_def same_tables_def split: prod.split)
  show "node_id (transport nd1) = word_of_nat n \<and> socket_open (transport nd1) \<and> recon_buffers (transport nd1) = Map.empty \<and>
      completed_messages (transport nd1) = []"
    using u(3-5) by (simp add: u(1) CollectLeftSignatures_def ReceiveAll_def split: prod.split)
qed

lemma right_phase:
  assumes net: "network_ok env addrs" and len: "length nds = length addrs"
    and ready: "ready_transports (map transport nds)"
    and few: "\<forall>nd \<in> set nds. length (local_right_signatures nd) < 2 ^ 32"
    and n: "n < length addrs"
    and nd1: "nd1 = shuffle_phase (ShuffleRightSignatures env (length addrs) addrs hot) CollectRightSignatures env addrs nds ! n"
  shows "same_tables nd1 (nds ! n)" "received_left_signatures nd1 = received_left_signatures (nds ! n)"
    "mset (received_right_signatures nd1) =
      mset (filter (\<lambda>e. right_target (length addrs) hot e = n) (concat (map local_right_signatures nds)))"
proof -
  let ?S = "\<lambda>nd. right_sends (length addrs) hot (local_right_signatures nd)"
  have S: "\<forall>nd \<in> set nds. length (?S nd) = length addrs \<and> (\<forall>es \<in> set (?S nd). packet_count es < 2 ^ 32)"
    using few by (auto simp: right_sends_eq in_set_conv_nth[of _ "?S _"] intro!: packet_count_filter[simplified])
  obtain u where u: "nd1 = CollectRightSignatures (fst (ShuffleRightSignatures env (length addrs) addrs hot (nds ! n))\<lparr>transport := u\<rparr>)"
    "mset (concat (completed_messages u)) = mset (concat (map (\<lambda>nd. ?S nd ! n) nds))"
    using phase_generic[OF net len ready shuffle_parts(3) shuffle_parts(4) S n, of CollectRightSignatures] unfolding nd1 by blast
  have "concat (map (\<lambda>nd. ?S nd ! n) nds) = filter (\<lambda>e. right_target (length addrs) hot e = n) (concat (map local_right_signatures nds))"
    by (simp add: right_sends_eq(2)[OF n] filter_concat comp_def)
  then show "mset (received_right_signatures nd1) =
      mset (filter (\<lambda>e. right_target (length addrs) hot e = n) (concat (map local_right_signatures nds)))"
    using u(2) by (simp add: u(1) CollectRightSignatures_def ReceiveAll_def ShuffleRightSignatures_def split: prod.split)
  show "same_tables nd1 (nds ! n)" "received_left_signatures nd1 = received_left_signatures (nds ! n)"
    by (simp_all add: u(1) CollectRightSignatures_def ReceiveAll_def ShuffleRightSignatures_def same_tables_def split: prod.split)
qed

subsection \<open>All local joins together\<close>

definition partners :: "shuffle_entry multiset \<Rightarrow> shuffle_entry \<Rightarrow> (u32 \<times> u32) multiset" where
  "partners L r = image_mset (\<lambda>l. (row_id l, row_id r)) (filter_mset (\<lambda>l. entry_sig l = entry_sig r) L)"

lemma mset_local_join:
  "mset (PerformLocalJoin nd) = (\<Sum>r\<in>#mset (received_right_signatures nd). partners (mset (received_left_signatures nd)) r)"
proof -
  have "mset (concat (map (\<lambda>r. map (\<lambda>l. (row_id l, row_id r)) (filter (\<lambda>l. entry_sig l = entry_sig r) L)) R)) =
    (\<Sum>r\<in>#mset R. partners (mset L) r)" for L R by (induction R) (simp_all add: partners_def)
  then show ?thesis by (simp add: PerformLocalJoin_def)
qed

lemma sum_by_target:
  fixes K :: "'a \<Rightarrow> 'b multiset"
  assumes "\<forall>r \<in># M. f r < num"
  shows "(\<Sum>n\<leftarrow>[0..<num]. \<Sum>r\<in>#filter_mset (\<lambda>r. f r = n) M. K r) = (\<Sum>r\<in>#M. K r)"
  using assms
proof (induction M)
  case empty
  show ?case by (induction num) simp_all
next
  case (add x M)
  have split: "(\<Sum>r\<in>#filter_mset (\<lambda>r. f r = n) (add_mset x M). K r) =
      (if n = f x then K x else {#}) + (\<Sum>r\<in>#filter_mset (\<lambda>r. f r = n) M. K r)" for n by simp
  have "(\<Sum>n\<leftarrow>[0..<num]. if n = f x then K x else {#}) = K x"
    using add.prems by (simp add: interv_sum_list_conv_sum_set_nat)
  then show ?case using add unfolding split by (simp add: sum_list_addf)
qed

lemma all_local_joins:
  assumes "length nds = num" "0 < num" "num < 2 ^ 64"
    and L: "\<forall>n < num. mset (received_left_signatures (nds ! n)) = mset (filter (goes_left num hot n) LL)"
    and R: "\<forall>n < num. mset (received_right_signatures (nds ! n)) = mset (filter (\<lambda>e. right_target num hot e = n) RR)"
  shows "mset (concat (map PerformLocalJoin nds)) = (\<Sum>r\<in>#mset RR. partners (mset LL) r)"
proof -
  have node: "mset (PerformLocalJoin (nds ! n)) = (\<Sum>r\<in>#filter_mset (\<lambda>r. right_target num hot r = n) (mset RR). partners (mset LL) r)"
    if n: "n < num" for n
  proof -
    have "partners (filter_mset (goes_left num hot n) (mset LL)) r = partners (mset LL) r" if r: "right_target num hot r = n" for r
      unfolding partners_def using r meets[of _ r num hot]
      by (auto intro!: arg_cong[where f="image_mset _"] filter_mset_cong simp: filter_filter_mset)
    then have "image_mset (partners (filter_mset (goes_left num hot n) (mset LL))) (filter_mset (\<lambda>r. right_target num hot r = n) (mset RR)) =
        image_mset (partners (mset LL)) (filter_mset (\<lambda>r. right_target num hot r = n) (mset RR))"
      by (intro image_mset_cong) simp
    then show ?thesis using n L R by (simp add: mset_local_join)
  qed
  have "mset (concat (map PerformLocalJoin nds)) = (\<Sum>n\<leftarrow>[0..<num]. mset (PerformLocalJoin (nds ! n)))"
    using map_nth_upt[of num nds "\<lambda>nd. mset (PerformLocalJoin nd)"] assms(1) by (simp add: mset_concat comp_def)
  also have "\<dots> = (\<Sum>n\<leftarrow>[0..<num]. \<Sum>r\<in>#filter_mset (\<lambda>r. right_target num hot r = n) (mset RR). partners (mset LL) r)"
    using node by (intro arg_cong[where f=sum_list] map_cong) simp_all
  also have "\<dots> = (\<Sum>r\<in>#mset RR. partners (mset LL) r)"
    using assms(2,3) by (intro sum_by_target) (simp add: right_target_less)
  finally show ?thesis .
qed

subsection \<open>Rows and their ids\<close>

lemma and_fff: "(x :: u32) AND 0xFFF = take_bit 12 x"
  by (simp add: take_bit_eq_mask mask_eq_exp_minus_1)

lemma unat_power_lower: "k < 32 \<Longrightarrow> unat (2 ^ k :: u32) = 2 ^ k"
  using unat_u32[of "2 ^ k"] power_strict_increasing[of k 32 "2 :: nat"] by simp

lemma small_word_bits:
  assumes "(w :: u32) < 2 ^ k" "k < 32" shows "bit w i \<longleftrightarrow> i < k \<and> bit w i"
proof -
  have "unat w < 2 ^ k" using assms by (simp add: word_less_nat_alt unat_power_lower)
  then have "take_bit k w = w" by (simp add: word_unat_eq_iff unsigned_take_bit_eq take_bit_nat_eq_self)
  then show ?thesis by (metis bit_take_bit_iff)
qed

lemma take_bit_less: "k < 32 \<Longrightarrow> take_bit k (w :: u32) < 2 ^ k"
  using take_bit_nat_less_exp[of k "unat w"] by (simp add: word_less_nat_alt unsigned_take_bit_eq unat_power_lower)

lemma unpack_pack_iff: "UnpackRowId (PackRowId a b c) = (a, b, c) \<longleftrightarrow> a < 2 ^ 8 \<and> b < 2 ^ 12 \<and> c < 2 ^ 12"
proof
  assume eq: "UnpackRowId (PackRowId a b c) = (a, b, c)"
  then have "a = drop_bit 24 (PackRowId a b c)" "b = take_bit 12 (drop_bit 12 (PackRowId a b c))" "c = take_bit 12 (PackRowId a b c)"
    by (simp_all add: UnpackRowId_def and_fff)
  moreover have "drop_bit 24 (w :: u32) < 2 ^ 8" for w
    using unat_u32_less[of w] by (simp add: word_less_nat_alt unat_drop_bit_eq drop_bit_eq_div[where 'a=nat])
  ultimately show "a < 2 ^ 8 \<and> b < 2 ^ 12 \<and> c < 2 ^ 12" using take_bit_less[of 12] by (metis numeral_less_iff semiring_norm(68,76,78,79,80,81))
next
  assume "a < 2 ^ 8 \<and> b < 2 ^ 12 \<and> c < 2 ^ 12"
  then have small: "8 \<le> i \<Longrightarrow> \<not> bit a i" "12 \<le> i \<Longrightarrow> \<not> bit b i" "12 \<le> i \<Longrightarrow> \<not> bit c i" for i
    using small_word_bits[of a 8 i] small_word_bits[of b 12 i] small_word_bits[of c 12 i] by auto
  have low: "bit a i \<Longrightarrow> i < 8" "bit b i \<Longrightarrow> i < 12" "bit c i \<Longrightarrow> i < 12" for i
    using small[of i] by (metis not_less)+
  have "drop_bit 24 (PackRowId a b c) = a"
    by (rule bit_word_eqI) (auto simp: PackRowId_def bit_simps small dest: low)
  moreover have "take_bit 12 (drop_bit 12 (PackRowId a b c)) = b"
    by (rule bit_word_eqI) (auto simp: PackRowId_def bit_simps small dest: low)
  moreover have "take_bit 12 (PackRowId a b c) = c"
    by (rule bit_word_eqI) (auto simp: PackRowId_def bit_simps small dest: low)
  ultimately show "UnpackRowId (PackRowId a b c) = (a, b, c)" by (simp add: UnpackRowId_def and_fff)
qed

subsection \<open>The reference: a nested loop over the filtered rows\<close>

text \<open>A row is named by its node, its batch and its index in the batch.\<close>

type_synonym row_pos = "nat \<times> nat \<times> nat"

definition row_passes :: "record_batch \<Rightarrow> predicate list \<Rightarrow> nat \<Rightarrow> bool" where
  "row_passes batch preds r = list_all (\<lambda>p. case column_by_name batch (pred_column p) of
     None \<Rightarrow> False | Some col \<Rightarrow> keeps_row p col r) preds"

definition joining_rows :: "record_batch \<Rightarrow> predicate list \<Rightarrow> string \<Rightarrow> nat list" where
  "joining_rows batch preds join_col = (case column_by_name batch join_col of
     None \<Rightarrow> []
   | Some col \<Rightarrow> filter (\<lambda>r. row_passes batch preds r \<and> \<not> is_null col r) [0..<batch_rows batch])"

definition table_rows :: "record_batch list list \<Rightarrow> predicate list \<Rightarrow> string \<Rightarrow> row_pos list" where
  "table_rows parts preds join_col = concat (map (\<lambda>n. concat (map (\<lambda>b.
     map (\<lambda>r. (n, b, r)) (joining_rows (parts ! n ! b) preds join_col)) [0..<length (parts ! n)])) [0..<length parts])"

definition cell_text :: "record_batch list list \<Rightarrow> string \<Rightarrow> row_pos \<Rightarrow> string" where
  "cell_text parts col = (\<lambda>(n, b, r). case column_by_name (parts ! n ! b) col of None \<Rightarrow> [] | Some c \<Rightarrow> get_view c r)"

definition cell_number :: "record_batch list list \<Rightarrow> string \<Rightarrow> row_pos \<Rightarrow> u64" where
  "cell_number parts col = (\<lambda>(n, b, r). case column_by_name (parts ! n ! b) col of None \<Rightarrow> 0 | Some c \<Rightarrow> int_value c r)"

definition nested_loop_join ::
    "coordinator \<Rightarrow> string \<Rightarrow> string \<Rightarrow> predicate list \<Rightarrow> predicate list \<Rightarrow> (row_pos \<times> row_pos) list" where
  "nested_loop_join c left_join_col right_join_col left_preds right_preds =
     (let L = map left_batches (cluster_nodes c); R = map right_batches (cluster_nodes c)
      in filter (\<lambda>(x, y). cell_text L left_join_col x = cell_text R right_join_col y)
           (List.product (table_rows L left_preds left_join_col) (table_rows R right_preds right_join_col)))"

text \<open>The unchecked casts meet columns of the types they assume.\<close>

definition readable :: "record_batch \<Rightarrow> predicate list \<Rightarrow> string \<Rightarrow> bool" where
  "readable batch preds join_col \<longleftrightarrow>
     (\<forall>p \<in> set preds. \<forall>col. column_by_name batch (pred_column p) = Some col \<longrightarrow> pred_array p col = Some col) \<and>
     (\<forall>col. column_by_name batch join_col = Some col \<longrightarrow> as_string_array col = Some col)"

definition small_partition :: "record_batch list \<Rightarrow> bool" where
  "small_partition bs \<longleftrightarrow> length bs \<le> 4096 \<and> (\<forall>b \<in> set bs. batch_rows b \<le> 4096)"

subsection \<open>The signatures of the rows\<close>

lemma filter_rows_eq:
  assumes "\<forall>p \<in> set preds. \<forall>col. column_by_name batch (pred_column p) = Some col \<longrightarrow> pred_array p col = Some col"
  shows "filter_rows batch preds (map P [0..<n]) = Some (map (\<lambda>r. P r \<and> row_passes batch preds r) [0..<n])"
  using assms
proof (induction preds arbitrary: P)
  case (Cons p preds)
  show ?case
  proof (cases "column_by_name batch (pred_column p)")
    case None
    then show ?thesis by (simp add: row_passes_def map_replicate_const)
  next
    case (Some col)
    then have "filter_rows batch (p # preds) (map P [0..<n]) = filter_rows batch preds (map (\<lambda>r. P r \<and> keeps_row p col r) [0..<n])"
      using Cons.prems by (simp cong: map_cong) (auto intro!: arg_cong[where f="filter_rows batch preds"])
    also have "\<dots> = Some (map (\<lambda>r. (P r \<and> keeps_row p col r) \<and> row_passes batch preds r) [0..<n])"
      using Cons by simp
    finally show ?thesis using Some by (simp add: row_passes_def conj_assoc)
  qed
qed (simp add: row_passes_def)

definition entry_at :: "string \<Rightarrow> row_pos \<Rightarrow> shuffle_entry" where
  "entry_at text = (\<lambda>(n, b, r). \<lparr>entry_sig = signature_of text,
     row_id = PackRowId (word_of_nat n) (word_of_nat b) (word_of_nat r)\<rparr>)"

lemma batch_signatures_eq:
  assumes "readable batch preds col"
  shows "batch_signatures (word_of_nat n) preds col (b, batch) =
    Some (map (\<lambda>r. entry_at (case column_by_name batch col of None \<Rightarrow> [] | Some c \<Rightarrow> get_view c r) (n, b, r)) (joining_rows batch preds col))"
proof -
  have "GetMatchingRows batch preds = Some (map (row_passes batch preds) [0..<batch_rows batch])"
    using filter_rows_eq[of preds batch "\<lambda>_. True" "batch_rows batch"] assms
    unfolding GetMatchingRows_def readable_def by (simp add: map_replicate_const)
  then show ?thesis using assms
    by (auto simp: batch_signatures_def joining_rows_def readable_def entry_at_def split: option.split intro!: arg_cong[where f="map _"] filter_cong)
qed

lemma those_map: "(\<And>x. x \<in> set xs \<Longrightarrow> f x = Some (g x)) \<Longrightarrow> those (map f xs) = Some (map g xs)"
  by (induction xs) simp_all

lemma enumerate_upt: "map (\<lambda>(b, x). f b x) (enumerate 0 xs) = map (\<lambda>b. f b (xs ! b)) [0..<length xs]"
  by (rule nth_equalityI) (simp_all add: nth_enumerate_eq)

lemma partition_signatures_eq:
  assumes "\<forall>batch \<in> set bs. readable batch preds col"
  shows "partition_signatures (word_of_nat n) preds col bs = Some (concat (map (\<lambda>b.
    map (\<lambda>r. entry_at (case column_by_name (bs ! b) col of None \<Rightarrow> [] | Some c \<Rightarrow> get_view c r) (n, b, r))
      (joining_rows (bs ! b) preds col)) [0..<length bs]))"
proof -
  have "those (map (batch_signatures (word_of_nat n) preds col) (enumerate 0 bs)) =
    Some (map (\<lambda>(b, batch). map (\<lambda>r. entry_at (case column_by_name batch col of None \<Rightarrow> [] | Some c \<Rightarrow> get_view c r) (n, b, r))
      (joining_rows batch preds col)) (enumerate 0 bs))"
    using assms by (intro those_map) (auto simp: batch_signatures_eq in_set_enumerate_eq)
  then show ?thesis by (simp add: partition_signatures_def enumerate_upt)
qed

lemma all_signatures:
  assumes "length parts = N"
  shows "concat (map (\<lambda>n. concat (map (\<lambda>b.
      map (\<lambda>r. entry_at (case column_by_name (parts ! n ! b) col of None \<Rightarrow> [] | Some c \<Rightarrow> get_view c r) (n, b, r))
        (joining_rows (parts ! n ! b) preds col)) [0..<length (parts ! n)])) [0..<N]) =
    map (\<lambda>x. entry_at (cell_text parts col x) x) (table_rows parts preds col)"
  by (simp add: table_rows_def cell_text_def map_concat comp_def assms)

lemma length_concat_bounded: "(\<And>x. x \<in> set xs \<Longrightarrow> length (f x) \<le> k) \<Longrightarrow> length (concat (map f xs)) \<le> k * length xs"
  by (induction xs) (auto simp: add.commute intro!: add_mono)

lemma length_partition_signatures:
  assumes "small_partition bs"
  shows "length (concat (map (\<lambda>b. map (g b) (joining_rows (bs ! b) preds col)) [0..<length bs])) < 2 ^ 32"
proof -
  have "length (joining_rows (bs ! b) preds col) \<le> 4096" if "b < length bs" for b
  proof -
    have "length (joining_rows (bs ! b) preds col) \<le> batch_rows (bs ! b)"
      by (auto simp: joining_rows_def split: option.split intro: order_trans[OF length_filter_le])
    also have "\<dots> \<le> 4096" using assms that by (simp add: small_partition_def)
    finally show ?thesis .
  qed
  then have "length (concat (map (\<lambda>b. map (g b) (joining_rows (bs ! b) preds col)) [0..<length bs])) \<le> 4096 * length [0..<length bs]"
    by (intro length_concat_bounded) simp
  then show ?thesis using assms by (simp add: small_partition_def)
qed

subsection \<open>Candidates and verified pairs\<close>

lemma partners_product:
  "(\<Sum>r\<in>#mset (map f ys). partners (mset (map e xs)) r) =
    image_mset (\<lambda>(x, y). (row_id (e x), row_id (f y))) (filter_mset (\<lambda>(x, y). entry_sig (e x) = entry_sig (f y)) (mset (List.product xs ys)))"
proof (induction ys)
  case Nil
  have "List.product xs [] = []" for xs :: "'a list" by (induction xs) simp_all
  then show ?case by simp
next
  case (Cons y ys)
  have "mset (List.product xs (y # ys)) = mset (map (\<lambda>x. (x, y)) xs) + mset (List.product xs ys)" by (induction xs) simp_all
  moreover have "partners (mset (map e xs)) (f y) =
      image_mset (\<lambda>(x, y). (row_id (e x), row_id (f y))) (filter_mset (\<lambda>(x, y). entry_sig (e x) = entry_sig (f y)) (mset (map (\<lambda>x. (x, y)) xs)))"
    by (induction xs) (auto simp: partners_def)
  ultimately show ?case using Cons by simp
qed

lemma verified_pairs_eq:
  "(\<And>p. p \<in> set ps \<Longrightarrow> verified nds lc rc p \<noteq> None) \<Longrightarrow>
   verified_pairs nds lc rc ps = Some (filter (\<lambda>p. verified nds lc rc p = Some True) ps)"
proof (induction ps)
  case (Cons p ps)
  obtain v where "verified nds lc rc p = Some v" using Cons.prems[of p] by auto
  then show ?case using Cons by auto
qed simp

lemma table_rows_bounds:
  assumes "(n, b, r) \<in> set (table_rows parts preds col)" "length parts \<le> 256" "\<forall>bs \<in> set parts. small_partition bs"
  shows "n < length parts" "b < length (parts ! n)" "b < 4096" "r < 4096" "n < 256"
proof -
  have in_range: "n < length parts" "b < length (parts ! n)" "r \<in> set (joining_rows (parts ! n ! b) preds col)"
    using assms(1) by (auto simp: table_rows_def)
  have "small_partition (parts ! n)" using assms(3) in_range(1) by simp
  then have "length (parts ! n) \<le> 4096" "batch_rows (parts ! n ! b) \<le> 4096" using in_range(2) by (auto simp: small_partition_def)
  then show "n < length parts" "b < length (parts ! n)" "b < 4096" "r < 4096" "n < 256"
    using in_range assms(2) by (auto simp: joining_rows_def split: option.splits)
qed

definition row_key :: "row_pos \<Rightarrow> u32" where
  "row_key x = row_id (entry_at [] x)"

lemma row_key_entry [simp]: "row_id (entry_at text x) = row_key x"
  by (simp add: row_key_def entry_at_def split: prod.split)

lemma unpack_row_key:
  assumes "n < 256" "b < 4096" "r < 4096"
  shows "UnpackRowId (row_key (n, b, r)) = (word_of_nat n, word_of_nat b, word_of_nat r)"
    "unat (word_of_nat n :: u32) = n" "unat (word_of_nat b :: u32) = b" "unat (word_of_nat r :: u32) = r"
  using assms unpack_pack_iff[of "word_of_nat n" "word_of_nat b" "word_of_nat r"]
  by (simp_all add: row_key_def entry_at_def word_less_nat_alt)

lemma row_string_at:
  assumes "(n, b, r) \<in> set (table_rows parts preds col)" "length parts \<le> 256" "\<forall>bs \<in> set parts. small_partition bs"
    and "\<forall>bs \<in> set parts. \<forall>batch \<in> set bs. readable batch preds col"
  shows "row_string (parts ! n) (row_key (n, b, r)) col = Some (cell_text parts col (n, b, r))"
proof -
  note bd = table_rows_bounds[OF assms(1-3)]
  have "readable (parts ! n ! b) preds col" using assms(4) nth_mem[OF bd(1)] nth_mem[OF bd(2)] by blast
  then show ?thesis
    by (auto simp: row_string_def unpack_row_key[OF bd(5,3,4)] nth_in_def bd(2) cell_text_def readable_def split: option.split)
qed

lemma row_number_at:
  assumes "(n, b, r) \<in> set (table_rows parts preds col)" "length parts \<le> 256" "\<forall>bs \<in> set parts. small_partition bs"
    and "\<forall>bs \<in> set parts. \<forall>batch \<in> set bs. \<forall>c. column_by_name batch agg = Some c \<longrightarrow> as_int64_array c = Some c"
  shows "row_number (parts ! n) (row_key (n, b, r)) agg = Some (cell_number parts agg (n, b, r))"
proof -
  note bd = table_rows_bounds[OF assms(1-3)]
  have "\<forall>c. column_by_name (parts ! n ! b) agg = Some c \<longrightarrow> as_int64_array c = Some c"
    using assms(4) nth_mem[OF bd(1)] nth_mem[OF bd(2)] by blast
  then show ?thesis
    by (auto simp: row_number_def unpack_row_key[OF bd(5,3,4)] nth_in_def bd(2) cell_number_def split: option.split)
qed

subsection \<open>The whole query\<close>

text \<open>
  A cluster at rest on a network that loses and repeats nothing: its nodes are numbered, their receivers are
  empty, and their partitions fit the fields of a row id.
\<close>

definition cluster_ready :: "environment \<Rightarrow> coordinator \<Rightarrow> bool" where
  "cluster_ready env c \<longleftrightarrow> network_ok env (node_addresses c) \<and> num_nodes c = length (cluster_nodes c) \<and>
     length (node_addresses c) = num_nodes c \<and> 0 < num_nodes c \<and> num_nodes c \<le> 256 \<and>
     ready_transports (map transport (cluster_nodes c)) \<and>
     (\<forall>nd \<in> set (cluster_nodes c). small_partition (left_batches nd) \<and> small_partition (right_batches nd))"

definition join_readable :: "string \<Rightarrow> string \<Rightarrow> predicate list \<Rightarrow> predicate list \<Rightarrow> coordinator \<Rightarrow> bool" where
  "join_readable lc rc lp rp c \<longleftrightarrow> (\<forall>nd \<in> set (cluster_nodes c).
     (\<forall>batch \<in> set (left_batches nd). readable batch lp lc) \<and> (\<forall>batch \<in> set (right_batches nd). readable batch rp rc))"

lemma prepared_nodes:
  assumes "cluster_ready env c" "join_readable lc rc lp rp c"
  shows "\<exists>nds. those (map (PrepareJoinSignatures lp rp lc rc) (cluster_nodes c)) = Some nds \<and>
    map transport nds = map transport (cluster_nodes c) \<and>
    map left_batches nds = map left_batches (cluster_nodes c) \<and> map right_batches nds = map right_batches (cluster_nodes c) \<and>
    concat (map local_left_signatures nds) =
      map (\<lambda>x. entry_at (cell_text (map left_batches (cluster_nodes c)) lc x) x) (table_rows (map left_batches (cluster_nodes c)) lp lc) \<and>
    concat (map local_right_signatures nds) =
      map (\<lambda>x. entry_at (cell_text (map right_batches (cluster_nodes c)) rc x) x) (table_rows (map right_batches (cluster_nodes c)) rp rc) \<and>
    (\<forall>nd \<in> set nds. length (local_left_signatures nd) < 2 ^ 32 \<and> length (local_right_signatures nd) < 2 ^ 32)"
proof -
  let ?cs = "cluster_nodes c"
  let ?sigs = "\<lambda>preds col n bs. concat (map (\<lambda>b. map (\<lambda>r. entry_at (case column_by_name (bs ! b) col of None \<Rightarrow> [] | Some c \<Rightarrow> get_view c r) (n, b, r))
      (joining_rows (bs ! b) preds col)) [0..<length bs])"
  let ?nd = "\<lambda>n. (?cs ! n)\<lparr>local_left_signatures := ?sigs lp lc n (left_batches (?cs ! n)),
      local_right_signatures := ?sigs rp rc n (right_batches (?cs ! n))\<rparr>"
  define nds where "nds = map ?nd [0..<length ?cs]"
  have "PrepareJoinSignatures lp rp lc rc (?cs ! n) = Some (?nd n)" if "n < length ?cs" for n
  proof -
    have "node_id (transport (?cs ! n)) = word_of_nat n" using assms(1) that by (simp add: cluster_ready_def ready_transports_def)
    moreover have "\<forall>batch \<in> set (left_batches (?cs ! n)). readable batch lp lc" "\<forall>batch \<in> set (right_batches (?cs ! n)). readable batch rp rc"
      using assms(2) nth_mem[OF that] unfolding join_readable_def by blast+
    ultimately show ?thesis by (simp add: PrepareJoinSignatures_def partition_signatures_eq)
  qed
  then have "those (map (\<lambda>n. PrepareJoinSignatures lp rp lc rc (?cs ! n)) [0..<length ?cs]) = Some nds"
    unfolding nds_def by (intro those_map) simp
  then have prep: "those (map (PrepareJoinSignatures lp rp lc rc) ?cs) = Some nds"
    using map_nth_upt[of "length ?cs" ?cs "PrepareJoinSignatures lp rp lc rc"] by simp
  have same: "map f nds = map f ?cs" if "\<And>nd l r. f (nd\<lparr>local_left_signatures := l, local_right_signatures := r\<rparr>) = f nd" for f :: "cluster_node \<Rightarrow> 'x"
    unfolding nds_def using map_nth_upt[of "length ?cs" ?cs f] that by (simp add: comp_def)
  have "concat (map local_left_signatures nds) = concat (map (\<lambda>n. ?sigs lp lc n (map left_batches ?cs ! n)) [0..<length ?cs])"
    "concat (map local_right_signatures nds) = concat (map (\<lambda>n. ?sigs rp rc n (map right_batches ?cs ! n)) [0..<length ?cs])"
    unfolding nds_def by (auto intro!: arg_cong[where f=concat] map_cong)
  then have sigs: "concat (map local_left_signatures nds) = map (\<lambda>x. entry_at (cell_text (map left_batches ?cs) lc x) x) (table_rows (map left_batches ?cs) lp lc)"
    "concat (map local_right_signatures nds) = map (\<lambda>x. entry_at (cell_text (map right_batches ?cs) rc x) x) (table_rows (map right_batches ?cs) rp rc)"
    by (simp_all only: all_signatures length_map)
  have "\<forall>nd \<in> set nds. length (local_left_signatures nd) < 2 ^ 32 \<and> length (local_right_signatures nd) < 2 ^ 32"
  proof
    fix nd assume "nd \<in> set nds"
    then obtain n where n: "n < length ?cs" "nd = ?nd n" by (auto simp: nds_def)
    then have "small_partition (left_batches (?cs ! n))" "small_partition (right_batches (?cs ! n))"
      using assms(1) by (simp_all add: cluster_ready_def)
    then show "length (local_left_signatures nd) < 2 ^ 32 \<and> length (local_right_signatures nd) < 2 ^ 32"
      using length_partition_signatures[where preds=lp and col=lc and bs="left_batches (?cs ! n)" and
          g="\<lambda>b r. entry_at (case column_by_name (left_batches (?cs ! n) ! b) lc of None \<Rightarrow> [] | Some c \<Rightarrow> get_view c r) (n, b, r)"]
        length_partition_signatures[where preds=rp and col=rc and bs="right_batches (?cs ! n)" and
          g="\<lambda>b r. entry_at (case column_by_name (right_batches (?cs ! n) ! b) rc of None \<Rightarrow> [] | Some c \<Rightarrow> get_view c r) (n, b, r)"]
      by (simp add: n(2) del: length_concat)
  qed
  then show ?thesis using prep sigs same[of transport] same[of left_batches] same[of right_batches] by auto
qed

text \<open>The candidate pairs and the verified pairs, as multisets of row ids.\<close>

lemma join_pairs_eq:
  assumes ready: "cluster_ready env c" and typed: "join_readable lc rc lp rp c"
  shows "\<exists>nds pairs. join_pairs env lc rc lp rp c = Some (nds, pairs) \<and> length nds = length (cluster_nodes c) \<and>
    map left_batches nds = map left_batches (cluster_nodes c) \<and>
    mset pairs = image_mset (\<lambda>(x, y). (row_key x, row_key y)) (mset (nested_loop_join c lc rc lp rp))"
proof -
  let ?L = "map left_batches (cluster_nodes c)" and ?R = "map right_batches (cluster_nodes c)"
  let ?N = "num_nodes c" and ?addrs = "node_addresses c"
  let ?rl = "table_rows ?L lp lc" and ?rr = "table_rows ?R rp rc"
  let ?e = "\<lambda>x. entry_at (cell_text ?L lc x) x" and ?f = "\<lambda>y. entry_at (cell_text ?R rc y) y"
  obtain nds0 where n0: "those (map (PrepareJoinSignatures lp rp lc rc) (cluster_nodes c)) = Some nds0"
      "map transport nds0 = map transport (cluster_nodes c)" "map left_batches nds0 = ?L" "map right_batches nds0 = ?R"
      "concat (map local_left_signatures nds0) = map ?e ?rl" "concat (map local_right_signatures nds0) = map ?f ?rr"
      "\<forall>nd \<in> set nds0. length (local_left_signatures nd) < 2 ^ 32 \<and> length (local_right_signatures nd) < 2 ^ 32"
    using prepared_nodes[OF assms] by blast
  let ?hot = "hot_signatures nds0"
  define nds1 where "nds1 = shuffle_phase (ShuffleLeftSignatures env ?N ?addrs ?hot) CollectLeftSignatures env ?addrs nds0"
  define nds2 where "nds2 = shuffle_phase (ShuffleRightSignatures env ?N ?addrs ?hot) CollectRightSignatures env ?addrs nds1"
  have c: "network_ok env ?addrs" "length ?addrs = ?N" "length (cluster_nodes c) = ?N" "0 < ?N" "?N \<le> 256"
      "ready_transports (map transport nds0)" "\<forall>bs \<in> set ?L. small_partition bs" "\<forall>bs \<in> set ?R. small_partition bs"
    using ready n0(2) by (auto simp: cluster_ready_def)
  have len0: "length nds0 = ?N" using n0(3) c(3) by (metis length_map)
  have few: "\<forall>nd \<in> set nds0. length (local_left_signatures nd) < 2 ^ 32" using n0(7) by blast
  have len: "length nds1 = ?N" "length nds2 = ?N"
    unfolding nds1_def nds2_def using len0 c(2) by (simp_all add: length_shuffle_phase)
  note P1 = left_phase[OF c(1) _ c(6) few, unfolded c(2), OF len0 _ refl, of _ ?hot, folded nds1_def]
  have ready1: "ready_transports (map transport nds1)"
    using P1(3) len by (simp add: ready_transports_def)
  have same1: "map local_right_signatures nds1 = map local_right_signatures nds0" "map left_batches nds1 = map left_batches nds0"
      "map right_batches nds1 = map right_batches nds0"
    using P1(1) len0 len by (auto simp: same_tables_def intro!: nth_equalityI)
  have few1: "\<forall>nd \<in> set nds1. length (local_right_signatures nd) < 2 ^ 32"
  proof -
    have "local_right_signatures ` set nds1 = local_right_signatures ` set nds0"
      using arg_cong[OF same1(1), of set] by simp
    then show ?thesis using n0(7) by (metis imageE imageI)
  qed
  note P2 = right_phase[OF c(1) _ ready1 few1, unfolded c(2), OF len(1) _ refl, of _ ?hot, folded nds2_def]
  have "map left_batches nds2 = map left_batches nds1" "map right_batches nds2 = map right_batches nds1"
    using P2(1) len by (auto simp: same_tables_def intro!: nth_equalityI)
  then have same2: "map left_batches nds2 = ?L" "map right_batches nds2 = ?R" using same1(2,3) n0(3,4) by simp_all
  have "mset (concat (map PerformLocalJoin nds2)) = (\<Sum>r\<in>#mset (map ?f ?rr). partners (mset (map ?e ?rl)) r)"
  proof (rule all_local_joins[OF len(2) c(4)])
    show "?N < 2 ^ 64" using c(5) by simp
    show "\<forall>n < ?N. mset (received_left_signatures (nds2 ! n)) = mset (filter (goes_left ?N ?hot n) (map ?e ?rl))"
      using P1(2) P2(2) n0(5) by simp
    show "\<forall>n < ?N. mset (received_right_signatures (nds2 ! n)) = mset (filter (\<lambda>e. right_target ?N ?hot e = n) (map ?f ?rr))"
      using P2(3) n0(6) same1(1) by simp
  qed
  then have cand: "mset (concat (map PerformLocalJoin nds2)) = image_mset (\<lambda>(x, y). (row_key x, row_key y))
      (filter_mset (\<lambda>(x, y). entry_sig (?e x) = entry_sig (?f y)) (mset (List.product ?rl ?rr)))"
    by (simp only: partners_product row_key_entry)
  have check: "verified nds2 lc rc (row_key x, row_key y) = Some (cell_text ?L lc x = cell_text ?R rc y)"
    if xy: "x \<in> set ?rl" "y \<in> set ?rr" for x y
  proof -
    obtain n b r where x: "x = (n, b, r)" by (cases x) auto
    obtain n' b' r' where y: "y = (n', b', r')" by (cases y) auto
    have parts: "length ?L \<le> 256" "length ?R \<le> 256" using c(3,5) by simp_all
    have rd: "\<forall>bs \<in> set ?L. \<forall>batch \<in> set bs. readable batch lp lc" "\<forall>bs \<in> set ?R. \<forall>batch \<in> set bs. readable batch rp rc"
      using typed by (auto simp: join_readable_def)
    note bx = table_rows_bounds[OF xy(1)[unfolded x] parts(1) c(7)] and by' = table_rows_bounds[OF xy(2)[unfolded y] parts(2) c(8)]
    note ux = unpack_row_key[OF bx(5,3,4)] and uy = unpack_row_key[OF by'(5,3,4)]
    have "left_batches (nds2 ! n) = ?L ! n" "right_batches (nds2 ! n') = ?R ! n'"
      using same2 bx(1) by'(1) len(2) c(3) by (metis length_map nth_map)+
    then show ?thesis
      using row_string_at[OF xy(1)[unfolded x] parts(1) c(7) rd(1)] row_string_at[OF xy(2)[unfolded y] parts(2) c(8) rd(2)]
        bx(1) by'(1) len(2) c(3)
      by (simp add: verified_def x y ux uy nth_in_def GetLeftStringVal_def GetRightStringVal_def)
  qed
  have verify: "verified_pairs nds2 lc rc (concat (map PerformLocalJoin nds2)) =
      Some (filter (\<lambda>p. verified nds2 lc rc p = Some True) (concat (map PerformLocalJoin nds2)))"
  proof (rule verified_pairs_eq)
    fix p assume "p \<in> set (concat (map PerformLocalJoin nds2))"
    then have "p \<in># mset (concat (map PerformLocalJoin nds2))" by simp
    then obtain x y where "p = (row_key x, row_key y)" "x \<in> set ?rl" "y \<in> set ?rr" unfolding cand by auto
    then show "verified nds2 lc rc p \<noteq> None" using check by simp
  qed
  have "mset (filter (\<lambda>p. verified nds2 lc rc p = Some True) (concat (map PerformLocalJoin nds2))) =
      image_mset (\<lambda>(x, y). (row_key x, row_key y)) (filter_mset (\<lambda>z. verified nds2 lc rc (case z of (x, y) \<Rightarrow> (row_key x, row_key y)) = Some True)
        (filter_mset (\<lambda>(x, y). entry_sig (?e x) = entry_sig (?f y)) (mset (List.product ?rl ?rr))))"
    by (simp add: cand filter_mset_image_mset)
  also have "filter_mset (\<lambda>z. verified nds2 lc rc (case z of (x, y) \<Rightarrow> (row_key x, row_key y)) = Some True)
        (filter_mset (\<lambda>(x, y). entry_sig (?e x) = entry_sig (?f y)) (mset (List.product ?rl ?rr))) =
      mset (nested_loop_join c lc rc lp rp)"
    unfolding nested_loop_join_def Let_def mset_filter filter_filter_mset
    by (intro filter_mset_cong refl) (auto simp: check entry_at_def split: prod.splits)
  finally have "mset (filter (\<lambda>p. verified nds2 lc rc p = Some True) (concat (map PerformLocalJoin nds2))) =
      image_mset (\<lambda>(x, y). (row_key x, row_key y)) (mset (nested_loop_join c lc rc lp rp))" .
  moreover have "join_pairs env lc rc lp rp c = Some (nds2, filter (\<lambda>p. verified nds2 lc rc p = Some True) (concat (map PerformLocalJoin nds2)))"
    by (simp add: join_pairs_def n0(1) Let_def nds1_def[symmetric] nds2_def[symmetric] verify)
  ultimately show ?thesis using same2(1) len(2) c(3)
    by (intro exI[of _ nds2] exI[of _ "filter (\<lambda>p. verified nds2 lc rc p = Some True) (concat (map PerformLocalJoin nds2))"] conjI) simp_all
qed

lemma nested_loop_join_rows:
  "(x, y) \<in> set (nested_loop_join c lc rc lp rp) \<Longrightarrow> x \<in> set (table_rows (map left_batches (cluster_nodes c)) lp lc)"
  by (auto simp: nested_loop_join_def Let_def)

text \<open>The aggregated column is one the unchecked cast fits, wherever it exists.\<close>

definition agg_readable :: "string \<Rightarrow> coordinator \<Rightarrow> bool" where
  "agg_readable agg c \<longleftrightarrow> (\<forall>nd \<in> set (cluster_nodes c). \<forall>batch \<in> set (left_batches nd).
     \<forall>col. column_by_name batch agg = Some col \<longrightarrow> as_int64_array col = Some col)"

lemma left_numbers_eq:
  assumes ready: "cluster_ready env c" and agg: "agg_readable agg c"
    and nds: "length nds = length (cluster_nodes c)" "map left_batches nds = map left_batches (cluster_nodes c)"
    and pairs: "mset pairs = image_mset (\<lambda>(x, y). (row_key x, row_key y)) (mset (nested_loop_join c lc rc lp rp))"
  shows "\<exists>nums. left_numbers nds agg pairs = Some nums \<and>
    mset nums = image_mset (\<lambda>(x, y). cell_number (map left_batches (cluster_nodes c)) agg x) (mset (nested_loop_join c lc rc lp rp))"
proof -
  let ?L = "map left_batches (cluster_nodes c)" and ?J = "nested_loop_join c lc rc lp rp"
  let ?num = "\<lambda>(l, r). case UnpackRowId l of (l_node, _, _) \<Rightarrow> Option.bind (nth_in nds (unat l_node)) (GetLeftNumericVal l agg)"
  have at: "?num (row_key x, row_key y) = Some (cell_number ?L agg x)" if xy: "(x, y) \<in> set ?J" for x y
  proof -
    obtain n b r where x: "x = (n, b, r)" by (cases x) auto
    have row: "(n, b, r) \<in> set (table_rows ?L lp lc)" using nested_loop_join_rows[OF xy] by (simp add: x)
    have parts: "length ?L \<le> 256" "\<forall>bs \<in> set ?L. small_partition bs" using ready by (auto simp: cluster_ready_def)
    have rd: "\<forall>bs \<in> set ?L. \<forall>batch \<in> set bs. \<forall>c. column_by_name batch agg = Some c \<longrightarrow> as_int64_array c = Some c"
      using agg by (auto simp: agg_readable_def)
    note bx = table_rows_bounds[OF row parts] and nb = row_number_at[OF row parts rd]
    have "left_batches (nds ! n) = ?L ! n" using nds bx(1) by (metis length_map nth_map)
    then show ?thesis using nb bx(1) nds(1) unpack_row_key[OF bx(5,3,4)]
      by (simp add: x nth_in_def GetLeftNumericVal_def)
  qed
  have some: "?num p = Some (the (?num p))" if "p \<in> set pairs" for p
  proof -
    have "p \<in># mset pairs" using that by simp
    then obtain x y where "p = (row_key x, row_key y)" "(x, y) \<in> set ?J" unfolding pairs by auto
    then show ?thesis using at by simp
  qed
  have "left_numbers nds agg pairs = Some (map (\<lambda>p. the (?num p)) pairs)"
    unfolding left_numbers_def using some by (intro those_map) blast
  moreover have "mset (map (\<lambda>p. the (?num p)) pairs) = image_mset (\<lambda>(x, y). cell_number ?L agg x) (mset ?J)"
    unfolding mset_map pairs multiset.map_comp
  proof (rule image_mset_cong)
    fix z assume "z \<in># mset ?J"
    then obtain x y where "z = (x, y)" "(x, y) \<in> set ?J" by (cases z) auto
    then show "((\<lambda>p. the (?num p)) \<circ> (\<lambda>(x, y). (row_key x, row_key y))) z = (case z of (x, y) \<Rightarrow> cell_number ?L agg x)"
      using at[of x y] by simp
  qed
  ultimately show ?thesis by blast
qed

lemma sum_list_mset_u64: "mset xs = mset ys \<Longrightarrow> sum_list xs = sum_list (ys :: u64 list)"
  by (metis sum_mset_sum_list)

text \<open>
  Property C26. The distributed join is the join. Whatever the arrival order of the datagrams, the query counts
  the pairs a nested loop over the filtered rows of all nodes finds, each once, and sums the aggregated column
  of their left rows: replicating hot signatures loses and repeats nothing, and no collision of signatures
  survives the verification.
\<close>

theorem distributed_join_correct:
  assumes "cluster_ready env c" "join_readable lc rc lp rp c" "agg_readable agg c"
  shows "\<exists>c'. ExecuteJoinQuery env lc rc lp rp agg c =
    Some (word_of_nat (length (nested_loop_join c lc rc lp rp)),
      if agg = [] then 0
      else (\<Sum>(x, y)\<leftarrow>nested_loop_join c lc rc lp rp. cell_number (map left_batches (cluster_nodes c)) agg x), c')"
proof -
  let ?J = "nested_loop_join c lc rc lp rp"
  obtain nds pairs where P: "join_pairs env lc rc lp rp c = Some (nds, pairs)" "length nds = length (cluster_nodes c)"
      "map left_batches nds = map left_batches (cluster_nodes c)"
      "mset pairs = image_mset (\<lambda>(x, y). (row_key x, row_key y)) (mset ?J)"
    using join_pairs_eq[OF assms(1,2)] by blast
  obtain nums where N: "left_numbers nds agg pairs = Some nums"
      "mset nums = image_mset (\<lambda>(x, y). cell_number (map left_batches (cluster_nodes c)) agg x) (mset ?J)"
    using left_numbers_eq[OF assms(1,3) P(2-4)] by blast
  have "length pairs = length ?J" using arg_cong[OF P(4), of size] by simp
  moreover have "sum_list nums = (\<Sum>(x, y)\<leftarrow>?J. cell_number (map left_batches (cluster_nodes c)) agg x)"
    using N(2) by (intro sum_list_mset_u64) (simp add: case_prod_beta)
  ultimately show ?thesis by (simp add: ExecuteJoinQuery_def P(1) N(1))
qed

definition demo_env :: environment where
  "demo_env = \<lparr>resolves = (\<lambda>_. True), packet_order = (\<lambda>_ _ k. rev [0..<k]), sendto_result = (\<lambda>d. int (length d)), padding = 0,
     arrivals = (\<lambda>sent a. map Datagram (rev (map snd (filter (\<lambda>d. fst d = a) sent))))\<rparr>"

definition demo_node :: "nat \<Rightarrow> (string option \<times> int option) list \<Rightarrow> string option list \<Rightarrow> cluster_node" where
  "demo_node n left right = (new_cluster_node n)\<lparr>transport := (new_transport (word_of_nat n))\<lparr>socket_open := True, running := True\<rparr>,
     left_batches := [batch_of (length left) [(''k'', string_array (map fst left)), (''v'', int64_array (map snd left))]],
     right_batches := [batch_of (length right) [(''k'', string_array right)]]\<rparr>"

definition demo_cluster :: coordinator where
  "demo_cluster = \<lparr>num_nodes = 2, node_addresses = [(''10.0.0.1'', 7000), (''10.0.0.2'', 7000)],
     cluster_nodes = [demo_node 0 [(Some ''a'', Some 10), (Some ''b'', Some 20)] [Some ''b''],
       demo_node 1 [(Some ''b'', Some 5), (None, Some 7)] [Some ''b'', Some ''c'']]\<rparr>"

lemma demo_ready: "cluster_ready demo_env demo_cluster"
proof -
  have "reliable demo_env" by (auto simp: reliable_def demo_env_def)
  moreover have "shuffles demo_env" by (simp add: shuffles_def demo_env_def)
  ultimately show ?thesis
    by (simp add: cluster_ready_def network_ok_def demo_cluster_def ready_transports_def demo_node_def new_transport_def
        small_partition_def batch_of_def demo_env_def less_Suc_eq_0_disj less_2_cases_iff)
qed

lemma demo_parts:
  "map left_batches (cluster_nodes demo_cluster) =
    [[batch_of 2 [(''k'', string_array [Some ''a'', Some ''b'']), (''v'', int64_array [Some 10, Some 20])]],
     [batch_of 2 [(''k'', string_array [Some ''b'', None]), (''v'', int64_array [Some 5, Some 7])]]]"
  "map right_batches (cluster_nodes demo_cluster) =
    [[batch_of 1 [(''k'', string_array [Some ''b''])]], [batch_of 2 [(''k'', string_array [Some ''b'', Some ''c''])]]]"
  by (simp_all add: demo_cluster_def demo_node_def flip: numeral_2_eq_2)

lemma demo_joining_rows:
  "joining_rows (batch_of n ((''k'', string_array xs) # cols)) [] ''k'' = filter (\<lambda>r. xs ! r \<noteq> None) [0..<n]"
  by (simp add: joining_rows_def row_passes_def batch_of_def string_array_def)

lemma demo_rows:
  "table_rows (map left_batches (cluster_nodes demo_cluster)) [] ''k'' = [(0, 0, 0), (0, 0, 1), (1, 0, 0)]"
  "table_rows (map right_batches (cluster_nodes demo_cluster)) [] ''k'' = [(0, 0, 0), (1, 0, 0), (1, 0, 1)]"
  unfolding demo_parts by (simp_all add: table_rows_def upt_rec demo_joining_rows)

lemma demo_join:
  "nested_loop_join demo_cluster ''k'' ''k'' [] [] = [((0, 0, 1), (0, 0, 0)), ((0, 0, 1), (1, 0, 0)), ((1, 0, 0), (0, 0, 0)), ((1, 0, 0), (1, 0, 0))]"
  unfolding nested_loop_join_def Let_def demo_rows unfolding demo_parts
  by (simp add: cell_text_def batch_of_def string_array_def)

theorem distributed_join_correct_witness:
  "\<exists>c'. ExecuteJoinQuery demo_env ''k'' ''k'' [] [] ''v'' demo_cluster = Some (4, 50, c')"
proof -
  have "join_readable ''k'' ''k'' [] [] demo_cluster"
    by (simp add: join_readable_def readable_def demo_cluster_def demo_node_def batch_of_def string_array_def as_string_array_def is_string_type_def)
  moreover have "agg_readable ''v'' demo_cluster"
    by (simp add: agg_readable_def demo_cluster_def demo_node_def batch_of_def int64_array_def as_int64_array_def)
  moreover have "(\<Sum>(x, y)\<leftarrow>nested_loop_join demo_cluster ''k'' ''k'' [] []. cell_number (map left_batches (cluster_nodes demo_cluster)) ''v'' x) = 50"
    unfolding demo_join demo_parts by (simp add: cell_number_def batch_of_def int64_array_def int_value_def)
  ultimately show ?thesis
    using distributed_join_correct[OF demo_ready, of "''k''" "''k''" "[]" "[]" "''v''"] by (simp add: demo_join)
qed

text \<open>
  Property C29. A row id keeps the node, the batch and the row exactly when they fit eight, twelve and twelve
  bits: with 256 nodes, 4096 batches of a node or 4096 rows of a batch, ids no longer name their rows.
\<close>

theorem row_id_limits: "UnpackRowId (PackRowId a b c) = (a, b, c) \<longleftrightarrow> a < 256 \<and> b < 4096 \<and> c < 4096"
  using unpack_pack_iff[of a b c] by simp

text \<open>
  Property C27. On a numeric column the extended query agrees with the nested loop: its count and sum are those of
  the join, its minimum and maximum are attained bounds of the joined values in signed order, and its
  distinct values are the joined values without repetition.
\<close>

theorem extended_join_result:
  assumes "cluster_ready env c" "join_readable lc rc lp rp c" "agg_readable agg c"
    and "agg \<noteq> []" "\<not> global_string_column st agg"
    and "nested_loop_join c lc rc lp rp \<noteq> []" "length (nested_loop_join c lc rc lp rp) < 2 ^ 64"
  defines "vals \<equiv> map (\<lambda>(x, y). cell_number (map left_batches (cluster_nodes c)) agg x) (nested_loop_join c lc rc lp rp)"
  shows "\<exists>res c'. ExecuteJoinQueryExtended env st lc rc lp rp agg c = Some (res, c') \<and>
    unat (res_count res) = length vals \<and> res_sum res = sum_list vals \<and>
    min_val res \<in> set vals \<and> max_val res \<in> set vals \<and>
    (\<forall>v \<in> set vals. sint (min_val res) \<le> sint v \<and> sint v \<le> sint (max_val res)) \<and>
    set (distinct_numerics res) = set vals \<and> distinct (distinct_numerics res)"
proof -
  let ?J = "nested_loop_join c lc rc lp rp"
  obtain nds pairs where P: "join_pairs env lc rc lp rp c = Some (nds, pairs)" "length nds = length (cluster_nodes c)"
      "map left_batches nds = map left_batches (cluster_nodes c)"
      "mset pairs = image_mset (\<lambda>(x, y). (row_key x, row_key y)) (mset ?J)"
    using join_pairs_eq[OF assms(1,2)] by blast
  obtain nums where N: "left_numbers nds agg pairs = Some nums" "mset nums = mset vals"
    using left_numbers_eq[OF assms(1,3) P(2-4)] unfolding vals_def mset_map by blast
  have len: "length pairs = length ?J" using arg_cong[OF P(4), of size] by simp
  have vals: "vals \<noteq> []" "length vals = length ?J" using assms(6) by (simp_all add: vals_def)
  have nums: "nums \<noteq> []" "set nums = set vals" "sum_list nums = sum_list vals"
    using N(2) vals mset_eq_setD[OF N(2)] by (auto intro: sum_list_mset_u64)
  have cnt: "unat (word_of_nat (length pairs) :: u64) = length ?J" using assms(7) unfolding len by (rule unat_u64)
  then have pos: "(word_of_nat (length pairs) :: u64) \<noteq> 0" using assms(6) by (metis length_0_conv unat_0)
  have "ExecuteJoinQueryExtended env st lc rc lp rp agg c =
      Some (summarise_numerics nums (empty_result\<lparr>res_count := word_of_nat (length pairs), res_sum := sum_list nums\<rparr>), c\<lparr>cluster_nodes := nds\<rparr>)"
    using assms(4,5) pos by (simp add: ExecuteJoinQueryExtended_def P(1) N(1) Let_def)
  then show ?thesis
    using signed_min_spec[OF nums(1)] signed_max_spec[OF nums(1)] cnt vals(2) nums by (simp add: summarise_numerics_def)
qed

theorem extended_join_result_witness:
  "\<exists>res c'. ExecuteJoinQueryExtended demo_env None ''k'' ''k'' [] [] ''v'' demo_cluster = Some (res, c') \<and>
    unat (res_count res) = 4 \<and> res_sum res = 50 \<and> set (distinct_numerics res) = {5, 20}"
proof -
  let ?vals = "map (\<lambda>(x, y). cell_number (map left_batches (cluster_nodes demo_cluster)) ''v'' x) (nested_loop_join demo_cluster ''k'' ''k'' [] [])"
  have 1: "join_readable ''k'' ''k'' [] [] demo_cluster"
    by (simp add: join_readable_def readable_def demo_cluster_def demo_node_def batch_of_def string_array_def as_string_array_def is_string_type_def)
  have 2: "agg_readable ''v'' demo_cluster"
    by (simp add: agg_readable_def demo_cluster_def demo_node_def batch_of_def int64_array_def as_int64_array_def)
  have "?vals = [20, 20, 5, 5]"
    unfolding demo_join demo_parts by (simp add: cell_number_def batch_of_def int64_array_def int_value_def)
  moreover have "\<exists>res c'. ExecuteJoinQueryExtended demo_env None ''k'' ''k'' [] [] ''v'' demo_cluster = Some (res, c') \<and>
      unat (res_count res) = length ?vals \<and> res_sum res = sum_list ?vals \<and> set (distinct_numerics res) = set ?vals"
    using extended_join_result[OF demo_ready 1 2, of None] by (simp add: demo_join global_string_column_def) blast
  ultimately show ?thesis by auto
qed

end
