(* ===== verification/Agb_Storage.thy ===== *)
theory Agb_Storage
  imports Arrow Std_String
begin

text \<open>
  The first storage path of the program: an Arrow batch is cut into blocks of 64 rows, each column of a block
  is bit-sliced (\<open>src/arrow_connector.cpp\<close>), and a background worker writes header, field table and bit
  planes as one AGB object to S3 (\<open>src/s3_writer.cpp\<close>, \<open>include/green_gate/agb_format.hpp\<close>). The bit slicer
  belongs to the third-party engine and is the parameter \<open>slice_n\<close>; the HTTP client is a parameter, too.
\<close>

subsection \<open>Object addresses\<close>

text \<open>Positions are 64-bit, \<open>npos\<close> is the largest, and differences wrap.\<close>

definition rfind :: "string \<Rightarrow> string \<Rightarrow> nat option" where
  "rfind s pat = List.find (is_at s pat) (rev [0..<length s + 1])"

definition position :: "nat option \<Rightarrow> u64" where
  "position p = (case p of None \<Rightarrow> - 1 | Some i \<Rightarrow> word_of_nat i)"

definition is_express_bucket :: "string \<Rightarrow> bool" where
  "is_express_bucket bucket \<longleftrightarrow> find_first bucket ''--'' \<noteq> None \<and>
     position (rfind bucket ''--x-s3'') = word_of_nat (length bucket) - 6"

definition express_zone :: "string \<Rightarrow> string" where
  "express_zone bucket = (let suffix_pos = the (find_first bucket ''--'')
     in substr bucket (suffix_pos + 2) (unat (word_of_nat (length bucket) - word_of_nat suffix_pos - 8 :: u64)))"

definition zone_region :: "string \<Rightarrow> string" where
  "zone_region az_id =
     (if take 4 az_id = ''use1'' then ''us-east-1''
      else if take 4 az_id = ''use2'' then ''us-east-2''
      else if take 4 az_id = ''usw1'' then ''us-west-1''
      else if take 4 az_id = ''usw2'' then ''us-west-2''
      else ''us-east-1'')"

text \<open>\<open>back()\<close> of an empty endpoint is undefined: \<open>None\<close>.\<close>

definition GetS3Url :: "string \<Rightarrow> string \<Rightarrow> string \<Rightarrow> string option" where
  "GetS3Url endpoint bucket key =
     (if is_express_bucket bucket \<and> find_first endpoint ''amazonaws.com'' \<noteq> None then
        Some (''https://'' @ bucket @ ''.s3express-'' @ express_zone bucket @ ''.'' @ zone_region (express_zone bucket)
          @ ''.amazonaws.com/'' @ key)
      else if endpoint = [] then None
      else Some ((if last endpoint \<noteq> CHR ''/'' then endpoint @ ''/'' else endpoint) @ bucket @ ''/'' @ key))"

subsection \<open>Arrow columns to bit planes\<close>

datatype connector_error = Unsupported_mapping u32 | Unsupported_column u32

text \<open>
  Both extractors fill 64 scalars. The check of \<open>null_count\<close> only selects a loop without a test: without nulls
  every \<open>IsNull\<close> is false.
\<close>

definition ExtractScalars :: "arrow_array \<Rightarrow> nat \<Rightarrow> nat \<Rightarrow> u64 list" where
  "ExtractScalars array start_row count = map (\<lambda>i. if i < count then
       (if is_null array (start_row + i) then 0 else word_of_int (raw_value array (start_row + i))) else 0) [0..<64]"

definition ExtractBools :: "arrow_array \<Rightarrow> nat \<Rightarrow> nat \<Rightarrow> u64 list" where
  "ExtractBools array start_row count = map (\<lambda>i. if i < count then
       (if is_null array (start_row + i) then 0 else if raw_value array (start_row + i) \<noteq> 0 then 1 else 0) else 0) [0..<64]"

definition integer_type :: "u32 \<Rightarrow> bool" where
  "integer_type t \<longleftrightarrow> t \<in> {Type_INT8, Type_INT16, Type_INT32, Type_INT64, Type_UINT8, Type_UINT16, Type_UINT32, Type_UINT64}"

definition column_scalars :: "arrow_array \<Rightarrow> nat \<Rightarrow> nat \<Rightarrow> connector_error + u64 list" where
  "column_scalars col start_row block_rows =
     (if integer_type (type_id col) then Inr (ExtractScalars col start_row block_rows)
      else if type_id col = Type_BOOL then Inr (ExtractBools col start_row block_rows)
      else Inl (Unsupported_column (type_id col)))"

text \<open>\<open>slice_n temp n\<close> are the 64 words the slicer writes for the first \<open>n\<close> scalars.\<close>

type_synonym slicer = "u64 list \<Rightarrow> nat \<Rightarrow> u64 list"

definition agb_blocks :: "record_batch \<Rightarrow> nat" where
  "agb_blocks batch = (batch_rows batch + 63) div 64"

definition tile_planes :: "slicer \<Rightarrow> record_batch \<Rightarrow> nat \<times> nat \<Rightarrow> connector_error + u64 list" where
  "tile_planes slice_n batch = (\<lambda>(b, f).
     (let start_row = b * 64; block_rows = min 64 (batch_rows batch - start_row)
      in ebind (column_scalars (batch_columns batch ! f) start_row block_rows) (\<lambda>temp. Inr (slice_n temp block_rows))))"

definition TransposeBatch :: "slicer \<Rightarrow> record_batch \<Rightarrow> connector_error + u64 list" where
  "TransposeBatch slice_n batch =
     ebind (emap (tile_planes slice_n batch) (List.product [0..<agb_blocks batch] [0..<length (batch_columns batch)]))
       (\<lambda>tiles. Inr (concat tiles))"

text \<open>\<open>RegisterSchema\<close>: the descriptors handed to the engine, and the record size.\<close>

datatype engine_type = Engine_UINT64 | Engine_INT64 | Engine_UINT32 | Engine_INT32

record field_descriptor =
  fd_name :: string
  fd_offset :: u32
  fd_bits :: nat
  fd_type :: engine_type

definition engine_type_of :: "u32 \<Rightarrow> connector_error + engine_type" where
  "engine_type_of t =
     (if t \<in> {Type_INT8, Type_INT16, Type_INT32} then Inr Engine_INT32
      else if t = Type_INT64 then Inr Engine_INT64
      else if t \<in> {Type_UINT8, Type_UINT16, Type_UINT32} then Inr Engine_UINT32
      else if t = Type_UINT64 then Inr Engine_UINT64
      else if t = Type_BOOL then Inr Engine_UINT32
      else Inl (Unsupported_mapping t))"

definition RegisterSchema :: "(string \<times> u32) list \<Rightarrow> connector_error + field_descriptor list \<times> nat" where
  "RegisterSchema schema =
     ebind (emap (\<lambda>(i, name, t). ebind (engine_type_of t) (\<lambda>ty.
         Inr \<lparr>fd_name = name, fd_offset = word_of_nat (8 * i), fd_bits = 64, fd_type = ty\<rparr>)) (enumerate 0 schema))
       (\<lambda>fs. Inr (fs, 8 * length schema))"

subsection \<open>The AGB object\<close>

abbreviation "NUL \<equiv> CHR 0x00"

definition AGB_MAGIC :: bytes where
  "AGB_MAGIC = ''AGB'' @ [CHR 0x01]"

definition c_str :: "string \<Rightarrow> string" where
  "c_str s = takeWhile (\<lambda>c. c \<noteq> NUL) s"

text \<open>\<open>strncpy\<close> of at most 63 characters into a field of 64, filled up with zeros.\<close>

definition name_field :: "string \<Rightarrow> bytes" where
  "name_field name = (let n = take 63 (c_str name) in n @ replicate (64 - length n) NUL)"

definition agb_type_id :: "u32 \<Rightarrow> u32" where
  "agb_type_id t =
     (if t \<in> {Type_INT8, Type_INT16, Type_INT32} then 3
      else if t = Type_INT64 then 1
      else if t \<in> {Type_UINT8, Type_UINT16, Type_UINT32} then 2
      else if t = Type_UINT64 then 0
      else if t = Type_BOOL then 2
      else 0)"

record agb_header =
  agb_magic :: bytes
  num_records :: u64
  num_fields :: u64
  num_blocks :: u64

text \<open>The compiler pads the magic to eight bytes; the buffer is zeroed.\<close>

definition agb_header_bytes :: "agb_header \<Rightarrow> bytes" where
  "agb_header_bytes h = agb_magic h @ replicate 4 NUL @ put_u64 (num_records h) @ put_u64 (num_fields h) @ put_u64 (num_blocks h)"

definition agb_field_bytes :: "string \<times> u32 \<Rightarrow> bytes" where
  "agb_field_bytes = (\<lambda>(name, t). name_field name @ put_u32 (agb_type_id t))"

definition agb_object :: "slicer \<Rightarrow> record_batch \<Rightarrow> connector_error + bytes" where
  "agb_object slice_n batch =
     ebind (TransposeBatch slice_n batch) (\<lambda>bit_planes.
       Inr (agb_header_bytes \<lparr>agb_magic = AGB_MAGIC, num_records = word_of_nat (batch_rows batch),
              num_fields = word_of_nat (length (batch_columns batch)), num_blocks = word_of_nat (agb_blocks batch)\<rparr>
            @ concat (map agb_field_bytes (schema_fields batch))
            @ concat (map put_u64 bit_planes)))"

subsection \<open>Reading it back\<close>

definition agb_header_of :: "bytes \<Rightarrow> agb_header" where
  "agb_header_of file = \<lparr>agb_magic = take 4 file, num_records = get_u64 (drop 8 file),
     num_fields = get_u64 (drop 16 file), num_blocks = get_u64 (drop 24 file)\<rparr>"

lemma length_name_field [simp, length_simps]: "length (name_field name) = 64"
  by (simp add: name_field_def Let_def min_def)

lemma length_agb_header_bytes [simp, length_simps]: "length (agb_magic h) = 4 \<Longrightarrow> length (agb_header_bytes h) = 32"
  by (simp add: agb_header_bytes_def)

lemma length_agb_field_bytes [simp, length_simps]: "length (agb_field_bytes x) = 68"
  by (simp add: agb_field_bytes_def split: prod.split)

lemma length_AGB_MAGIC [simp, length_simps]: "length AGB_MAGIC = 4"
  by (simp add: AGB_MAGIC_def)

lemma agb_header_roundtrip [word_read]: "length (agb_magic h) = 4 \<Longrightarrow> agb_header_of (agb_header_bytes h @ rest) = h"
  by (cases h) (simp add: agb_header_of_def agb_header_bytes_def)

lemma c_str_name_field: "c_str (name_field name @ rest) = take 63 (c_str name)"
proof -
  have clean: "\<forall>c \<in> set (take 63 (c_str name)). c \<noteq> NUL"
    by (auto simp: c_str_def dest!: in_set_takeD set_takeWhileD)
  have "takeWhile (\<lambda>c. c \<noteq> NUL) (n @ replicate (64 - length n) NUL @ rest) = n" if "\<forall>c \<in> set n. c \<noteq> NUL" "length n \<le> 63" for n
  proof -
    have "replicate (64 - length n) NUL = NUL # replicate (63 - length n) NUL" using that(2) by (simp add: Suc_diff_le[symmetric] flip: replicate_Suc)
    then show ?thesis using that(1) by simp
  qed
  then show ?thesis using clean by (simp add: name_field_def Let_def c_str_def[of "_ @ _"])
qed

lemma concat_drop: "(\<And>x. x \<in> set xs \<Longrightarrow> length (f x) = w) \<Longrightarrow> i \<le> length xs \<Longrightarrow> drop (w * i) (concat (map f xs)) = concat (map f (drop i xs))"
proof (induction xs arbitrary: i)
  case (Cons x xs)
  then show ?case by (cases i) simp_all
qed simp

lemma length_concat_fixed: "(\<And>x. x \<in> set xs \<Longrightarrow> length (f x) = w) \<Longrightarrow> length (concat (map f xs)) = w * length xs"
  by (induction xs) simp_all

lemma c_str_field_at: "c_str (agb_field_bytes (name, t) @ rest) = take 63 (c_str name)"
  using c_str_name_field[of name "put_u32 (agb_type_id t) @ rest"] by (simp add: agb_field_bytes_def)

text \<open>The sections of an object, at the offsets where a reader looks for them.\<close>

lemma agb_object_sections:
  assumes obj: "agb_object slice_n batch = Inr file" and planes: "TransposeBatch slice_n batch = Inr bit_planes"
  shows "agb_header_of file = \<lparr>agb_magic = AGB_MAGIC, num_records = word_of_nat (batch_rows batch),
      num_fields = word_of_nat (length (batch_columns batch)), num_blocks = word_of_nat (agb_blocks batch)\<rparr>"
    and "i < length (schema_fields batch) \<Longrightarrow> c_str (drop (32 + 68 * i) file) = take 63 (c_str (fst (schema_fields batch ! i)))"
    and "i < length (schema_fields batch) \<Longrightarrow> get_u32 (drop (32 + 68 * i + 64) file) = agb_type_id (snd (schema_fields batch ! i))"
    and "drop (32 + 68 * length (schema_fields batch)) file = concat (map put_u64 bit_planes)"
    and "length file = 32 + 68 * length (schema_fields batch) + 8 * length bit_planes"
proof -
  let ?h = "\<lparr>agb_magic = AGB_MAGIC, num_records = word_of_nat (batch_rows batch),
      num_fields = word_of_nat (length (batch_columns batch)), num_blocks = word_of_nat (agb_blocks batch)\<rparr>"
  have f: "file = agb_header_bytes ?h @ concat (map agb_field_bytes (schema_fields batch)) @ concat (map put_u64 bit_planes)"
    using obj planes by (simp add: agb_object_def)
  show "agb_header_of file = ?h" unfolding f by (rule agb_header_roundtrip) simp
  have len: "length (concat (map agb_field_bytes (schema_fields batch))) = 68 * length (schema_fields batch)"
    "length (concat (map put_u64 bit_planes)) = 8 * length bit_planes"
    by (simp_all only: length_concat_fixed[where w=68] length_concat_fixed[where w=8] length_agb_field_bytes length_put)
  show "drop (32 + 68 * length (schema_fields batch)) file = concat (map put_u64 bit_planes)"
    "length file = 32 + 68 * length (schema_fields batch) + 8 * length bit_planes"
    unfolding f by (simp_all add: len del: length_concat)
  have there: "drop (32 + 68 * i) file = agb_field_bytes (schema_fields batch ! i) @
      concat (map agb_field_bytes (drop (Suc i) (schema_fields batch))) @ concat (map put_u64 bit_planes)"
    if i: "i < length (schema_fields batch)" for i
  proof -
    have "drop (68 * i) (concat (map agb_field_bytes (schema_fields batch))) = concat (map agb_field_bytes (drop i (schema_fields batch)))"
      using i by (intro concat_drop) simp_all
    moreover have "drop i (schema_fields batch) = schema_fields batch ! i # drop (Suc i) (schema_fields batch)"
      using i by (simp add: Cons_nth_drop_Suc)
    ultimately show ?thesis unfolding f using i by (simp add: len del: length_concat)
  qed
  show "i < length (schema_fields batch) \<Longrightarrow> c_str (drop (32 + 68 * i) file) = take 63 (c_str (fst (schema_fields batch ! i)))"
    using there[of i] c_str_field_at[of "fst (schema_fields batch ! i)" "snd (schema_fields batch ! i)"] by simp
  show "i < length (schema_fields batch) \<Longrightarrow> get_u32 (drop (32 + 68 * i + 64) file) = agb_type_id (snd (schema_fields batch ! i))"
  proof -
    assume i: "i < length (schema_fields batch)"
    have "drop (32 + 68 * i + 64) file = drop 64 (drop (32 + 68 * i) file)" by (simp add: add.commute add.left_commute)
    then show ?thesis using there[OF i] by (simp add: agb_field_bytes_def split: prod.split)
  qed
qed

subsection \<open>The background writer\<close>

text \<open>What the HTTP client answers; \<open>UploadToS3\<close> reports success for a 2xx response only.\<close>

datatype curl_result = Curl_unavailable | Curl_failed | Curl_response int bytes

definition UploadToS3 :: "(string \<Rightarrow> bytes \<Rightarrow> curl_result) \<Rightarrow> string \<Rightarrow> bytes \<Rightarrow> bool" where
  "UploadToS3 curl url data = (case curl url data of
     Curl_response code _ \<Rightarrow> 200 \<le> code \<and> code < 300
   | _ \<Rightarrow> False)"

text \<open>The client takes the data in pieces of at most \<open>total_size\<close> bytes.\<close>

definition ReadCallback :: "nat \<Rightarrow> bytes \<Rightarrow> nat \<Rightarrow> bytes \<times> nat" where
  "ReadCallback total_size data pos =
     (if length data \<le> pos then ([], pos)
      else (let to_copy = min total_size (length data - pos) in (take to_copy (drop pos data), pos + to_copy)))"

type_synonym write_request = "string \<times> record_batch"

record s3_writer =
  queue :: "write_request list"
  active_tasks :: u64
  stop :: bool
  in_progress :: "write_request option"
  uploads :: "(string \<times> bytes) list"
  terminated :: bool

definition new_writer :: s3_writer where
  "new_writer = \<lparr>queue = [], active_tasks = 0, stop = False, in_progress = None, uploads = [], terminated = False\<rparr>"

definition WriteAsync :: "string \<Rightarrow> record_batch \<Rightarrow> s3_writer \<Rightarrow> s3_writer" where
  "WriteAsync key batch w = w\<lparr>queue := queue w @ [(key, batch)], active_tasks := active_tasks w + 1\<rparr>"

definition Flush_returns :: "s3_writer \<Rightarrow> bool" where
  "Flush_returns w \<longleftrightarrow> active_tasks w = 0 \<and> queue w = []"

text \<open>
  The worker takes the oldest request, writes it and counts down; the two steps hold the lock one after the
  other. An exception of the transposition leaves the thread and ends the process. The result of the upload is
  not looked at.
\<close>

datatype writer_event = Submit string record_batch | Take_request | Finish_request | Request_throws | Stop_writer

inductive writer_step :: "slicer \<Rightarrow> writer_event \<Rightarrow> s3_writer \<Rightarrow> s3_writer \<Rightarrow> bool" for slice_n where
  submit: "\<not> terminated w \<Longrightarrow> writer_step slice_n (Submit key batch) w (WriteAsync key batch w)"
| take_request: "\<not> terminated w \<Longrightarrow> in_progress w = None \<Longrightarrow> queue w = r # rs \<Longrightarrow>
    writer_step slice_n Take_request w (w\<lparr>queue := rs, in_progress := Some r\<rparr>)"
| finish_request: "\<not> terminated w \<Longrightarrow> in_progress w = Some (key, batch) \<Longrightarrow> agb_object slice_n batch = Inr data \<Longrightarrow>
    writer_step slice_n Finish_request w
      (w\<lparr>in_progress := None, uploads := uploads w @ [(key, data)], active_tasks := active_tasks w - 1\<rparr>)"
| request_throws: "\<not> terminated w \<Longrightarrow> in_progress w = Some (key, batch) \<Longrightarrow> agb_object slice_n batch = Inl e \<Longrightarrow>
    writer_step slice_n Request_throws w (w\<lparr>terminated := True\<rparr>)"
| stop_writer: "\<not> terminated w \<Longrightarrow> writer_step slice_n Stop_writer w (w\<lparr>stop := True\<rparr>)"

inductive writer_run :: "slicer \<Rightarrow> writer_event list \<Rightarrow> s3_writer \<Rightarrow> bool" for slice_n where
  start: "writer_run slice_n [] new_writer"
| more: "writer_run slice_n es w \<Longrightarrow> writer_step slice_n e w w' \<Longrightarrow> writer_run slice_n (es @ [e]) w'"

inductive_cases writer_stepE: "writer_step slice_n e w w'"

fun submissions :: "writer_event list \<Rightarrow> write_request list" where
  "submissions [] = []"
| "submissions (Submit key batch # es) = (key, batch) # submissions es"
| "submissions (_ # es) = submissions es"

lemma submissions_append: "submissions (xs @ ys) = submissions xs @ submissions ys"
  by (induction xs rule: submissions.induct) simp_all

definition written :: "slicer \<Rightarrow> write_request \<Rightarrow> string \<times> bytes \<Rightarrow> bool" where
  "written slice_n r u \<longleftrightarrow> fst r = fst u \<and> agb_object slice_n (snd r) = Inr (snd u)"

definition open_requests :: "s3_writer \<Rightarrow> write_request list" where
  "open_requests w = (case in_progress w of None \<Rightarrow> [] | Some r \<Rightarrow> [r]) @ queue w"

text \<open>The invariant: every submitted request is written or open, in order, and the counter counts the open ones.\<close>

definition writer_ok :: "slicer \<Rightarrow> write_request list \<Rightarrow> s3_writer \<Rightarrow> bool" where
  "writer_ok slice_n subs w \<longleftrightarrow> active_tasks w = word_of_nat (length (open_requests w)) \<and>
     (\<exists>old. subs = old @ open_requests w \<and> list_all2 (written slice_n) old (uploads w))"

lemma writer_run_ok: "writer_run slice_n es w \<Longrightarrow> writer_ok slice_n (submissions es) w"
proof (induction rule: writer_run.induct)
  case start
  show ?case by (simp add: writer_ok_def new_writer_def open_requests_def)
next
  case (more es w e w')
  obtain old where old: "submissions es = old @ open_requests w" "list_all2 (written slice_n) old (uploads w)"
    and cnt: "active_tasks w = word_of_nat (length (open_requests w))"
    using more.IH by (auto simp: writer_ok_def)
  show ?case using more.hyps(2)
  proof (cases rule: writer_step.cases)
    case (submit key batch)
    then show ?thesis using old cnt by (auto simp: writer_ok_def submissions_append WriteAsync_def open_requests_def)
  next
    case (take_request r rs)
    then show ?thesis using old cnt by (auto simp: writer_ok_def submissions_append open_requests_def)
  next
    case (finish_request key batch data)
    then have "submissions es = (old @ [(key, batch)]) @ queue w" "list_all2 (written slice_n) (old @ [(key, batch)]) (uploads w @ [(key, data)])"
      using old by (auto simp: open_requests_def written_def intro: list_all2_appendI)
    then show ?thesis using finish_request cnt by (auto simp: writer_ok_def submissions_append open_requests_def)
  next
    case (request_throws key batch err)
    then show ?thesis using old cnt by (auto simp: writer_ok_def submissions_append open_requests_def)
  next
    case stop_writer
    then show ?thesis using old cnt by (auto simp: writer_ok_def submissions_append open_requests_def)
  qed
qed

text \<open>
  Property C33. When \<open>Flush\<close> returns, the worker has handed every submitted batch to the uploader, each once, as
  its AGB object and in the order of submission.
\<close>

theorem flush_waits_for_uploads:
  assumes "writer_run slice_n es w" "Flush_returns w" "length (submissions es) < 2 ^ 64"
  shows "list_all2 (written slice_n) (submissions es) (uploads w)"
proof -
  obtain old where old: "submissions es = old @ open_requests w" "list_all2 (written slice_n) old (uploads w)"
    and cnt: "active_tasks w = word_of_nat (length (open_requests w))"
    using writer_run_ok[OF assms(1)] by (auto simp: writer_ok_def)
  have "length (open_requests w) < 2 ^ 64" using old(1) assms(3) by simp
  then have "length (open_requests w) = 0" using cnt assms(2) unat_u64 by (metis Flush_returns_def unat_0)
  then show ?thesis using old by simp
qed

definition demo_ticks :: record_batch where
  "demo_ticks = batch_of 2 [(''ask'', int64_array [Some 10501, Some 7]), (''volume'', int64_array [Some 2001, None])]"

definition copy_slicer :: slicer where
  "copy_slicer temp n = temp"

lemma demo_transposed:
  "TransposeBatch copy_slicer demo_ticks =
    Inr (ExtractScalars (int64_array [Some 10501, Some 7]) 0 2 @ ExtractScalars (int64_array [Some 2001, None]) 0 2)"
  by (simp add: TransposeBatch_def demo_ticks_def batch_of_def tile_planes_def column_scalars_def integer_type_def
      agb_blocks_def copy_slicer_def upt_rec int64_array_def[THEN arg_cong[where f=type_id]])

theorem flush_waits_for_uploads_witness:
  "\<exists>w. writer_run copy_slicer [Submit ''ticks.agb'' demo_ticks, Take_request, Finish_request] w \<and>
    list_all2 (written copy_slicer) [(''ticks.agb'', demo_ticks)] (uploads w)"
proof -
  obtain data where data: "agb_object copy_slicer demo_ticks = Inr data" using demo_transposed by (simp add: agb_object_def)
  let ?r = "(''ticks.agb'', demo_ticks)"
  let ?w1 = "WriteAsync ''ticks.agb'' demo_ticks new_writer"
  let ?w2 = "?w1\<lparr>queue := [], in_progress := Some ?r\<rparr>"
  let ?w3 = "?w2\<lparr>in_progress := None, uploads := uploads ?w2 @ [(''ticks.agb'', data)], active_tasks := active_tasks ?w2 - 1\<rparr>"
  have "writer_step copy_slicer (Submit ''ticks.agb'' demo_ticks) new_writer ?w1"
    by (rule writer_step.submit) (simp add: new_writer_def)
  then have "writer_run copy_slicer ([] @ [Submit ''ticks.agb'' demo_ticks]) ?w1" by (rule writer_run.more[OF writer_run.start])
  moreover have "writer_step copy_slicer Take_request ?w1 ?w2"
    by (rule writer_step.take_request) (simp_all add: new_writer_def WriteAsync_def)
  ultimately have "writer_run copy_slicer (([] @ [Submit ''ticks.agb'' demo_ticks]) @ [Take_request]) ?w2" by (rule writer_run.more)
  moreover have "writer_step copy_slicer Finish_request ?w2 ?w3"
    by (rule writer_step.finish_request[OF _ _ data]) (simp_all add: new_writer_def WriteAsync_def)
  ultimately have run: "writer_run copy_slicer ((([] @ [Submit ''ticks.agb'' demo_ticks]) @ [Take_request]) @ [Finish_request]) ?w3"
    by (rule writer_run.more)
  have "Flush_returns ?w3" by (simp add: Flush_returns_def WriteAsync_def new_writer_def)
  then have "list_all2 (written copy_slicer) [?r] (uploads ?w3)"
    using flush_waits_for_uploads[OF run] by simp
  then show ?thesis using run by auto
qed

text \<open>An upload that fails is not reported: the worker ignores the result of \<open>UploadToS3\<close>.\<close>

lemma express_bucket_of_five: "is_express_bucket ''ab--c''"
  by (simp add: is_express_bucket_def find_from_def is_at_def rfind_def position_def upt_rec)

end
