(* ===== verification/Local_Cache.thy ===== *)
theory Local_Cache
  imports Agb_Storage
begin

text \<open>
  The local cache of \<open>src/local_cache.cpp\<close>: objects of S3 are downloaded once into a directory, mapped into
  memory and kept until they are released. The operating system is the record \<open>os\<close> (files, open descriptors,
  mappings with their contents), its answers to the calls of one operation the record \<open>syscalls\<close>.
\<close>

subsection \<open>State\<close>

record mapped_file =
  map_addr :: u64
  map_size :: nat
  map_fd :: int

record local_cache =
  cache_dir :: string
  s3_endpoint :: string
  s3_bucket :: string
  cached :: "string \<rightharpoonup> mapped_file"

record os =
  disk :: "string \<rightharpoonup> bytes"
  open_fds :: "int set"
  mappings :: "u64 \<rightharpoonup> bytes"

text \<open>
  The code does not look at the stream after its writes: \<open>kept\<close> is what the file system keeps of the bytes of a body.
\<close>

record syscalls =
  curl_ok :: bool
  create_ok :: "string \<Rightarrow> bool"
  http_get :: "string \<Rightarrow> curl_result"
  kept :: "bytes \<Rightarrow> bytes"
  open_fd :: "string \<Rightarrow> int"
  stat_ok :: bool
  map_at :: "u64 option"

datatype cache_error =
    Undefined_url
  | Download_failed string
  | Open_failed string
  | Stat_failed string
  | Map_failed string

definition new_cache :: "string \<Rightarrow> string \<Rightarrow> string \<Rightarrow> local_cache" where
  "new_cache dir endpoint bucket = \<lparr>cache_dir = dir, s3_endpoint = endpoint, s3_bucket = bucket, cached = Map.empty\<rparr>"

text \<open>The file has a copy of the address function of the writer.\<close>

definition cache_GetS3Url :: "string \<Rightarrow> string \<Rightarrow> string \<Rightarrow> string option" where
  "cache_GetS3Url endpoint bucket key = GetS3Url endpoint bucket key"

definition local_path :: "local_cache \<Rightarrow> string \<Rightarrow> string" where
  "local_path c key = cache_dir c @ ''/'' @ key"

subsection \<open>Operations\<close>

text \<open>The body of a response goes to the file piece by piece; after a failure the file is removed.\<close>

definition DownloadFile :: "syscalls \<Rightarrow> local_cache \<Rightarrow> string \<Rightarrow> string \<Rightarrow> os \<Rightarrow> (cache_error + bool) \<times> os" where
  "DownloadFile sys c key path s =
     (if \<not> curl_ok sys then (Inr False, s)
      else case cache_GetS3Url (s3_endpoint c) (s3_bucket c) key of
        None \<Rightarrow> (Inl Undefined_url, s)
      | Some url \<Rightarrow>
          if \<not> create_ok sys path then (Inr False, s)
          else case http_get sys url of
            Curl_response code body \<Rightarrow>
              if code < 200 \<or> 300 \<le> code then (Inr False, s\<lparr>disk := (disk s)(path := None)\<rparr>)
              else (Inr True, s\<lparr>disk := (disk s)(path \<mapsto> kept sys body)\<rparr>)
          | _ \<Rightarrow> (Inr False, s\<lparr>disk := (disk s)(path := None)\<rparr>))"

definition close_fd :: "int \<Rightarrow> os \<Rightarrow> os" where
  "close_fd fd s = s\<lparr>open_fds := open_fds s - {fd}\<rparr>"

text \<open>\<open>mmap\<close> refuses an empty file.\<close>

definition map_local_file :: "syscalls \<Rightarrow> string \<Rightarrow> string \<Rightarrow> local_cache \<Rightarrow> os \<Rightarrow> (cache_error + mapped_file) \<times> local_cache \<times> os" where
  "map_local_file sys key path c s =
     (let fd = open_fd sys path
      in if fd = -1 then (Inl (Open_failed path), c, s)
         else
           (let s1 = s\<lparr>open_fds := insert fd (open_fds s)\<rparr>
            in if \<not> stat_ok sys then (Inl (Stat_failed path), c, close_fd fd s1)
               else
                 (let content = (case disk s path of None \<Rightarrow> [] | Some b \<Rightarrow> b); size = length content
                  in case (if size = 0 then None else map_at sys) of
                       None \<Rightarrow> (Inl (Map_failed path), c, close_fd fd s1)
                     | Some addr \<Rightarrow>
                         (let mapped = \<lparr>map_addr = addr, map_size = size, map_fd = fd\<rparr>
                          in (Inr mapped, c\<lparr>cached := (cached c)(key \<mapsto> mapped)\<rparr>, s1\<lparr>mappings := (mappings s1)(addr \<mapsto> content)\<rparr>)))))"

definition GetOrDownload :: "syscalls \<Rightarrow> string \<Rightarrow> local_cache \<Rightarrow> os \<Rightarrow> (cache_error + mapped_file) \<times> local_cache \<times> os" where
  "GetOrDownload sys key c s =
     (case cached c key of
        Some mapped \<Rightarrow> (Inr mapped, c, s)
      | None \<Rightarrow>
          (let path = local_path c key
           in if disk s path \<noteq> None then map_local_file sys key path c s
              else case DownloadFile sys c key path s of
                (Inl e, s1) \<Rightarrow> (Inl e, c, s1)
              | (Inr False, s1) \<Rightarrow> (Inl (Download_failed key), c, s1)
              | (Inr True, s1) \<Rightarrow> map_local_file sys key path c s1))"

definition unmap :: "mapped_file \<Rightarrow> os \<Rightarrow> os" where
  "unmap m s =
     (let s1 = (if map_addr m \<noteq> 0 then s\<lparr>mappings := (mappings s)(map_addr m := None)\<rparr> else s)
      in if map_fd m \<noteq> -1 then close_fd (map_fd m) s1 else s1)"

definition Release :: "string \<Rightarrow> local_cache \<Rightarrow> os \<Rightarrow> local_cache \<times> os" where
  "Release key c s = (case cached c key of
     None \<Rightarrow> (c, s)
   | Some m \<Rightarrow> (c\<lparr>cached := (cached c)(key := None)\<rparr>, unmap m s))"

text \<open>The destructor gives back what is cached under the keys \<open>keys\<close> of the map, in their order.\<close>

definition destroy_cache :: "string list \<Rightarrow> local_cache \<Rightarrow> os \<Rightarrow> os" where
  "destroy_cache keys c s = fold (\<lambda>key s. case cached c key of None \<Rightarrow> s | Some m \<Rightarrow> unmap m s) keys s"

subsection \<open>The cache owns its resources\<close>

text \<open>
  The descriptors and mappings the process holds are those of the cached objects, no two objects share one, and
  a mapping shows the file of its key.
\<close>

definition cache_ok :: "local_cache \<Rightarrow> os \<Rightarrow> bool" where
  "cache_ok c s \<longleftrightarrow> open_fds s = map_fd ` ran (cached c) \<and> dom (mappings s) = map_addr ` ran (cached c) \<and>
     (\<forall>k m. cached c k = Some m \<longrightarrow> map_addr m \<noteq> 0 \<and> map_fd m \<noteq> -1 \<and>
        mappings s (map_addr m) = disk s (local_path c k) \<and> disk s (local_path c k) \<noteq> None) \<and>
     (\<forall>k m k' m'. cached c k = Some m \<longrightarrow> cached c k' = Some m' \<longrightarrow> map_fd m = map_fd m' \<or> map_addr m = map_addr m' \<longrightarrow> k = k')"

text \<open>What the system promises: new descriptors and addresses are not in use.\<close>

definition fresh_answers :: "syscalls \<Rightarrow> os \<Rightarrow> bool" where
  "fresh_answers sys s \<longleftrightarrow> (\<forall>path. open_fd sys path \<notin> open_fds s) \<and>
     (\<forall>a. map_at sys = Some a \<longrightarrow> a \<noteq> 0 \<and> a \<notin> dom (mappings s))"

lemma cache_okI:
  assumes "open_fds s = map_fd ` ran (cached c)" "dom (mappings s) = map_addr ` ran (cached c)"
    and "\<And>k m. cached c k = Some m \<Longrightarrow> map_addr m \<noteq> 0 \<and> map_fd m \<noteq> -1 \<and>
        mappings s (map_addr m) = disk s (local_path c k) \<and> disk s (local_path c k) \<noteq> None"
    and "\<And>k m k' m'. cached c k = Some m \<Longrightarrow> cached c k' = Some m' \<Longrightarrow> map_fd m = map_fd m' \<or> map_addr m = map_addr m' \<Longrightarrow> k = k'"
  shows "cache_ok c s"
  using assms unfolding cache_ok_def by blast

lemma cache_okD:
  assumes "cache_ok c s"
  shows "open_fds s = map_fd ` ran (cached c)" "dom (mappings s) = map_addr ` ran (cached c)"
    and "cached c k = Some m \<Longrightarrow> map_addr m \<noteq> 0 \<and> map_fd m \<noteq> -1 \<and>
        mappings s (map_addr m) = disk s (local_path c k) \<and> disk s (local_path c k) \<noteq> None"
    and "cached c k = Some m \<Longrightarrow> cached c k' = Some m' \<Longrightarrow> map_fd m = map_fd m' \<or> map_addr m = map_addr m' \<Longrightarrow> k = k'"
  using assms unfolding cache_ok_def by blast+

lemma local_path_inject [simp]: "local_path c k = local_path c k' \<longleftrightarrow> k = k'"
  by (simp add: local_path_def)

lemma local_path_update [simp]: "local_path (c\<lparr>cached := m\<rparr>) k = local_path c k"
  by (simp add: local_path_def)

lemma cache_ok_disk:
  assumes "cache_ok c s" "disk s (local_path c key) = None"
  shows "cache_ok c (s\<lparr>disk := (disk s)(local_path c key := x)\<rparr>)"
proof -
  have key: "k \<noteq> key" if "cached c k = Some m" for k m using cache_okD(3)[OF assms(1) that] assms(2) by blast
  show ?thesis
  proof (rule cache_okI)
    fix k m assume m: "cached c k = Some m"
    show "map_addr m \<noteq> 0 \<and> map_fd m \<noteq> -1 \<and>
        mappings (s\<lparr>disk := (disk s)(local_path c key := x)\<rparr>) (map_addr m) = disk (s\<lparr>disk := (disk s)(local_path c key := x)\<rparr>) (local_path c k) \<and>
        disk (s\<lparr>disk := (disk s)(local_path c key := x)\<rparr>) (local_path c k) \<noteq> None"
      using cache_okD(3)[OF assms(1) m] key[OF m] by simp
  qed (use cache_okD(1,2,4)[OF assms(1)] in simp_all)
qed

lemma map_local_file_ok:
  assumes ok: "cache_ok c s" and fresh: "fresh_answers sys s" and new: "cached c key = None"
    and there: "disk s (local_path c key) \<noteq> None"
    and step: "map_local_file sys key (local_path c key) c s = (r, c', s')"
  shows "cache_ok c' s' \<and> disk s' = disk s \<and>
    (case r of Inr m \<Rightarrow> cached c' key = Some m \<and> mappings s' (map_addr m) = disk s (local_path c key)
     | Inl e \<Rightarrow> c' = c \<and> s' = s)"
proof -
  let ?path = "local_path c key"
  let ?fd = "open_fd sys ?path"
  have fd: "?fd \<notin> open_fds s" using fresh by (simp add: fresh_answers_def)
  then have closed: "close_fd ?fd (s\<lparr>open_fds := insert ?fd (open_fds s)\<rparr>) = s" by (simp add: close_fd_def)
  obtain body where body: "disk s ?path = Some body" using there by blast
  consider "?fd = -1 \<or> \<not> stat_ok sys \<or> body = [] \<or> map_at sys = None"
    | a where "?fd \<noteq> -1" "stat_ok sys" "body \<noteq> []" "map_at sys = Some a" by auto
  then show ?thesis
  proof cases
    case 1
    then have "c' = c \<and> s' = s \<and> (\<exists>e. r = Inl e)"
      using step closed body by (auto simp: map_local_file_def Let_def split: if_splits option.splits)
    then show ?thesis using ok by auto
  next
    case (2 a)
    let ?m = "\<lparr>map_addr = a, map_size = length body, map_fd = ?fd\<rparr>"
    have r: "r = Inr ?m" and c': "c' = c\<lparr>cached := (cached c)(key \<mapsto> ?m)\<rparr>"
      and s': "s' = s\<lparr>open_fds := insert ?fd (open_fds s), mappings := (mappings s)(a \<mapsto> body)\<rparr>"
      using step 2 by (auto simp: map_local_file_def Let_def body)
    have a: "a \<noteq> 0" "a \<notin> dom (mappings s)" using fresh 2(4) by (auto simp: fresh_answers_def)
    have used: "map_fd m \<noteq> ?fd \<and> map_addr m \<noteq> a" if "cached c k = Some m" for k m
      using cache_okD(1,2)[OF ok] fd a(2) that by (metis imageI ranI)
    have "cache_ok c' s'"
    proof (rule cache_okI)
      show "open_fds s' = map_fd ` ran (cached c')" "dom (mappings s') = map_addr ` ran (cached c')"
        using cache_okD(1,2)[OF ok] new by (simp_all add: c' s' ran_map_upd)
      fix k m assume k: "cached c' k = Some m"
      show "map_addr m \<noteq> 0 \<and> map_fd m \<noteq> -1 \<and> mappings s' (map_addr m) = disk s' (local_path c' k) \<and> disk s' (local_path c' k) \<noteq> None"
        using k cache_okD(3)[OF ok, of k m] used[of k m] a(1) 2(1) body by (cases "k = key") (auto simp: c' s')
      fix k' m' assume "cached c' k' = Some m'" "map_fd m = map_fd m' \<or> map_addr m = map_addr m'"
      then show "k = k'" using k cache_okD(4)[OF ok, of k m k' m'] used[of k m] used[of k' m']
        by (cases "k = key"; cases "k' = key") (auto simp: c')
    qed
    then show ?thesis by (simp add: r c' s' body)
  qed
qed

lemma unmap_ok:
  assumes ok: "cache_ok c s" and m: "cached c key = Some m"
  shows "cache_ok (c\<lparr>cached := (cached c)(key := None)\<rparr>) (unmap m s)"
proof -
  have um: "unmap m s = s\<lparr>mappings := (mappings s)(map_addr m := None), open_fds := open_fds s - {map_fd m}\<rparr>"
    using cache_okD(3)[OF ok m] by (simp add: unmap_def close_fd_def)
  have others: "map_fd m' \<noteq> map_fd m \<and> map_addr m' \<noteq> map_addr m" if "cached c k = Some m'" "k \<noteq> key" for k m'
    using cache_okD(4)[OF ok that(1) m] that(2) by blast
  have ran: "m' \<in> ran ((cached c)(key := None)) \<longleftrightarrow> m' \<in> ran (cached c) \<and> map_fd m' \<noteq> map_fd m \<and> map_addr m' \<noteq> map_addr m" for m'
    using others m by (auto simp: ran_def) (metis option.inject)+
  have same: "map_fd m' = map_fd m \<longleftrightarrow> map_addr m' = map_addr m" if "m' \<in> ran (cached c)" for m'
    using that others m by (auto simp: ran_def) (metis option.inject)+
  show ?thesis
  proof (rule cache_okI)
    show "open_fds (unmap m s) = map_fd ` ran (cached (c\<lparr>cached := (cached c)(key := None)\<rparr>))"
      using cache_okD(1)[OF ok] same by (auto simp: um ran)
    show "dom (mappings (unmap m s)) = map_addr ` ran (cached (c\<lparr>cached := (cached c)(key := None)\<rparr>))"
      using cache_okD(2)[OF ok] same by (auto simp: um ran)
    fix k m' assume k: "cached (c\<lparr>cached := (cached c)(key := None)\<rparr>) k = Some m'"
    then have k': "cached c k = Some m'" "k \<noteq> key" by (auto split: if_splits)
    then show "map_addr m' \<noteq> 0 \<and> map_fd m' \<noteq> -1 \<and> mappings (unmap m s) (map_addr m') =
        disk (unmap m s) (local_path (c\<lparr>cached := (cached c)(key := None)\<rparr>) k) \<and>
        disk (unmap m s) (local_path (c\<lparr>cached := (cached c)(key := None)\<rparr>) k) \<noteq> None"
      using cache_okD(3)[OF ok k'(1)] others[OF k'] by (simp add: um)
    fix j n assume "cached (c\<lparr>cached := (cached c)(key := None)\<rparr>) j = Some n" "map_fd m' = map_fd n \<or> map_addr m' = map_addr n"
    then show "k = j" using cache_okD(4)[OF ok k'(1)] by (auto split: if_splits)
  qed
qed

text \<open>What a lookup must leave.\<close>

definition lookup_ok :: "string \<Rightarrow> local_cache \<Rightarrow> os \<Rightarrow> (cache_error + mapped_file) \<times> local_cache \<times> os \<Rightarrow> bool" where
  "lookup_ok key c s z = (case z of (r, c', s') \<Rightarrow> cache_ok c' s' \<and>
    (case r of Inr m \<Rightarrow> cached c' key = Some m \<and> mappings s' (map_addr m) = disk s' (local_path c key)
     | Inl e \<Rightarrow> c' = c \<and> open_fds s' = open_fds s \<and> mappings s' = mappings s))"

lemma map_local_file_result:
  assumes "cache_ok c s" "fresh_answers sys s" "cached c key = None" "disk s (local_path c key) \<noteq> None"
    "map_local_file sys key (local_path c key) c s = (r, c', s')"
  shows "lookup_ok key c s (r, c', s')"
proof (cases r)
  case (Inl e)
  then show ?thesis using map_local_file_ok[OF assms] assms(1) by (simp add: lookup_ok_def)
next
  case (Inr m)
  then show ?thesis using map_local_file_ok[OF assms] by (simp add: lookup_ok_def)
qed

lemma DownloadFile_disk:
  assumes "DownloadFile sys c key path s = (q, s1)"
  shows "(s1 = s \<or> (\<exists>x. s1 = s\<lparr>disk := (disk s)(path := x)\<rparr>)) \<and> (q = Inr True \<longrightarrow> disk s1 path \<noteq> None)"
  using assms by (auto simp: DownloadFile_def split: if_splits option.splits curl_result.splits)

lemma GetOrDownload_ok:
  assumes "cache_ok c s" "fresh_answers sys s" "GetOrDownload sys key c s = (r, c', s')"
  shows "lookup_ok key c s (r, c', s')"
proof -
  let ?path = "local_path c key"
  consider m where "cached c key = Some m" | "cached c key = None" "disk s ?path \<noteq> None" | "cached c key = None" "disk s ?path = None"
    by blast
  then show ?thesis
  proof cases
    case (1 m)
    then have "r = Inr m" "c' = c" "s' = s" using assms(3) by (simp_all add: GetOrDownload_def)
    then show ?thesis using 1 assms(1) cache_okD(3)[OF assms(1) 1] by (simp add: lookup_ok_def)
  next
    case 2
    then have "map_local_file sys key ?path c s = (r, c', s')" using assms(3) by (auto simp: GetOrDownload_def Let_def)
    then show ?thesis by (rule map_local_file_result[OF assms(1,2) 2])
  next
    case 3
    obtain q s1 where D: "DownloadFile sys c key ?path s = (q, s1)" by fastforce
    note s1 = DownloadFile_disk[OF D]
    have ok1: "cache_ok c s1" using s1 cache_ok_disk[OF assms(1) 3(2)] assms(1) by blast
    have same: "open_fds s1 = open_fds s" "mappings s1 = mappings s" using s1 by auto
    have fresh: "fresh_answers sys s1" using assms(2) same by (simp add: fresh_answers_def)
    show ?thesis
    proof (cases "q = Inr True")
      case True
      then have "map_local_file sys key ?path c s1 = (r, c', s')" using assms(3) 3 D by (simp add: GetOrDownload_def)
      from map_local_file_result[OF ok1 fresh 3(1) _ this] True s1 have "lookup_ok key c s1 (r, c', s')" by blast
      then show ?thesis using same by (cases r) (auto simp: lookup_ok_def)
    next
      case False
      then have "c' = c \<and> s' = s1 \<and> (\<exists>e. r = Inl e)"
        using assms(3) 3 D by (cases q) (auto simp: GetOrDownload_def)
      then show ?thesis using ok1 same by (auto simp: lookup_ok_def)
    qed
  qed
qed

text \<open>
  Property C34. The cache leaks nothing and shows the right object: whatever the system answers, after a lookup,
  successful or failed at any call, and after a release the process holds exactly the descriptors and mappings of
  the cached objects; a successful lookup maps the file of its key, and a failed one changes neither the cache nor
  the resources.
\<close>

theorem cache_owns_resources:
  assumes "cache_ok c s" "fresh_answers sys s" "GetOrDownload sys key c s = (r, c', s')"
  shows "cache_ok c' s' \<and> (case Release key' c s of (c'', s'') \<Rightarrow> cache_ok c'' s'') \<and>
    (case r of Inr m \<Rightarrow> cached c' key = Some m \<and> mappings s' (map_addr m) = disk s' (local_path c key)
     | Inl e \<Rightarrow> c' = c \<and> open_fds s' = open_fds s \<and> mappings s' = mappings s)"
proof -
  have "case Release key' c s of (c'', s'') \<Rightarrow> cache_ok c'' s''"
    using assms(1) unmap_ok[OF assms(1)] by (auto simp: Release_def split: option.split)
  then show ?thesis using GetOrDownload_ok[OF assms] by (simp add: lookup_ok_def)
qed

definition demo_sys :: "bytes \<Rightarrow> syscalls" where
  "demo_sys body = \<lparr>curl_ok = True, create_ok = (\<lambda>_. True), http_get = (\<lambda>_. Curl_response 200 body), kept = id,
     open_fd = (\<lambda>_. 5), stat_ok = True, map_at = Some 4096\<rparr>"

definition empty_os :: os where
  "empty_os = \<lparr>disk = Map.empty, open_fds = {}, mappings = Map.empty\<rparr>"

definition demo_cache :: local_cache where
  "demo_cache = new_cache ''/tmp'' ''http://s3:9000'' ''ticks''"

lemma demo_cache_ok: "cache_ok demo_cache empty_os" "fresh_answers (demo_sys body) empty_os"
  by (simp_all add: cache_ok_def demo_cache_def new_cache_def empty_os_def fresh_answers_def demo_sys_def)

theorem cache_owns_resources_witness:
  "\<exists>m c' s'. GetOrDownload (demo_sys ''x'') ''k'' demo_cache empty_os = (Inr m, c', s') \<and> cache_ok c' s' \<and>
    mappings s' (map_addr m) = Some ''x''"
proof -
  let ?m = "\<lparr>map_addr = 4096, map_size = 1, map_fd = 5\<rparr>"
  have "find_first ''ticks'' ''--'' = None" by (simp add: find_from_def is_at_def upt_rec)
  then have url: "cache_GetS3Url ''http://s3:9000'' ''ticks'' ''k'' = Some ''http://s3:9000/ticks/k''"
    by (simp add: cache_GetS3Url_def GetS3Url_def is_express_bucket_def)
  let ?c' = "demo_cache\<lparr>cached := [''k'' \<mapsto> ?m]\<rparr>"
  let ?s' = "empty_os\<lparr>disk := [''/tmp/k'' \<mapsto> ''x''], open_fds := {5}, mappings := [4096 \<mapsto> ''x'']\<rparr>"
  have "GetOrDownload (demo_sys ''x'') ''k'' demo_cache empty_os = (Inr ?m, ?c', ?s')"
    using url by (simp add: GetOrDownload_def DownloadFile_def map_local_file_def demo_cache_def new_cache_def demo_sys_def
        empty_os_def local_path_def Let_def)
  then show ?thesis using cache_owns_resources[OF demo_cache_ok] by (fastforce simp: empty_os_def)
qed

end
