(* ===== verification/Sql_Parser.thy ===== *)
theory Sql_Parser
  imports Std_String
begin

text \<open>
  The predicate parser of \<open>src/sql_parser.cpp\<close>: a tokenizer and a recursive descent over the tokens that
  builds nodes of the query engine. The engine is third-party code: its node builder is a record of
  functions, and the parser is a function of it. The position in the token vector is the list of the tokens
  that remain.
\<close>

subsection \<open>Tokens\<close>

datatype token_type = IDENTIFIER | NUMBER | AND_WORD | GT_SIGN | LT_SIGN | GE_SIGN | LE_SIGN | EQ_SIGN | LPAREN | RPAREN | END_MARK

type_synonym token = "token_type \<times> string"

datatype sql_error =
    Unexpected_character char
  | Trailing_tokens
  | Unexpected_end
  | Mismatched_parentheses
  | Unexpected_token string
  | Number_out_of_range string
  | Out_of_fuel

definition is_alpha :: "char \<Rightarrow> bool" where
  "is_alpha c \<longleftrightarrow> (CHR ''A'' \<le> c \<and> c \<le> CHR ''Z'') \<or> (CHR ''a'' \<le> c \<and> c \<le> CHR ''z'')"

definition is_word_start :: "char \<Rightarrow> bool" where
  "is_word_start c \<longleftrightarrow> is_alpha c \<or> c = CHR ''_''"

definition is_word_char :: "char \<Rightarrow> bool" where
  "is_word_char c \<longleftrightarrow> is_alpha c \<or> is_digit c \<or> c = CHR ''_''"

definition toupper_char :: "char \<Rightarrow> char" where
  "toupper_char c = (if CHR ''a'' \<le> c \<and> c \<le> CHR ''z'' then char_of (of_char c - 32 :: nat) else c)"

definition word_token :: "string \<Rightarrow> token" where
  "word_token word = (if map toupper_char word = ''AND'' then (AND_WORD, ''AND'') else (IDENTIFIER, word))"

text \<open>The tokenizer, on the characters that remain.\<close>

function (sequential) Tokenize :: "string \<Rightarrow> sql_error + token list" where
  "Tokenize [] = Inr [(END_MARK, [])]"
| "Tokenize (c # cs) =
     (if is_space c then Tokenize cs
      else if c = CHR ''('' then ebind (Tokenize cs) (\<lambda>ts. Inr ((LPAREN, ''('') # ts))
      else if c = CHR '')'' then ebind (Tokenize cs) (\<lambda>ts. Inr ((RPAREN, '')'') # ts))
      else if c = CHR ''>'' then
        (if cs \<noteq> [] \<and> hd cs = CHR ''='' then ebind (Tokenize (tl cs)) (\<lambda>ts. Inr ((GE_SIGN, ''>='') # ts))
         else ebind (Tokenize cs) (\<lambda>ts. Inr ((GT_SIGN, ''>'') # ts)))
      else if c = CHR ''<'' then
        (if cs \<noteq> [] \<and> hd cs = CHR ''='' then ebind (Tokenize (tl cs)) (\<lambda>ts. Inr ((LE_SIGN, ''<='') # ts))
         else ebind (Tokenize cs) (\<lambda>ts. Inr ((LT_SIGN, ''<'') # ts)))
      else if c = CHR ''='' then ebind (Tokenize cs) (\<lambda>ts. Inr ((EQ_SIGN, ''='') # ts))
      else if is_digit c then
        ebind (Tokenize (dropWhile is_digit cs)) (\<lambda>ts. Inr ((NUMBER, c # takeWhile is_digit cs) # ts))
      else if is_word_start c then
        ebind (Tokenize (dropWhile is_word_char cs)) (\<lambda>ts. Inr (word_token (c # takeWhile is_word_char cs) # ts))
      else Inl (Unexpected_character c))"
  by pat_completeness auto
termination
  by (relation "measure length") (auto simp: le_imp_less_Suc length_dropWhile_le)

subsection \<open>Recursive descent\<close>

record 'n node_builder =
  build_Load :: "string \<Rightarrow> 'n"
  build_Const :: "int \<Rightarrow> 'n"
  build_And :: "'n \<Rightarrow> 'n \<Rightarrow> 'n"
  build_GT :: "'n \<Rightarrow> 'n \<Rightarrow> 'n"
  build_LT :: "'n \<Rightarrow> 'n \<Rightarrow> 'n"
  build_GE :: "'n \<Rightarrow> 'n \<Rightarrow> 'n"
  build_LE :: "'n \<Rightarrow> 'n \<Rightarrow> 'n"
  build_EQ :: "'n \<Rightarrow> 'n \<Rightarrow> 'n"

fun comparison :: "'n node_builder \<Rightarrow> token_type \<Rightarrow> ('n \<Rightarrow> 'n \<Rightarrow> 'n) option" where
  "comparison b GT_SIGN = Some (build_GT b)"
| "comparison b LT_SIGN = Some (build_LT b)"
| "comparison b GE_SIGN = Some (build_GE b)"
| "comparison b LE_SIGN = Some (build_LE b)"
| "comparison b EQ_SIGN = Some (build_EQ b)"
| "comparison b _ = None"

text \<open>\<open>std::stoll\<close> of a string of digits.\<close>

definition stoll :: "string \<Rightarrow> sql_error + int" where
  "stoll s = (if digits_value 0 s < 2 ^ 63 then Inr (int (digits_value 0 s)) else Inl (Number_out_of_range s))"

type_synonym 'n parsed = "sql_error + 'n \<times> token list"

definition next_type :: "token list \<Rightarrow> token_type" where
  "next_type ts = (case ts of [] \<Rightarrow> END_MARK | t # _ \<Rightarrow> fst t)"

function (sequential) ParseExpression :: "nat \<Rightarrow> 'n node_builder \<Rightarrow> token list \<Rightarrow> 'n parsed"
  and expression_loop :: "nat \<Rightarrow> 'n node_builder \<Rightarrow> 'n \<Rightarrow> token list \<Rightarrow> 'n parsed"
  and ParseTerm :: "nat \<Rightarrow> 'n node_builder \<Rightarrow> token list \<Rightarrow> 'n parsed"
  and ParsePrimary :: "nat \<Rightarrow> 'n node_builder \<Rightarrow> token list \<Rightarrow> 'n parsed" where
  "ParseExpression 0 b ts = Inl Out_of_fuel"
| "ParseExpression (Suc k) b ts = ebind (ParseTerm k b ts) (\<lambda>(node, ts1). expression_loop k b node ts1)"
| "expression_loop 0 b node ts = Inl Out_of_fuel"
| "expression_loop (Suc k) b node ts =
     (if next_type ts = AND_WORD then
        ebind (ParseTerm k b (tl ts)) (\<lambda>(right, ts1). expression_loop k b (build_And b node right) ts1)
      else Inr (node, ts))"
| "ParseTerm 0 b ts = Inl Out_of_fuel"
| "ParseTerm (Suc k) b ts = ebind (ParsePrimary k b ts) (\<lambda>(left, ts1).
     case comparison b (next_type ts1) of
       None \<Rightarrow> Inr (left, ts1)
     | Some f \<Rightarrow> ebind (ParsePrimary k b (tl ts1)) (\<lambda>(right, ts2). Inr (f left right, ts2)))"
| "ParsePrimary 0 b ts = Inl Out_of_fuel"
| "ParsePrimary (Suc k) b ts =
     (case ts of
        [] \<Rightarrow> Inl Unexpected_end
      | (t, s) # ts1 \<Rightarrow>
          if t = LPAREN then
            ebind (ParseExpression k b ts1) (\<lambda>(node, ts2).
              if next_type ts2 = RPAREN then Inr (node, tl ts2) else Inl Mismatched_parentheses)
          else if t = IDENTIFIER then Inr (build_Load b s, ts1)
          else if t = NUMBER then ebind (stoll s) (\<lambda>v. Inr (build_Const b v, ts1))
          else Inl (Unexpected_token s))"
  by pat_completeness auto
termination
  by (relation "measure (case_sum (case_sum (\<lambda>(k, _). k) (\<lambda>(k, _). k)) (case_sum (\<lambda>(k, _). k) (\<lambda>(k, _). k)))") auto

definition parse_fuel :: "token list \<Rightarrow> nat" where
  "parse_fuel ts = 4 * length ts + 4"

definition Parse :: "'n node_builder \<Rightarrow> string \<Rightarrow> sql_error + 'n" where
  "Parse b sql_predicate =
     ebind (Tokenize sql_predicate) (\<lambda>ts.
       ebind (ParseExpression (parse_fuel ts) b ts) (\<lambda>(root, rest).
         if next_type rest \<noteq> END_MARK then Inl Trailing_tokens else Inr root))"

subsection \<open>The fuel is enough\<close>

text \<open>
  Every parser consumes a token, so the calls nest at most four deep per token: with the fuel of \<open>Parse\<close>
  they never run out, and what remains is shorter than the input by at least \<open>d\<close> tokens.
\<close>

definition consumes :: "nat \<Rightarrow> token list \<Rightarrow> 'n parsed \<Rightarrow> bool" where
  "consumes d ts r \<longleftrightarrow> (case r of Inl e \<Rightarrow> e \<noteq> Out_of_fuel | Inr (node, rest) \<Rightarrow> length rest + d \<le> length ts)"

lemma consumes_Inl [simp]: "consumes d ts (Inl e) \<longleftrightarrow> e \<noteq> Out_of_fuel"
  and consumes_Inr [simp]: "consumes d ts (Inr (node, rest)) \<longleftrightarrow> length rest + d \<le> length ts"
  by (simp_all add: consumes_def)

lemma consumes_bind:
  assumes "consumes d ts m" "\<And>node rest. m = Inr (node, rest) \<Longrightarrow> length rest + d \<le> length ts \<Longrightarrow> consumes d' ts' (f (node, rest))"
  shows "consumes d' ts' (ebind m f)"
  using assms by (cases m) auto

lemma consumes_shorter: "consumes d ts r \<Longrightarrow> length ts + d' \<le> length ts' + d \<Longrightarrow> consumes d' ts' r"
  by (cases r) auto

lemma length_tl_next: "next_type ts \<noteq> END_MARK \<Longrightarrow> Suc (length (tl ts)) = length ts"
  by (cases ts) (simp_all add: next_type_def)

lemma comparison_next: "comparison b (next_type ts) = Some f \<Longrightarrow> Suc (length (tl ts)) = length ts"
  by (rule length_tl_next) auto

lemma parsers_consume:
  "4 * length ts + 3 \<le> k \<Longrightarrow> consumes 1 ts (ParseExpression k b ts)"
  "4 * length ts + 3 \<le> k \<Longrightarrow> consumes 0 ts (expression_loop k b node ts)"
  "4 * length ts + 2 \<le> k \<Longrightarrow> consumes 1 ts (ParseTerm k b ts)"
  "4 * length ts + 1 \<le> k \<Longrightarrow> consumes 1 ts (ParsePrimary k b ts)"
proof (induction k b ts and k b node ts and k b ts and k b ts rule: ParseExpression_expression_loop_ParseTerm_ParsePrimary.induct)
  case (2 k b ts)
  have "consumes 1 ts (ParseTerm k b ts)" using 2 by simp
  then show ?case unfolding ParseExpression.simps
  proof (rule consumes_bind)
    fix node rest assume "ParseTerm k b ts = Inr (node, rest)" "length rest + 1 \<le> length ts"
    then show "consumes 1 ts (case (node, rest) of (node, ts1) \<Rightarrow> expression_loop k b node ts1)"
      using 2 by (auto intro: consumes_shorter[where d=0 and ts=rest])
  qed
next
  case (4 k b node ts)
  show ?case
  proof (cases "next_type ts = AND_WORD")
    case True
    then have len: "Suc (length (tl ts)) = length ts" by (intro length_tl_next) simp
    have "consumes 1 (tl ts) (ParseTerm k b (tl ts))" using 4(1)[OF True] 4(3) len by simp
    then have "consumes 0 ts (ebind (ParseTerm k b (tl ts)) (\<lambda>(right, ts1). expression_loop k b (build_And b node right) ts1))"
    proof (rule consumes_bind)
      fix right rest assume R: "ParseTerm k b (tl ts) = Inr (right, rest)" "length rest + 1 \<le> length (tl ts)"
      then have "consumes 0 rest (expression_loop k b (build_And b node right) rest)" using 4(2)[OF True] 4(3) len by simp
      then show "consumes 0 ts (case (right, rest) of (right, ts1) \<Rightarrow> expression_loop k b (build_And b node right) ts1)"
        using R(2) by (auto intro: consumes_shorter)
    qed
    then show ?thesis using True by simp
  qed simp
next
  case (6 k b ts)
  have "consumes 1 ts (ParsePrimary k b ts)" using 6 by simp
  then show ?case unfolding ParseTerm.simps
  proof (rule consumes_bind)
    fix left rest assume R: "ParsePrimary k b ts = Inr (left, rest)" "length rest + 1 \<le> length ts"
    show "consumes 1 ts (case (left, rest) of (left, ts1) \<Rightarrow> case comparison b (next_type ts1) of None \<Rightarrow> Inr (left, ts1)
        | Some f \<Rightarrow> ebind (ParsePrimary k b (tl ts1)) (\<lambda>(right, ts2). Inr (f left right, ts2)))"
    proof (cases "comparison b (next_type rest)")
      case (Some f)
      have "consumes 1 (tl rest) (ParsePrimary k b (tl rest))"
        using 6(2)[OF Some] 6(3) R(2) comparison_next[OF Some] by simp
      then have "consumes 1 ts (ebind (ParsePrimary k b (tl rest)) (\<lambda>(right, ts2). Inr (f left right, ts2)))"
        using R(2) comparison_next[OF Some] by (auto intro: consumes_bind)
      then show ?thesis using Some by simp
    qed (use R(2) in simp)
  qed
next
  case (8 k b ts)
  show ?case
  proof (cases ts)
    case (Cons t ts1)
    obtain ty s where t: "t = (ty, s)" by (cases t)
    have "consumes 1 ts (ebind (ParseExpression k b ts1) (\<lambda>(node, ts2).
        if next_type ts2 = RPAREN then Inr (node, tl ts2) else Inl Mismatched_parentheses))" if "ty = LPAREN"
    proof (rule consumes_bind)
      show "consumes 1 ts1 (ParseExpression k b ts1)" using 8(1)[OF Cons t[symmetric] that] 8(2) Cons by simp
    qed (auto simp: Cons)
    then show ?thesis by (auto simp: Cons t stoll_def)
  qed simp
qed simp_all

text \<open>More fuel changes no result.\<close>

lemma ebind_mono:
  assumes "ebind m f \<noteq> Inl Out_of_fuel" "m \<noteq> Inl Out_of_fuel \<Longrightarrow> m' = m"
    "\<And>a. m = Inr a \<Longrightarrow> f a \<noteq> Inl Out_of_fuel \<Longrightarrow> f' a = f a"
  shows "ebind m' f' = ebind m f"
  using assms by (cases m) auto

lemma more_fuel:
  "ParseExpression k b ts \<noteq> Inl Out_of_fuel \<Longrightarrow> ParseExpression (Suc k) b ts = ParseExpression k b ts"
  "expression_loop k b node ts \<noteq> Inl Out_of_fuel \<Longrightarrow> expression_loop (Suc k) b node ts = expression_loop k b node ts"
  "ParseTerm k b ts \<noteq> Inl Out_of_fuel \<Longrightarrow> ParseTerm (Suc k) b ts = ParseTerm k b ts"
  "ParsePrimary k b ts \<noteq> Inl Out_of_fuel \<Longrightarrow> ParsePrimary (Suc k) b ts = ParsePrimary k b ts"
proof (induction k b ts and k b node ts and k b ts and k b ts rule: ParseExpression_expression_loop_ParseTerm_ParsePrimary.induct)
  case (2 k b ts)
  then show ?case unfolding ParseExpression.simps by (intro ebind_mono) (auto simp del: expression_loop.simps ParseTerm.simps)
next
  case (4 k b node ts)
  show ?case
  proof (cases "next_type ts = AND_WORD")
    case True
    then have e: "expression_loop (Suc j) b node ts =
        ebind (ParseTerm j b (tl ts)) (\<lambda>(right, ts1). expression_loop j b (build_And b node right) ts1)" for j by simp
    show ?thesis unfolding e
      by (rule ebind_mono[OF 4(3)[unfolded e] 4(1)[OF True]]) (auto simp del: expression_loop.simps intro!: 4(2)[OF True])
  qed simp
next
  case (6 k b ts)
  show ?case unfolding ParseTerm.simps(2)
    by (rule ebind_mono[OF 6(3)[unfolded ParseTerm.simps(2)] 6(1)])
      (auto simp del: ParsePrimary.simps split: option.splits intro!: ebind_mono 6(2))
next
  case (8 k b ts)
  then show ?case unfolding ParsePrimary.simps(2)
    by (auto simp del: ParseExpression.simps split: list.splits if_splits prod.splits intro!: ebind_mono)
qed simp_all

lemma enough_fuel:
  "ParseExpression (parse_fuel ts + j) b ts = ParseExpression (parse_fuel ts) b ts"
  "ParseExpression (parse_fuel ts) b ts \<noteq> Inl Out_of_fuel"
proof -
  have fine: "ParseExpression (parse_fuel ts + j) b ts \<noteq> Inl Out_of_fuel" for j
    using parsers_consume(1)[of ts "parse_fuel ts + j" b] by (auto simp: parse_fuel_def)
  have "ParseExpression (Suc (parse_fuel ts + j)) b ts = ParseExpression (parse_fuel ts + j) b ts" for j
    by (rule more_fuel(1)[OF fine])
  then show "ParseExpression (parse_fuel ts + j) b ts = ParseExpression (parse_fuel ts) b ts"
    by (induction j) (simp_all del: ParseExpression.simps)
  show "ParseExpression (parse_fuel ts) b ts \<noteq> Inl Out_of_fuel" using fine[of 0] by simp
qed

lemma Tokenize_error: "Tokenize s = Inl e \<Longrightarrow> \<exists>c. e = Unexpected_character c"
  by (induction s arbitrary: e rule: Tokenize.induct) (auto simp: ebind_eq_Inl split: if_splits)

text \<open>
  Property C32. The parser returns on every input: the fuel of the model is never used up, more of it gives the
  same result, and so every text is either parsed or refused with one of the parser's own errors.
\<close>

theorem parser_terminates:
  "Parse b s \<noteq> Inl Out_of_fuel \<and> ParseExpression (parse_fuel ts + j) b ts = ParseExpression (parse_fuel ts) b ts"
  using enough_fuel(1)[of ts j b] enough_fuel(2)[of _ b] Tokenize_error[of s]
  by (fastforce simp: Parse_def ebind_eq_Inl split: if_splits)

subsection \<open>Predicates and their text\<close>

datatype cmp_op = Op_GT | Op_LT | Op_GE | Op_LE | Op_EQ

datatype sql_expr =
    Column string
  | Constant nat
  | Compare cmp_op sql_expr sql_expr
  | Conj sql_expr sql_expr

fun op_token :: "cmp_op \<Rightarrow> token" where
  "op_token Op_GT = (GT_SIGN, ''>'')"
| "op_token Op_LT = (LT_SIGN, ''<'')"
| "op_token Op_GE = (GE_SIGN, ''>='')"
| "op_token Op_LE = (LE_SIGN, ''<='')"
| "op_token Op_EQ = (EQ_SIGN, ''='')"

fun build :: "'n node_builder \<Rightarrow> sql_expr \<Rightarrow> 'n" where
  "build b (Column s) = build_Load b s"
| "build b (Constant n) = build_Const b (int n)"
| "build b (Compare c l r) = the (comparison b (fst (op_token c))) (build b l) (build b r)"
| "build b (Conj l r) = build_And b (build b l) (build b r)"

definition parens :: "bool \<Rightarrow> token list \<Rightarrow> token list" where
  "parens p ts = (if p then (LPAREN, ''('') # ts @ [(RPAREN, '')'')] else ts)"

text \<open>Printing with as few parentheses as the grammar allows: level 0 an expression, 1 a term, 2 a primary.\<close>

fun show_tokens :: "nat \<Rightarrow> sql_expr \<Rightarrow> token list" where
  "show_tokens p (Column s) = [(IDENTIFIER, s)]"
| "show_tokens p (Constant n) = [(NUMBER, decimal n)]"
| "show_tokens p (Compare c l r) = parens (1 < p) (show_tokens 2 l @ op_token c # show_tokens 2 r)"
| "show_tokens p (Conj l r) = parens (0 < p) (show_tokens 0 l @ (AND_WORD, ''AND'') # show_tokens 1 r)"

definition render :: "token list \<Rightarrow> string" where
  "render ts = concat (map (\<lambda>t. snd t @ '' '') ts)"

definition word_ok :: "string \<Rightarrow> bool" where
  "word_ok s \<longleftrightarrow> s \<noteq> [] \<and> is_word_start (hd s) \<and> list_all is_word_char s \<and> map toupper_char s \<noteq> ''AND''"

fun printable :: "sql_expr \<Rightarrow> bool" where
  "printable (Column s) \<longleftrightarrow> word_ok s"
| "printable (Constant n) \<longleftrightarrow> n < 2 ^ 63"
| "printable (Compare c l r) \<longleftrightarrow> printable l \<and> printable r"
| "printable (Conj l r) \<longleftrightarrow> printable l \<and> printable r"

subsection \<open>Tokens of a printed predicate\<close>

definition token_ok :: "token \<Rightarrow> bool" where
  "token_ok t \<longleftrightarrow> t \<in> {(AND_WORD, ''AND''), (LPAREN, ''(''), (RPAREN, '')'')} \<or> (\<exists>c. t = op_token c) \<or>
     (\<exists>s. t = (IDENTIFIER, s) \<and> word_ok s) \<or> (\<exists>n. t = (NUMBER, decimal n))"

lemma takeWhile_text: "list_all P s \<Longrightarrow> \<not> P c \<Longrightarrow> takeWhile P (s @ c # r) = s \<and> dropWhile P (s @ c # r) = c # r"
  by (induction s) simp_all

lemma digit_classes: "is_digit c \<Longrightarrow> \<not> is_space c \<and> c \<noteq> CHR ''('' \<and> c \<noteq> CHR '')'' \<and> c \<noteq> CHR ''>'' \<and> c \<noteq> CHR ''<'' \<and> c \<noteq> CHR ''=''"
  by (auto simp: is_digit_def is_space_def less_eq_char_def)

lemma word_classes: "is_word_start c \<Longrightarrow> \<not> is_space c \<and> \<not> is_digit c \<and> c \<noteq> CHR ''('' \<and> c \<noteq> CHR '')'' \<and> c \<noteq> CHR ''>'' \<and> c \<noteq> CHR ''<'' \<and> c \<noteq> CHR ''=''"
  by (auto simp: is_word_start_def is_alpha_def is_digit_def is_space_def less_eq_char_def)

lemma space_classes: "is_space CHR '' ''" "\<not> is_digit CHR '' ''" "\<not> is_word_char CHR '' ''"
  by (simp_all add: is_space_def is_digit_def is_word_char_def is_alpha_def less_eq_char_def)

lemma Tokenize_token:
  assumes "token_ok t"
  shows "Tokenize (snd t @ CHR '' '' # r) = ebind (Tokenize r) (\<lambda>ts. Inr (t # ts))"
proof -
  have word: "Tokenize (s @ CHR '' '' # r) = ebind (Tokenize r) (\<lambda>ts. Inr (word_token s # ts))"
    if s: "s \<noteq> []" "is_word_start (hd s)" "list_all is_word_char s" for s
  proof -
    obtain c w where cw: "s = c # w" using s(1) by (cases s) auto
    show ?thesis using s(2,3) word_classes[of c] takeWhile_text[of is_word_char w "CHR '' ''" r] space_classes
      by (simp add: cw)
  qed
  have num: "Tokenize (decimal n @ CHR '' '' # r) = ebind (Tokenize r) (\<lambda>ts. Inr ((NUMBER, decimal n) # ts))" for n
  proof -
    obtain c w where cw: "decimal n = c # w" using decimal_nonempty[of n] by (cases "decimal n") auto
    then have "is_digit c" "list_all is_digit w" using decimal_digits[of n] by simp_all
    then show ?thesis using digit_classes[of c] takeWhile_text[of is_digit w "CHR '' ''" r] space_classes
      by (simp add: cw)
  qed
  have op: "Tokenize (snd (op_token c) @ CHR '' '' # r) = ebind (Tokenize r) (\<lambda>ts. Inr (op_token c # ts))" for c
    by (cases c) (simp_all add: is_space_def)
  consider "t = (AND_WORD, ''AND'')" | "t = (LPAREN, ''('')" | "t = (RPAREN, '')'')" | c where "t = op_token c"
    | s where "t = (IDENTIFIER, s)" "word_ok s" | n where "t = (NUMBER, decimal n)"
    using assms unfolding token_ok_def by blast
  then show ?thesis
  proof cases
    case 1
    then show ?thesis using word[of "''AND''"]
      by (simp add: is_word_start_def is_word_char_def is_alpha_def less_eq_char_def word_token_def toupper_char_def del: Tokenize.simps)
  next
    case (5 s) then show ?thesis using word[of s] by (auto simp: word_ok_def word_token_def simp del: Tokenize.simps)
  qed (use op num in \<open>simp_all add: is_space_def\<close>)
qed

lemma Tokenize_render: "list_all token_ok ts \<Longrightarrow> Tokenize (render ts) = Inr (ts @ [(END_MARK, [])])"
  by (induction ts) (simp_all add: render_def Tokenize_token del: Tokenize.simps(2))

lemma show_tokens_ok: "printable e \<Longrightarrow> list_all token_ok (show_tokens p e)"
proof (induction e arbitrary: p)
  case (Compare c l r)
  have "token_ok (op_token c)" by (auto simp: token_ok_def)
  then show ?case using Compare by (auto simp: parens_def) (auto simp: token_ok_def)
qed (auto simp: parens_def token_ok_def)

subsection \<open>Parsing a printed predicate\<close>

lemma comparison_op: "\<exists>f. comparison b (fst (op_token c)) = Some f"
  by (cases c) simp_all

lemma next_type_Cons [simp]: "next_type (t # ts) = fst t"
  by (simp add: next_type_def)

fun conjuncts :: "sql_expr \<Rightarrow> nat" where
  "conjuncts (Conj l r) = Suc (conjuncts l)"
| "conjuncts _ = 0"

lemma conjuncts_length: "conjuncts e \<le> length (show_tokens 0 e)"
  by (induction e) (auto simp: parens_def)

lemma stoll_decimal: "n < 2 ^ 63 \<Longrightarrow> stoll (decimal n) = Inr (int n)"
  by (simp add: stoll_def decimal_value)

text \<open>Each level of the printer is read back by the parser of that level, whatever follows.\<close>

lemma parse_show:
  assumes "printable e"
  shows "comparison b (next_type ts) = None \<Longrightarrow> 4 * length (show_tokens 0 e) + 3 \<le> k \<Longrightarrow>
      ParseExpression k b (show_tokens 0 e @ ts) = expression_loop (k - 1 - conjuncts e) b (build b e) ts"
    and "comparison b (next_type ts) = None \<Longrightarrow> 4 * length (show_tokens 1 e) + 2 \<le> k \<Longrightarrow>
      ParseTerm k b (show_tokens 1 e @ ts) = Inr (build b e, ts)"
    and "4 * length (show_tokens 2 e) + 1 \<le> k \<Longrightarrow> ParsePrimary k b (show_tokens 2 e @ ts) = Inr (build b e, ts)"
  using assms
proof (induction e arbitrary: k ts)
  case (Column s)
  { case 1 then show ?case by (cases k; cases "k - 1"; cases "k - 2") (auto simp: numeral_2_eq_2) }
  { case 2 then show ?case by (cases k; cases "k - 1") auto }
  { case 3 then show ?case by (cases k) auto }
next
  case (Constant n)
  { case 1 then show ?case by (cases k; cases "k - 1"; cases "k - 2") (auto simp: numeral_2_eq_2 stoll_decimal) }
  { case 2 then show ?case by (cases k; cases "k - 1") (auto simp: stoll_decimal) }
  { case 3 then show ?case by (cases k) (auto simp: stoll_decimal) }
next
  case (Compare c l r)
  have term_c: "ParseTerm k b (show_tokens 1 (Compare c l r) @ ts) = Inr (build b (Compare c l r), ts)"
    if k: "4 * length (show_tokens 1 (Compare c l r)) + 2 \<le> k" and p: "printable (Compare c l r)" for k ts
  proof -
    obtain j where j: "k = Suc j" using k by (cases k) auto
    have "ParsePrimary j b (show_tokens 2 l @ op_token c # show_tokens 2 r @ ts) = Inr (build b l, op_token c # show_tokens 2 r @ ts)"
      using k p by (intro Compare.IH(3)) (simp_all add: parens_def j)
    moreover have "ParsePrimary j b (show_tokens 2 r @ ts) = Inr (build b r, ts)"
      using k p by (intro Compare.IH(6)) (simp_all add: parens_def j)
    moreover obtain f where "comparison b (fst (op_token c)) = Some f" using comparison_op by blast
    ultimately show ?thesis by (simp add: j parens_def del: ParsePrimary.simps)
  qed
  have expr_c: "ParseExpression k b (show_tokens 0 (Compare c l r) @ ts) = expression_loop (k - 1) b (build b (Compare c l r)) ts"
    if k: "4 * length (show_tokens 0 (Compare c l r)) + 3 \<le> k" and p: "printable (Compare c l r)" for k ts
  proof -
    obtain j where j: "k = Suc j" using k by (cases k) auto
    have "show_tokens 0 (Compare c l r) = show_tokens 1 (Compare c l r)" by (simp add: parens_def)
    then show ?thesis using term_c[of j ts] k p by (simp add: j del: ParseTerm.simps expression_loop.simps show_tokens.simps build.simps)
  qed
  { case 1 then show ?case using expr_c[of k ts] by (simp del: ParseExpression.simps expression_loop.simps show_tokens.simps build.simps) }
  { case 2 then show ?case using term_c[of k ts] by blast }
  { case 3
    then obtain i where i: "k = Suc (Suc (Suc i))" by (cases k; cases "k - 1"; cases "k - 2") (auto simp: parens_def numeral_2_eq_2)
    have "ParseExpression (Suc (Suc i)) b (show_tokens 0 (Compare c l r) @ (RPAREN, '')'') # ts) =
        expression_loop (Suc i) b (build b (Compare c l r)) ((RPAREN, '')'') # ts)"
      using 3 expr_c[of "Suc (Suc i)"] by (simp add: i parens_def del: ParseExpression.simps expression_loop.simps build.simps)
    then show ?case by (simp add: i parens_def del: ParseExpression.simps build.simps) }
next
  case (Conj l r)
  have expr_c: "ParseExpression k b (show_tokens 0 (Conj l r) @ ts) = expression_loop (k - 2 - conjuncts l) b (build b (Conj l r)) ts"
    if k: "4 * length (show_tokens 0 (Conj l r)) + 3 \<le> k" and p: "printable (Conj l r)" and n: "comparison b (next_type ts) = None" for k ts
  proof -
    have "ParseExpression k b (show_tokens 0 l @ (AND_WORD, ''AND'') # show_tokens 1 r @ ts) =
        expression_loop (k - 1 - conjuncts l) b (build b l) ((AND_WORD, ''AND'') # show_tokens 1 r @ ts)"
      using k p by (intro Conj.IH(1)) (simp_all add: parens_def)
    moreover obtain j where j: "k - 1 - conjuncts l = Suc j" "k - 2 - conjuncts l = j" "4 * length (show_tokens 1 r) + 2 \<le> j"
    proof
      show "k - 1 - conjuncts l = Suc (k - 2 - conjuncts l)" "k - 2 - conjuncts l = k - 2 - conjuncts l"
        "4 * length (show_tokens 1 r) + 2 \<le> k - 2 - conjuncts l"
        using k conjuncts_length[of l] by (simp_all add: parens_def)
    qed
    moreover have "ParseTerm j b (show_tokens 1 r @ ts) = Inr (build b r, ts)"
      using j(3) p n by (intro Conj.IH(5)) simp_all
    ultimately show ?thesis by (simp add: parens_def del: ParseExpression.simps ParseTerm.simps)
  qed
  have prim_c: "ParsePrimary k b (show_tokens 2 (Conj l r) @ ts) = Inr (build b (Conj l r), ts)"
    if k: "4 * length (show_tokens 2 (Conj l r)) + 1 \<le> k" and p: "printable (Conj l r)" for k ts
  proof -
    obtain j where j: "k = Suc j" using k by (cases k) auto
    obtain i where i: "j - 2 - conjuncts l = Suc i"
      using k conjuncts_length[of l] by (cases "j - 2 - conjuncts l") (simp_all add: j parens_def)
    have "ParseExpression j b (show_tokens 0 (Conj l r) @ (RPAREN, '')'') # ts) =
        expression_loop (Suc i) b (build b (Conj l r)) ((RPAREN, '')'') # ts)"
      using k p expr_c[of j "(RPAREN, '')'') # ts"] unfolding i by (simp add: j parens_def del: ParseExpression.simps expression_loop.simps)
    then show ?thesis by (simp add: j parens_def del: ParseExpression.simps build.simps)
  qed
  { case 1 then show ?case using expr_c[of k ts] by (simp del: ParseExpression.simps expression_loop.simps show_tokens.simps build.simps) }
  { case 2
    then obtain j where j: "k = Suc j" by (cases k) auto
    have "show_tokens 1 (Conj l r) = show_tokens 2 (Conj l r)" by simp
    then show ?case using 2 prim_c[of j ts] by (simp add: j del: ParsePrimary.simps show_tokens.simps build.simps) }
  { case 3 then show ?case using prim_c[of k ts] by blast }
qed

lemma parse_render:
  assumes "printable e"
  shows "Parse b (render (show_tokens 0 e)) = Inr (build b e)"
proof -
  let ?ts = "show_tokens 0 e @ [(END_MARK, [])]"
  have tok: "Tokenize (render (show_tokens 0 e)) = Inr ?ts" by (rule Tokenize_render[OF show_tokens_ok[OF assms]])
  obtain j where j: "parse_fuel ?ts - 1 - conjuncts e = Suc j"
    using conjuncts_length[of e] by (cases "parse_fuel ?ts - 1 - conjuncts e") (simp_all add: parse_fuel_def)
  have "ParseExpression (parse_fuel ?ts) b ?ts = expression_loop (Suc j) b (build b e) [(END_MARK, [])]"
    unfolding j[symmetric] by (rule parse_show(1)[OF assms]) (simp_all add: parse_fuel_def)
  then show ?thesis by (simp add: Parse_def tok del: ParseExpression.simps)
qed

text \<open>A blank at the end means nothing, so the text may also end with the last token.\<close>

lemma takeWhile_blank: "\<not> P CHR '' '' \<Longrightarrow> takeWhile P (cs @ '' '') = takeWhile P cs \<and>
    dropWhile P (cs @ '' '') = (if dropWhile P cs = [] then '' '' else dropWhile P cs @ '' '')"
  by (induction cs) auto

lemma Tokenize_drop_blank:
  assumes "\<not> P CHR '' ''" "Tokenize (dropWhile P cs @ '' '') = Tokenize (dropWhile P cs)"
  shows "Tokenize (dropWhile P (cs @ '' '')) = Tokenize (dropWhile P cs)" "takeWhile P (cs @ '' '') = takeWhile P cs"
proof -
  show "Tokenize (dropWhile P (cs @ '' '')) = Tokenize (dropWhile P cs)"
  proof (cases "dropWhile P cs = []")
    case True
    then show ?thesis using takeWhile_blank[where P = P and cs = cs, OF assms(1)] assms(2) unfolding True by simp
  next
    case False
    then show ?thesis using takeWhile_blank[where P = P and cs = cs, OF assms(1)] assms(2) by argo
  qed
  show "takeWhile P (cs @ '' '') = takeWhile P cs" using takeWhile_blank[where P = P and cs = cs, OF assms(1)] by blast
qed

lemma Tokenize_blank: "Tokenize (s @ '' '') = Tokenize s"
proof (induction s rule: Tokenize.induct)
  case (2 c cs)
  consider "is_space c" | "c = CHR ''(''" | "c = CHR '')''" | "c = CHR ''>''" | "c = CHR ''<''" | "c = CHR ''=''"
    | "\<not> is_space c" "c \<noteq> CHR ''(''" "c \<noteq> CHR '')''" "c \<noteq> CHR ''>''" "c \<noteq> CHR ''<''" "c \<noteq> CHR ''=''" by blast
  then show ?case
  proof cases
    case 1 then show ?thesis using 2(1) by simp
  next
    case 2 then show ?thesis using "2.IH"(2) by (simp add: is_space_def)
  next
    case 3 then show ?thesis using "2.IH"(3) by (simp add: is_space_def)
  next
    case 4 then show ?thesis using "2.IH"(4,5) by (cases cs) (simp_all add: is_space_def)
  next
    case 5 then show ?thesis using "2.IH"(6,7) by (cases cs) (simp_all add: is_space_def)
  next
    case 6 then show ?thesis using "2.IH"(8) by (simp add: is_space_def)
  next
    case 7
    show ?thesis
    proof (cases "is_digit c")
      case True
      note d = Tokenize_drop_blank[where P = is_digit, OF space_classes(2) "2.IH"(9)[OF 7 True]]
      have "Tokenize (c # cs @ '' '') = ebind (Tokenize (dropWhile is_digit (cs @ '' ''))) (\<lambda>ts. Inr ((NUMBER, c # takeWhile is_digit (cs @ '' '')) # ts))"
        using 7 True by (subst Tokenize.simps) simp
      then show ?thesis unfolding d using 7 True by simp
    next
      case False
      show ?thesis
      proof (cases "is_word_start c")
        case True
        note d = Tokenize_drop_blank[where P = is_word_char, OF space_classes(3) "2.IH"(10)[OF 7 False True]]
        have "Tokenize (c # cs @ '' '') =
            ebind (Tokenize (dropWhile is_word_char (cs @ '' ''))) (\<lambda>ts. Inr (word_token (c # takeWhile is_word_char (cs @ '' '')) # ts))"
          using 7 False True by (subst Tokenize.simps) simp
        then show ?thesis unfolding d using 7 False True by simp
      qed (use 7 False in simp)
    qed
  qed
qed (simp add: is_space_def)

lemma Parse_blank: "Parse b (s @ '' '') = Parse b s"
  by (simp add: Parse_def Tokenize_blank)

text \<open>
  Property C31. The parser inverts the printer: the text of a predicate, printed with as few parentheses as the
  grammar allows, parses to exactly the nodes of the predicate, so AND associates to the left and binds weaker
  than the comparisons.
\<close>

theorem parse_inverts_printing:
  assumes "printable e"
  shows "Parse b (render (show_tokens 0 e)) = Inr (build b e)"
  by (rule parse_render[OF assms])

text \<open>The nodes themselves as a builder, and the predicate of the program's own demonstration.\<close>

definition term_builder :: "sql_expr node_builder" where
  "term_builder = \<lparr>build_Load = Column, build_Const = (\<lambda>v. Constant (nat v)), build_And = Conj, build_GT = Compare Op_GT,
     build_LT = Compare Op_LT, build_GE = Compare Op_GE, build_LE = Compare Op_LE, build_EQ = Compare Op_EQ\<rparr>"

theorem parse_inverts_printing_witness:
  "Parse term_builder ''ask > 10500 AND volume > 2000 '' =
    Inr (Conj (Compare Op_GT (Column ''ask'') (Constant 10500)) (Compare Op_GT (Column ''volume'') (Constant 2000)))"
proof -
  let ?e = "Conj (Compare Op_GT (Column ''ask'') (Constant 10500)) (Compare Op_GT (Column ''volume'') (Constant 2000))"
  have "printable ?e"
    by (simp add: word_ok_def is_word_start_def is_word_char_def is_alpha_def toupper_char_def less_eq_char_def char_of_def)
  moreover have "render (show_tokens 0 ?e) = ''ask > 10500 AND volume > 2000 ''"
    by (simp add: render_def parens_def decimal.simps[of 10500] decimal.simps[of 1050] decimal.simps[of 105] decimal.simps[of 10]
        decimal.simps[of "Suc 0"] bit_0 decimal.simps[of 2000] decimal.simps[of 200] decimal.simps[of 20] decimal.simps[of 2] char_of_def)
  moreover have "build term_builder ?e = ?e" by (simp add: term_builder_def)
  ultimately show ?thesis using parse_inverts_printing[of ?e term_builder] by simp
qed

end
