(* ===== verification/Query_Daemon.thy ===== *)
theory Query_Daemon
  imports Local_Cache Sql_Parser
begin

text \<open>
  The query daemon of \<open>src/query_daemon.cpp\<close>: a client sends one line, \<open>QUERY <key> WHERE <predicate>\<close>; the
  daemon maps the object of the key through the local cache, registers its schema, parses the predicate and
  runs the engine on the bit planes. The engine is third-party code: its operations are the record
  \<open>query_engine\<close>, on a state of an arbitrary type \<open>'e\<close> and nodes of an arbitrary type \<open>'n\<close>.
\<close>

subsection \<open>The socket\<close>

record server =
  server_fd :: int
  running :: bool
  accepting :: bool

definition new_server :: server where
  "new_server = \<lparr>server_fd = -1, running = False, accepting = False\<rparr>"

datatype start_error = Socket_failed | Reuse_failed | Bind_failed | Listen_failed | Thread_replaced

text \<open>
  The answers of \<open>socket\<close>, \<open>setsockopt\<close>, \<open>bind\<close> and \<open>listen\<close>. Assigning to a thread that can still be joined
  ends the process (\<open>Thread_replaced\<close>).
\<close>

definition daemon_Start :: "int \<Rightarrow> bool \<Rightarrow> bool \<Rightarrow> bool \<Rightarrow> server \<Rightarrow> start_error option \<times> server" where
  "daemon_Start fd reuse_ok bind_ok listen_ok sv =
     (let sv1 = sv\<lparr>server_fd := fd\<rparr>
      in if fd = -1 then (Some Socket_failed, sv1)
         else if \<not> reuse_ok then (Some Reuse_failed, sv1)
         else if \<not> bind_ok then (Some Bind_failed, sv1)
         else if \<not> listen_ok then (Some Listen_failed, sv1)
         else if accepting sv then (Some Thread_replaced, sv1\<lparr>running := True\<rparr>)
         else (None, sv1\<lparr>running := True, accepting := True\<rparr>))"

definition daemon_Stop :: "server \<Rightarrow> server" where
  "daemon_Stop sv = (if running sv then sv\<lparr>running := False, server_fd := -1, accepting := False\<rparr> else sv)"

datatype accept_event = Accepted int | Accept_failed | Stopped

text \<open>The clients a handler thread is started for; a failed \<open>accept\<close> of a running server is tried again.\<close>

fun AcceptLoop :: "accept_event list \<Rightarrow> int list" where
  "AcceptLoop [] = []"
| "AcceptLoop (Stopped # es) = []"
| "AcceptLoop (Accept_failed # es) = AcceptLoop es"
| "AcceptLoop (Accepted fd # es) = fd # AcceptLoop es"

text \<open>
  What a server promises its owner: a start that succeeds leaves it accepting, one that fails leaves it as it was,
  and after a stop it can be started again. The accept thread exists exactly while the server runs.
\<close>

locale tcp_server =
  fixes start :: "'a \<Rightarrow> server \<Rightarrow> start_error option \<times> server" and stop :: "server \<Rightarrow> server"
  assumes start_ok: "start a sv = (None, sv') \<Longrightarrow> running sv' \<and> accepting sv' \<and> server_fd sv' \<noteq> -1"
    and start_fails: "start a sv = (Some e, sv') \<Longrightarrow> e \<noteq> Thread_replaced \<Longrightarrow> running sv' = running sv \<and> accepting sv' = accepting sv"
    and replaces: "start a sv = (Some Thread_replaced, sv') \<Longrightarrow> accepting sv"
    and stop_running: "running sv \<Longrightarrow> \<not> running (stop sv) \<and> \<not> accepting (stop sv) \<and> server_fd (stop sv) = -1"
    and stop_idle: "\<not> running sv \<Longrightarrow> stop sv = sv"
begin

definition well_kept :: "server \<Rightarrow> bool" where
  "well_kept sv \<longleftrightarrow> running sv = accepting sv"

lemma start_keeps: "well_kept sv \<Longrightarrow> start a sv = (r, sv') \<Longrightarrow> r \<noteq> Some Thread_replaced \<Longrightarrow> well_kept sv'"
  using start_ok[of a sv sv'] start_fails[of a sv _ sv'] by (cases r) (auto simp: well_kept_def)

lemma stop_keeps: "well_kept sv \<Longrightarrow> well_kept (stop sv) \<and> \<not> accepting (stop sv)"
  using stop_running[of sv] stop_idle[of sv] by (cases "running sv") (auto simp: well_kept_def)

lemma restart: "well_kept sv \<Longrightarrow> start a (stop sv) = (r, sv') \<Longrightarrow> r \<noteq> Some Thread_replaced \<and> well_kept sv'"
  using stop_keeps[of sv] start_keeps[of "stop sv" a r sv'] replaces[of a "stop sv" sv'] by blast

end

interpretation daemon_socket: tcp_server "\<lambda>(fd, reuse_ok, bind_ok, listen_ok). daemon_Start fd reuse_ok bind_ok listen_ok" daemon_Stop
  by unfold_locales (auto simp: daemon_Start_def daemon_Stop_def Let_def split: prod.splits if_splits)

subsection \<open>The request\<close>

definition NEWLINE :: char where "NEWLINE = CHR 0x0A"
definition RETURN :: char where "RETURN = CHR 0x0D"

text \<open>
  The chunks are what \<open>recv\<close> delivers, an empty chunk the end of the stream; a chunk is appended as a C string,
  that is up to its first NUL.
\<close>

fun read_request :: "string \<Rightarrow> bytes list \<Rightarrow> string" where
  "read_request request [] = request"
| "read_request request (chunk # chunks) =
     (if chunk = [] then request
      else (let request1 = request @ c_str chunk
            in if NEWLINE \<in> set request1 then request1 else read_request request1 chunks))"

definition strip_line :: "string \<Rightarrow> string" where
  "strip_line s = rev (dropWhile (\<lambda>c. c = RETURN \<or> c = NEWLINE \<or> c = CHR '' '') (rev s))"

datatype command = Bad_format | Missing_where | Query string string

definition parse_request :: "string \<Rightarrow> command" where
  "parse_request request =
     (if \<not> starts_with request ''QUERY '' then Bad_format
      else case find_first request '' WHERE '' of
        None \<Rightarrow> Missing_where
      | Some where_pos \<Rightarrow>
          Query (substr request 6 (unat (word_of_nat where_pos - 6 :: u64))) (drop (where_pos + 7) request))"

subsection \<open>The engine\<close>

record schema_field =
  sf_name :: string
  sf_offset :: u32
  sf_bits :: nat
  sf_type :: u32

record ('e, 'n) query_engine =
  has_schema :: "'e \<Rightarrow> string \<Rightarrow> bool"
  register_schema :: "string \<Rightarrow> schema_field list \<Rightarrow> u64 \<Rightarrow> 'e \<Rightarrow> 'e"
  set_expression :: "string \<Rightarrow> 'n \<Rightarrow> 'e \<Rightarrow> 'e"
  execute_native :: "string \<Rightarrow> bytes \<Rightarrow> u64 \<Rightarrow> 'e \<Rightarrow> (string + u64) \<times> 'e"
  node_builder_of :: "'n node_builder"

text \<open>The field table as it lies in the object; a read past its end is undefined, \<open>None\<close>.\<close>

definition read_field :: "bytes \<Rightarrow> nat \<Rightarrow> schema_field option" where
  "read_field data i =
     (let off = 32 + 68 * i
      in if off + 68 \<le> length data \<and> NUL \<in> set (drop off data) then
           Some \<lparr>sf_name = c_str (drop off data), sf_offset = word_of_nat (8 * i), sf_bits = 64, sf_type = get_u32 (drop (off + 64) data)\<rparr>
         else None)"

definition read_fields :: "bytes \<Rightarrow> schema_field list option" where
  "read_fields data = those (map (read_field data) [0..<unat (num_fields (agb_header_of data))])"

definition ensure_schema :: "('e, 'n) query_engine \<Rightarrow> string \<Rightarrow> bytes \<Rightarrow> 'e \<Rightarrow> 'e option" where
  "ensure_schema ops key data e =
     (if has_schema ops e key then Some e
      else map_option (\<lambda>fields. register_schema ops key fields (8 * num_fields (agb_header_of data)) e) (read_fields data))"

subsection \<open>Answering\<close>

datatype daemon_error = Cache_failure cache_error | Bad_magic | Parse_failure sql_error | Engine_failure string

datatype response = Format_error | Where_error | Matches u64 | Failure daemon_error

definition answer :: "('e, 'n) query_engine \<Rightarrow> string \<Rightarrow> string \<Rightarrow> bytes \<Rightarrow> 'e \<Rightarrow> (response \<times> 'e) option" where
  "answer ops key predicate data e =
     (if length data < 4 then None
      else if take 4 data \<noteq> AGB_MAGIC then Some (Failure Bad_magic, e)
      else if length data < 32 then None
      else case ensure_schema ops key data e of
        None \<Rightarrow> None
      | Some e1 \<Rightarrow>
          (case Parse (node_builder_of ops) predicate of
             Inl err \<Rightarrow> Some (Failure (Parse_failure err), e1)
           | Inr ast_root \<Rightarrow>
               (let header = agb_header_of data;
                    e2 = set_expression ops key ast_root e1;
                    off = unat (32 + num_fields header * 68)
                in if length data < off then None
                   else case execute_native ops key (drop off data) (num_blocks header) e2 of
                     (Inl msg, e3) \<Rightarrow> Some (Failure (Engine_failure msg), e3)
                   | (Inr matches, e3) \<Rightarrow> Some (Matches matches, e3))))"

type_synonym 'e daemon_state = "local_cache \<times> os \<times> 'e"

definition HandleClient :: "syscalls \<Rightarrow> ('e, 'n) query_engine \<Rightarrow> bytes list \<Rightarrow> 'e daemon_state \<Rightarrow> (response \<times> 'e daemon_state) option" where
  "HandleClient sys ops chunks z = (case z of (c, s, e) \<Rightarrow>
     case parse_request (strip_line (read_request [] chunks)) of
       Bad_format \<Rightarrow> Some (Format_error, c, s, e)
     | Missing_where \<Rightarrow> Some (Where_error, c, s, e)
     | Query s3_key predicate \<Rightarrow>
         (case GetOrDownload sys s3_key c s of
            (Inl err, c1, s1) \<Rightarrow> if err = Undefined_url then None else Some (Failure (Cache_failure err), c1, s1, e)
          | (Inr mapped, c1, s1) \<Rightarrow>
              (case mappings s1 (map_addr mapped) of
                 None \<Rightarrow> None
               | Some data \<Rightarrow> map_option (\<lambda>(resp, e1). (resp, c1, s1, e1)) (answer ops s3_key predicate data e))))"

text \<open>The line the client gets; \<open>what\<close> is the text of an exception, \<open>us\<close> the measured time.\<close>

definition response_text :: "(daemon_error \<Rightarrow> string) \<Rightarrow> u64 \<Rightarrow> response \<Rightarrow> string" where
  "response_text what us r = (case r of
     Format_error \<Rightarrow> ''ERROR Invalid command format. Expected: QUERY <s3_key> WHERE <predicate>'' @ [NEWLINE]
   | Where_error \<Rightarrow> ''ERROR Missing WHERE clause'' @ [NEWLINE]
   | Matches n \<Rightarrow> ''MATCHES '' @ to_string_u64 n @ '' SCAN_TIME_US '' @ to_string_u64 us @ [NEWLINE]
   | Failure e \<Rightarrow> ''ERROR '' @ what e @ [NEWLINE])"

subsection \<open>A request arrives in pieces\<close>

lemma c_str_id: "NUL \<notin> set s \<Longrightarrow> c_str s = s"
  unfolding c_str_def by (rule takeWhile_eq_all_conv[THEN iffD2]) auto

lemma read_request_chunks:
  assumes "concat chunks = line @ [NEWLINE]" "NEWLINE \<notin> set request" "NEWLINE \<notin> set line" "NUL \<notin> set line" "[] \<notin> set chunks"
  shows "read_request request chunks = request @ line @ [NEWLINE]"
  using assms
proof (induction chunks arbitrary: request line)
  case (Cons chunk chunks)
  have nul: "NUL \<notin> set (concat (chunk # chunks))" unfolding Cons.prems(1) using Cons.prems(4) by (simp add: NEWLINE_def)
  then have chunk: "c_str chunk = chunk" by (intro c_str_id) simp
  show ?case
  proof (cases "NEWLINE \<in> set chunk")
    case True
    have "concat chunks = []"
    proof (rule ccontr)
      assume "concat chunks \<noteq> []"
      then have "line = chunk @ butlast (concat chunks)" using Cons.prems(1) by (metis butlast_append butlast_snoc concat.simps(2))
      then show False using True Cons.prems(3) by simp
    qed
    then have "chunk = line @ [NEWLINE]" using Cons.prems(1) by (metis append.right_neutral concat.simps(2))
    then show ?thesis using Cons.prems(5) chunk by (auto simp: Let_def)
  next
    case False
    then have "concat chunks \<noteq> []" using Cons.prems(1) by (metis append.right_neutral concat.simps(2) in_set_conv_decomp)
    then have split: "line = chunk @ butlast (concat chunks)" "concat chunks = butlast (concat chunks) @ [NEWLINE]"
      using Cons.prems(1) by (metis butlast_append butlast_snoc concat.simps(2),
        metis append_butlast_last_id concat.simps(2) last_appendR last_snoc)
    have "read_request (request @ chunk) chunks = (request @ chunk) @ butlast (concat chunks) @ [NEWLINE]"
      using Cons.prems(2-5) False split by (intro Cons.IH) (auto dest: arg_cong[of _ _ set])
    moreover have "chunk \<noteq> []" using Cons.prems(5) by auto
    ultimately show ?thesis using False Cons.prems(2) split by (simp add: chunk del: concat_eq_Nil_conv)
  qed
qed simp

lemma strip_line_end: "s \<noteq> [] \<Longrightarrow> last s \<notin> {RETURN, NEWLINE, CHR '' ''} \<Longrightarrow> strip_line (s @ [NEWLINE]) = s"
  by (cases s rule: rev_cases) (auto simp: strip_line_def)

subsection \<open>Finding key and predicate\<close>

lemma is_at_char: "is_at s pat i \<Longrightarrow> k < length pat \<Longrightarrow> i + k < length s \<and> s ! (i + k) = pat ! k"
proof -
  assume at: "is_at s pat i" and k: "k < length pat"
  then have "length pat \<le> length (drop i s)" unfolding is_at_def by (metis length_take min.cobounded1)
  then have "i + k < length s" using k by simp
  moreover have "pat ! k = drop i s ! k" using at k unfolding is_at_def by (metis nth_take)
  ultimately show ?thesis by simp
qed

lemma parse_query:
  assumes "CHR '' '' \<notin> set key" "key \<noteq> ''WHERE''" "length key < 2 ^ 62"
  shows "parse_request (''QUERY '' @ key @ '' WHERE '' @ predicate) = Query key predicate"
proof -
  let ?s = "''QUERY '' @ key @ '' WHERE '' @ predicate"
  let ?n = "6 + length key"
  have n: "?n = Suc (Suc (Suc (Suc (Suc (Suc (length key))))))" by simp
  have there: "is_at ?s '' WHERE '' ?n" unfolding n by (simp add: is_at_def)
  have early: "\<not> is_at ?s '' WHERE '' i" if i: "i < ?n" for i
  proof
    assume at: "is_at ?s '' WHERE '' i"
    have blank: "?s ! i = CHR '' ''" using is_at_char[OF at, of 0] by simp
    consider "i < 5" | "i = 5" | j where "i = 6 + j" "j < length key"
      using i le_Suc_ex[of 6 i] by (cases "i < 5"; cases "i = 5") force+
    then show False
    proof cases
      case 1 then show False using blank by (auto simp: less_Suc_eq numeral_eq_Suc)
    next
      case 2
      let ?r = "key @ '' WHERE '' @ predicate"
      have "take 6 ?r = ''WHERE ''" using at unfolding 2 by (simp add: is_at_def numeral_eq_Suc)
      then have "?r = ''WHERE '' @ drop 6 ?r" by (metis append_take_drop_id)
      then have "takeWhile (\<lambda>c. c \<noteq> CHR '' '') ?r = takeWhile (\<lambda>c. c \<noteq> CHR '' '') (''WHERE '' @ drop 6 ?r)" by (rule arg_cong)
      moreover have "takeWhile (\<lambda>c. c \<noteq> CHR '' '') ?r = key" using assms(1) by (subst takeWhile_append2) auto
      ultimately show False using assms(2) by simp
    next
      case (3 j) then show False using blank assms(1) nth_mem[of j key] by (simp add: nth_append)
    qed
  qed
  have "find_first ?s '' WHERE '' = Some ?n" using there early by (auto simp: find_from_Some)
  moreover have "(word_of_nat ?n - 6 :: u64) = word_of_nat (length key)" by simp
  then have "unat (word_of_nat ?n - 6 :: u64) = length key" using assms(3) unat_u64[of "length key"] by simp
  moreover have "drop ?n ?s = '' WHERE '' @ predicate" unfolding n by simp
  then have "drop (?n + 7) ?s = predicate" using drop_drop[of 7 ?n ?s] by (simp add: add.commute)
  ultimately show ?thesis by (simp add: parse_request_def starts_with_def is_at_def substr_def)
qed

text \<open>A key \<open>WHERE\<close> is not found: the match at the blank before it makes the length of the key wrap.\<close>

lemma where_key_underflows: "parse_request ''QUERY WHERE x'' = Query ''WHERE x'' ''x''"
  by (simp add: parse_request_def starts_with_def is_at_def find_from_def substr_def upt_rec unsigned_minus_1_eq_mask mask_eq_exp_minus_1)

subsection \<open>The object of a batch\<close>

lemma those_map_Some: "(\<And>i. i \<in> set xs \<Longrightarrow> f i = Some (g i)) \<Longrightarrow> those (map f xs) = Some (map g xs)"
  by (induction xs) simp_all

definition field_of_schema :: "nat \<times> string \<times> u32 \<Rightarrow> schema_field" where
  "field_of_schema = (\<lambda>(i, name, t). \<lparr>sf_name = take 63 (c_str name), sf_offset = word_of_nat (8 * i), sf_bits = 64, sf_type = agb_type_id t\<rparr>)"

definition schema_of :: "record_batch \<Rightarrow> schema_field list" where
  "schema_of batch = map field_of_schema (enumerate 0 (schema_fields batch))"

definition stored_object :: "slicer \<Rightarrow> record_batch \<Rightarrow> u64 list \<Rightarrow> bytes \<Rightarrow> bool" where
  "stored_object slice_n batch bit_planes data \<longleftrightarrow> agb_object slice_n batch = Inr data \<and> TransposeBatch slice_n batch = Inr bit_planes \<and>
     length (schema_fields batch) = length (batch_columns batch) \<and> length (batch_columns batch) < 2 ^ 32"

lemma stored_object_header:
  assumes "stored_object slice_n batch bit_planes data"
  shows "num_fields (agb_header_of data) = word_of_nat (length (batch_columns batch))"
    "num_blocks (agb_header_of data) = word_of_nat (agb_blocks batch)" "take 4 data = AGB_MAGIC"
    "unat (num_fields (agb_header_of data)) = length (batch_columns batch)"
  using agb_object_sections(1)[of slice_n batch data bit_planes] assms
  by (simp_all add: stored_object_def agb_header_of_def)

lemma read_field_object:
  assumes obj: "stored_object slice_n batch bit_planes data" and i: "i < length (schema_fields batch)"
  shows "read_field data i = Some (field_of_schema (i, schema_fields batch ! i))"
proof -
  note sections = agb_object_sections[of slice_n batch data bit_planes]
  have "length data = 32 + 68 * length (schema_fields batch) + 8 * length bit_planes"
    using sections(5) obj by (simp add: stored_object_def)
  then have fits: "32 + 68 * i + 68 \<le> length data" using i by simp
  have name: "c_str (drop (32 + 68 * i) data) = take 63 (c_str (fst (schema_fields batch ! i)))"
    using sections(2) obj i by (simp add: stored_object_def)
  have nul: "NUL \<in> set (drop (32 + 68 * i) data)"
  proof (rule ccontr)
    assume "NUL \<notin> set (drop (32 + 68 * i) data)"
    then have "c_str (drop (32 + 68 * i) data) = drop (32 + 68 * i) data" by (rule c_str_id)
    then have "length (drop (32 + 68 * i) data) \<le> 63" using name by (metis length_take min.cobounded2)
    then show False using fits by simp
  qed
  have "get_u32 (drop (32 + 68 * i + 64) data) = agb_type_id (snd (schema_fields batch ! i))"
    using sections(3) obj i by (simp add: stored_object_def)
  then show ?thesis using fits nul name
    by (simp add: read_field_def Let_def field_of_schema_def split: prod.split)
qed

lemma read_fields_object:
  assumes "stored_object slice_n batch bit_planes data"
  shows "read_fields data = Some (schema_of batch)"
proof -
  let ?n = "length (schema_fields batch)"
  have "length (batch_columns batch) = ?n" using assms by (simp add: stored_object_def)
  moreover have "those (map (read_field data) [0..<?n]) = Some (map (\<lambda>i. field_of_schema (i, schema_fields batch ! i)) [0..<?n])"
    using read_field_object[OF assms] by (intro those_map_Some) simp
  ultimately have "read_fields data = Some (map (\<lambda>i. field_of_schema (i, schema_fields batch ! i)) [0..<?n])"
    unfolding read_fields_def stored_object_header(4)[OF assms] by simp
  moreover have "map (\<lambda>i. field_of_schema (i, schema_fields batch ! i)) [0..<?n] = schema_of batch"
    by (rule nth_equalityI) (simp_all add: schema_of_def nth_enumerate_eq)
  ultimately show ?thesis by simp
qed

lemma answer_object:
  assumes obj: "stored_object slice_n batch bit_planes data" and parsed: "Parse (node_builder_of ops) predicate = Inr ast"
    and run: "execute_native ops key (concat (map put_u64 bit_planes)) (word_of_nat (agb_blocks batch))
       (set_expression ops key ast (if has_schema ops e key then e
          else register_schema ops key (schema_of batch) (8 * word_of_nat (length (batch_columns batch))) e)) = (Inr n, e')"
  shows "answer ops key predicate data e = Some (Matches n, e')"
proof -
  let ?k = "length (batch_columns batch)"
  have k: "?k < 2 ^ 32" "length (schema_fields batch) = ?k" using obj by (simp_all add: stored_object_def)
  note sections = agb_object_sections(4,5)[of slice_n batch data bit_planes]
  have len: "length data = 32 + 68 * ?k + 8 * length bit_planes" using sections(2) obj k by (simp add: stored_object_def)
  have planes: "drop (32 + 68 * ?k) data = concat (map put_u64 bit_planes)" using sections(1) obj k by (simp add: stored_object_def)
  have off: "unat (32 + num_fields (agb_header_of data) * 68) = 32 + 68 * ?k"
  proof -
    have "32 + num_fields (agb_header_of data) * 68 = word_of_nat (32 + 68 * ?k)" by (simp add: stored_object_header[OF obj])
    moreover have "32 + 68 * ?k < 2 ^ 64" using k(1) by simp
    ultimately show ?thesis by (metis unat_u64)
  qed
  have "ensure_schema ops key data e = Some (if has_schema ops e key then e
      else register_schema ops key (schema_of batch) (8 * word_of_nat ?k) e)"
    by (simp add: ensure_schema_def read_fields_object[OF obj] stored_object_header[OF obj])
  then show ?thesis unfolding answer_def Let_def off
    using len planes parsed run by (simp add: stored_object_header[OF obj])
qed

subsection \<open>A query, from the request to the answer\<close>

text \<open>The object of a key is in the cache, in the directory, or on the server, and the system lets it be stored and mapped.\<close>

definition available :: "syscalls \<Rightarrow> local_cache \<Rightarrow> os \<Rightarrow> string \<Rightarrow> bytes \<Rightarrow> bool" where
  "available sys c s key data \<longleftrightarrow> open_fd sys (local_path c key) \<noteq> -1 \<and> stat_ok sys \<and> map_at sys \<noteq> None \<and>
     (case disk s (local_path c key) of
        Some d \<Rightarrow> d = data
      | None \<Rightarrow> curl_ok sys \<and> create_ok sys (local_path c key) \<and> kept sys data = data \<and>
          map_option (http_get sys) (cache_GetS3Url (s3_endpoint c) (s3_bucket c) key) = Some (Curl_response 200 data))"

lemma map_local_file_gives:
  assumes "open_fd sys path \<noteq> -1" "stat_ok sys" "map_at sys \<noteq> None" "disk s path = Some data" "data \<noteq> []"
  shows "\<exists>m c' s'. map_local_file sys key path c s = (Inr m, c', s') \<and> disk s' = disk s"
  using assms by (auto simp: map_local_file_def Let_def)

lemma lookup_available:
  assumes ok: "cache_ok c s" "fresh_answers sys s" and av: "available sys c s key data" "data \<noteq> []"
  shows "\<exists>m c' s'. GetOrDownload sys key c s = (Inr m, c', s') \<and> mappings s' (map_addr m) = Some data \<and> cache_ok c' s'"
proof -
  let ?path = "local_path c key"
  have "\<exists>m c' s'. GetOrDownload sys key c s = (Inr m, c', s') \<and> disk s' ?path = Some data"
  proof (cases "disk s ?path")
    case (Some d)
    then show ?thesis using av map_local_file_gives[of sys ?path s data key c]
      by (auto simp: GetOrDownload_def available_def Let_def split: option.split)
  next
    case None
    then have new: "cached c key = None" using cache_okD(3)[OF ok(1), of key] by (cases "cached c key") auto
    obtain url where url: "cache_GetS3Url (s3_endpoint c) (s3_bucket c) key = Some url" "http_get sys url = Curl_response 200 data"
      using av None by (auto simp: available_def)
    let ?s1 = "s\<lparr>disk := (disk s)(?path \<mapsto> data)\<rparr>"
    have "DownloadFile sys c key ?path s = (Inr True, ?s1)"
      using av None url by (simp add: DownloadFile_def available_def)
    then have "GetOrDownload sys key c s = map_local_file sys key ?path c ?s1" using new None by (simp add: GetOrDownload_def Let_def)
    moreover obtain m c' s' where "map_local_file sys key ?path c ?s1 = (Inr m, c', s')" "disk s' = disk ?s1"
      using av map_local_file_gives[of sys ?path ?s1 data key c] by (auto simp: available_def)
    ultimately show ?thesis by simp
  qed
  then obtain m c' s' where got: "GetOrDownload sys key c s = (Inr m, c', s')" "disk s' ?path = Some data" by blast
  then show ?thesis using GetOrDownload_ok[OF ok got(1)] by (simp add: lookup_ok_def)
qed

definition plain_key :: "string \<Rightarrow> bool" where
  "plain_key key \<longleftrightarrow> {CHR '' '', NUL, NEWLINE} \<inter> set key = {} \<and> key \<noteq> ''WHERE'' \<and> length key < 2 ^ 62"

definition plain_predicate :: "string \<Rightarrow> bool" where
  "plain_predicate p \<longleftrightarrow> {NUL, NEWLINE} \<inter> set p = {} \<and> p \<noteq> [] \<and> last p \<notin> {RETURN, CHR '' ''}"

lemma request_of_chunks:
  assumes "plain_key key" "plain_predicate predicate" "[] \<notin> set chunks"
    and "concat chunks = ''QUERY '' @ key @ '' WHERE '' @ predicate @ [NEWLINE]"
  shows "parse_request (strip_line (read_request [] chunks)) = Query key predicate"
proof -
  let ?line = "''QUERY '' @ key @ '' WHERE '' @ predicate"
  have plain: "NEWLINE \<notin> set ?line" "NUL \<notin> set ?line" using assms(1,2)
    by (auto simp: plain_key_def plain_predicate_def NEWLINE_def)
  have "read_request [] chunks = [] @ ?line @ [NEWLINE]"
    using assms(3,4) plain by (intro read_request_chunks) simp_all
  moreover have "strip_line (?line @ [NEWLINE]) = ?line"
  proof (rule strip_line_end)
    have "last predicate \<in> set predicate" "last ?line = last predicate" using assms(2) by (simp_all add: plain_predicate_def)
    moreover from this have "last predicate \<noteq> NEWLINE" using assms(2) by (auto simp: plain_predicate_def simp del: last_in_set)
    ultimately show "last ?line \<notin> {RETURN, NEWLINE, CHR '' ''}" using assms(2) by (auto simp: plain_predicate_def)
  qed simp
  ultimately show ?thesis using parse_query[of key predicate] assms(1) by (simp add: plain_key_def)
qed

text \<open>
  Property C30. The daemon answers a query with the engine's count over the stored planes: however the request line
  is cut into packets and wherever the object lies, for an object the writer made of a batch the daemon
  registers, on the first query of the key, exactly the schema of the batch, sets the parsed predicate and runs
  the engine on exactly the bit planes and blocks of the batch; the cache stays in order.
\<close>

theorem daemon_answers_query:
  assumes "concat chunks = ''QUERY '' @ key @ '' WHERE '' @ predicate @ [NEWLINE]" "[] \<notin> set chunks"
    and "plain_key key" "plain_predicate predicate" "Parse (node_builder_of ops) predicate = Inr ast"
    and "cache_ok c s" "fresh_answers sys s" "available sys c s key data" "stored_object slice_n batch bit_planes data"
    and "execute_native ops key (concat (map put_u64 bit_planes)) (word_of_nat (agb_blocks batch))
       (set_expression ops key ast (if has_schema ops e key then e
          else register_schema ops key (schema_of batch) (8 * word_of_nat (length (batch_columns batch))) e)) = (Inr n, e')"
  shows "\<exists>c' s'. HandleClient sys ops chunks (c, s, e) = Some (Matches n, c', s', e') \<and> cache_ok c' s'"
proof -
  have "data \<noteq> []" using stored_object_header(3)[OF assms(9)] by (auto simp: AGB_MAGIC_def)
  then obtain m c' s' where "GetOrDownload sys key c s = (Inr m, c', s')" "mappings s' (map_addr m) = Some data" "cache_ok c' s'"
    using lookup_available[OF assms(6-8)] by blast
  then show ?thesis using request_of_chunks[OF assms(3,4,2,1)] answer_object[OF assms(9,5,10)]
    by (simp add: HandleClient_def)
qed

text \<open>An engine that answers with the number of bytes it is handed, the object of the two demonstration ticks.\<close>

definition counting_engine :: "(string set, sql_expr) query_engine" where
  "counting_engine = \<lparr>has_schema = (\<lambda>e key. key \<in> e), register_schema = (\<lambda>key _ _ e. insert key e), set_expression = (\<lambda>_ _ e. e),
     execute_native = (\<lambda>_ planes num e. (Inr (word_of_nat (length planes) + num), e)), node_builder_of = term_builder\<rparr>"

lemma demo_predicate: "Parse term_builder ''ask > 10500'' = Inr (Compare Op_GT (Column ''ask'') (Constant 10500))"
proof -
  let ?ts = "[(IDENTIFIER, ''ask''), (GT_SIGN, ''>''), (NUMBER, ''10500''), (END_MARK, [])]"
  have tok: "Tokenize ''ask > 10500'' = Inr ?ts"
    by (simp add: is_space_def is_digit_def is_word_start_def is_word_char_def is_alpha_def less_eq_char_def word_token_def toupper_char_def char_of_def)
  have num: "stoll ''10500'' = Inr 10500" by (simp add: stoll_def)
  have prim: "ParsePrimary 18 b ((IDENTIFIER, w) # ts) = Inr (build_Load b w, ts)"
    "ParsePrimary 18 b ((NUMBER, ''10500'') # ts) = Inr (build_Const b 10500, ts)" for b :: "sql_expr node_builder" and w ts
    using ParsePrimary.simps(2)[of 17 b] by (simp_all add: num)
  have "ParseTerm 19 b ?ts = Inr (build_GT b (build_Load b ''ask'') (build_Const b 10500), [(END_MARK, [])])"
    "expression_loop 19 b n [(END_MARK, [])] = Inr (n, [(END_MARK, [])])" for b :: "sql_expr node_builder" and n
    using ParseTerm.simps(2)[of 18 b ?ts] expression_loop.simps(2)[of 18 b n "[(END_MARK, [])]"] by (simp_all add: prim)
  then have "ParseExpression 20 b ?ts = Inr (build_GT b (build_Load b ''ask'') (build_Const b 10500), [(END_MARK, [])])" for b :: "sql_expr node_builder"
    using ParseExpression.simps(2)[of 19 b ?ts] by simp
  then show ?thesis by (simp add: Parse_def tok parse_fuel_def term_builder_def del: Tokenize.simps)
qed

lemma demo_object:
  "\<exists>data planes. stored_object copy_slicer demo_ticks planes data \<and> length planes = 128"
proof -
  obtain data where "agb_object copy_slicer demo_ticks = Inr data" using demo_transposed by (simp add: agb_object_def)
  then show ?thesis using demo_transposed
    by (intro exI[of _ data] exI[of _ "ExtractScalars (int64_array [Some 10501, Some 7]) 0 2 @ ExtractScalars (int64_array [Some 2001, None]) 0 2"])
      (simp add: stored_object_def demo_ticks_def batch_of_def ExtractScalars_def)
qed

theorem daemon_answers_query_witness:
  "\<exists>sys c' s' e'. HandleClient sys counting_engine [''QUERY k W'', ''HERE ask > 10500'' @ [NEWLINE]] (demo_cache, empty_os, {}) =
    Some (Matches 1025, c', s', e') \<and> cache_ok c' s'"
proof -
  obtain data planes where obj: "stored_object copy_slicer demo_ticks planes data" "length planes = 128" using demo_object by blast
  have "find_first ''ticks'' ''--'' = None" by (simp add: find_from_def is_at_def upt_rec)
  then have "available (demo_sys data) demo_cache empty_os ''k'' data"
    by (simp add: available_def demo_sys_def demo_cache_def new_cache_def empty_os_def cache_GetS3Url_def GetS3Url_def is_express_bucket_def)
  note step = daemon_answers_query[OF _ _ _ _ _ demo_cache_ok this obj(1)]
  have "agb_blocks demo_ticks = 1" by (simp add: agb_blocks_def demo_ticks_def batch_of_def)
  moreover have "length (concat (map put_u64 planes)) = 1024"
    using length_concat_fixed[where f=put_u64 and w=8 and xs=planes] obj(2) by simp
  ultimately have "\<exists>c' s'. HandleClient (demo_sys data) counting_engine [''QUERY k W'', ''HERE ask > 10500'' @ [NEWLINE]] (demo_cache, empty_os, {}) =
      Some (Matches 1025, c', s', {''k''}) \<and> cache_ok c' s'"
    by (intro step[where predicate="''ask > 10500''" and ast="Compare Op_GT (Column ''ask'') (Constant 10500)"])
      (simp_all add: plain_key_def plain_predicate_def NEWLINE_def RETURN_def counting_engine_def demo_predicate del: length_concat)
  then show ?thesis by blast
qed

end
