(* ===== verification/Benchmark.thy ===== *)
theory Benchmark
  imports Query_Daemon
begin

text \<open>
  The two programs that exercise the first storage path: the demonstration of \<open>src/main.cpp\<close> and the end-to-end
  benchmark of \<open>src/benchmark_client.cpp\<close>, with the start of the daemon process in \<open>src/daemon_main.cpp\<close>. Both
  compare the answer of the engine with a scalar loop; the theorems say when they pass.
\<close>

subsection \<open>Mock data and the scalar loop\<close>

text \<open>A failing allocation of an Arrow builder exits the process; the columns have no nulls.\<close>

definition uint64_column :: "(nat \<Rightarrow> nat) \<Rightarrow> nat \<Rightarrow> arrow_array" where
  "uint64_column f n = \<lparr>type_id = Type_UINT64, is_null = (\<lambda>_. False), raw_value = (\<lambda>i. int (f i)), get_view = (\<lambda>_. []),
     buffer_sizes = [8 * n]\<rparr>"

definition GenerateMockArrowData :: "nat \<Rightarrow> record_batch" where
  "GenerateMockArrowData rows_num = batch_of rows_num
     [(''ask'', uint64_column (\<lambda>i. 10000 + i) rows_num), (''bid'', uint64_column (\<lambda>_. 9998) rows_num),
      (''volume'', uint64_column (\<lambda>i. 1000 + i) rows_num)]"

definition scalar_matches :: "nat \<Rightarrow> u64" where
  "scalar_matches rows_num = fold (\<lambda>i matches. let ask = 10000 + word_of_nat i :: u64; volume = 1000 + word_of_nat i :: u64
     in if 10500 < ask \<and> 2000 < volume then matches + 1 else matches) [0..<rows_num] 0"

definition sql_query :: string where
  "sql_query = ''ask > 10500 AND volume > 2000''"

subsection \<open>Configuration\<close>

text \<open>\<open>getenv\<close> is a function; \<open>std::stoi\<close> accepts an optional sign, digits, and ignores the rest, and throws otherwise.\<close>

type_synonym env_vars = "string \<Rightarrow> string option"

definition env_or :: "env_vars \<Rightarrow> string \<Rightarrow> string \<Rightarrow> string" where
  "env_or env name dflt = (case env name of Some v \<Rightarrow> v | None \<Rightarrow> dflt)"

definition stoi :: "string \<Rightarrow> int option" where
  "stoi s0 = (let s = dropWhile is_space s0; negative = (s \<noteq> [] \<and> hd s = CHR ''-'');
       digits = takeWhile is_digit (if s \<noteq> [] \<and> (hd s = CHR ''-'' \<or> hd s = CHR ''+'') then tl s else s);
       v = (if negative then - int (digits_value 0 digits) else int (digits_value 0 digits))
     in if digits = [] \<or> v < - (2 ^ 31) \<or> 2 ^ 31 \<le> v then None else Some v)"

record daemon_config =
  cfg_port :: int
  cfg_cache_dir :: string
  cfg_endpoint :: string
  cfg_bucket :: string

definition env_port :: "env_vars \<Rightarrow> string \<Rightarrow> int option" where
  "env_port env name = (case env name of None \<Rightarrow> Some 8080 | Some v \<Rightarrow> stoi v)"

text \<open>The port is read outside the \<open>try\<close>: an exception of \<open>stoi\<close> ends the process, \<open>None\<close>.\<close>

definition read_config :: "env_vars \<Rightarrow> daemon_config option" where
  "read_config env = map_option (\<lambda>port. \<lparr>cfg_port = port, cfg_cache_dir = env_or env ''CACHE_DIR'' ''/tmp/greengate_cache'',
     cfg_endpoint = env_or env ''S3_ENDPOINT'' ''http://localhost:9000'', cfg_bucket = env_or env ''S3_BUCKET'' ''greengate''\<rparr>)
     (env_port env ''PORT'')"

text \<open>The daemon process: its exit code when the start fails, otherwise the running daemon.\<close>

definition daemon_main :: "env_vars \<Rightarrow> int \<Rightarrow> bool \<Rightarrow> bool \<Rightarrow> bool \<Rightarrow> (int + local_cache \<times> server) option" where
  "daemon_main env fd reuse_ok bind_ok listen_ok =
     map_option (\<lambda>cfg. case daemon_Start fd reuse_ok bind_ok listen_ok new_server of
        (Some e, sv) \<Rightarrow> Inl 1
      | (None, sv) \<Rightarrow> Inr (new_cache (cfg_cache_dir cfg) (cfg_endpoint cfg) (cfg_bucket cfg), sv)) (read_config env)"

text \<open>A daemon process that starts serves its clients until it is stopped, and could be started again.\<close>

lemma daemon_main_serves:
  assumes "daemon_main env fd reuse_ok bind_ok listen_ok = Some (Inr (c, sv))"
  shows "running sv \<and> accepting sv \<and> server_fd sv \<noteq> -1"
    and "daemon_Start fd' reuse' bind' listen' (daemon_Stop sv) = (r, sv') \<Longrightarrow> r \<noteq> Some Thread_replaced"
proof -
  have "daemon_Start fd reuse_ok bind_ok listen_ok new_server = (None, sv)"
    using assms by (cases "daemon_Start fd reuse_ok bind_ok listen_ok new_server") (auto simp: daemon_main_def split: option.splits)
  then show run: "running sv \<and> accepting sv \<and> server_fd sv \<noteq> -1"
    using daemon_socket.start_ok[of "(fd, reuse_ok, bind_ok, listen_ok)" new_server sv] by simp
  then show "daemon_Start fd' reuse' bind' listen' (daemon_Stop sv) = (r, sv') \<Longrightarrow> r \<noteq> Some Thread_replaced"
    using daemon_socket.restart[of sv "(fd', reuse', bind', listen')" r sv'] by (simp add: daemon_socket.well_kept_def)
qed

subsection \<open>The programs\<close>

text \<open>
  The exit code of the demonstration; \<open>None\<close> is an exception that nothing catches. Registering the schema is an
  operation of the third-party engine.
\<close>

definition main :: "('e, 'n) query_engine \<Rightarrow> (string \<Rightarrow> field_descriptor list \<times> nat \<Rightarrow> 'e \<Rightarrow> 'e) \<Rightarrow> slicer \<Rightarrow> bool \<Rightarrow> nat \<Rightarrow> 'e \<Rightarrow> int option" where
  "main ops register slice_n memory_ok rows_num e =
     (let batch = GenerateMockArrowData rows_num
      in case RegisterSchema (schema_fields batch) of
        Inl _ \<Rightarrow> None
      | Inr descriptors \<Rightarrow>
          (case Parse (node_builder_of ops) sql_query of
             Inl _ \<Rightarrow> Some 1
           | Inr ast_root \<Rightarrow>
               let e1 = set_expression ops ''market'' ast_root (register ''market'' descriptors e);
                   num_blocks = (rows_num + 63) div 64
               in if \<not> memory_ok then Some 1
                  else case TransposeBatch slice_n batch of
                    Inl _ \<Rightarrow> None
                  | Inr bit_planes \<Rightarrow>
                      (case execute_native ops ''market'' (concat (map put_u64 bit_planes)) (word_of_nat num_blocks) e1 of
                         (Inl _, _) \<Rightarrow> None
                       | (Inr matches, _) \<Rightarrow> Some (if matches = scalar_matches rows_num then 0 else 1))))"

text \<open>A bucket that exists already counts as created; the benchmark ignores the answer.\<close>

definition CreateBucket :: "(string \<Rightarrow> curl_result) \<Rightarrow> string \<Rightarrow> string \<Rightarrow> bool option" where
  "CreateBucket curl_put endpoint bucket =
     (if endpoint = [] then None
      else Some (case curl_put ((if last endpoint \<noteq> CHR ''/'' then endpoint @ ''/'' else endpoint) @ bucket @ ''/'') of
        Curl_response code _ \<Rightarrow> code = 200 \<or> code = 409
      | _ \<Rightarrow> False))"

definition benchmark_request :: string where
  "benchmark_request = ''QUERY ticks_large.agb WHERE '' @ sql_query @ [NEWLINE]"

text \<open>\<open>sscanf\<close> with \<open>MATCHES %lu\<close>: an unsigned number, saturated, negated after a minus sign; 0 when there is none.\<close>

definition scan_lu :: "string \<Rightarrow> u64" where
  "scan_lu s0 = (let s = dropWhile is_space s0; negative = (s \<noteq> [] \<and> hd s = CHR ''-'');
       digits = takeWhile is_digit (if s \<noteq> [] \<and> (hd s = CHR ''-'' \<or> hd s = CHR ''+'') then tl s else s);
       v = digits_value 0 digits
     in if digits = [] then 0 else if 2 ^ 64 \<le> v then -1 else if negative then - word_of_nat v else word_of_nat v)"

text \<open>Up to five attempts to connect.\<close>

definition connects :: "(nat \<Rightarrow> bool) \<Rightarrow> bool" where
  "connects attempt \<longleftrightarrow> (\<exists>retry \<in> set [0..<5]. attempt retry)"

text \<open>The exit code of the client, from the bytes the single \<open>recv\<close> delivers.\<close>

definition client_verdict :: "nat \<Rightarrow> bytes \<Rightarrow> int" where
  "client_verdict rows_num received =
     (if received = [] then 1
      else (let response = c_str received; expected_matches = scalar_matches rows_num
            in if starts_with response ''MATCHES '' then (if scan_lu (drop 8 response) = expected_matches then 0 else 1) else 1))"

definition benchmark_client :: "bool \<Rightarrow> bool \<Rightarrow> (nat \<Rightarrow> bool) \<Rightarrow> (bytes \<Rightarrow> bytes) \<Rightarrow> nat \<Rightarrow> int" where
  "benchmark_client socket_ok resolve_ok attempt exchange rows_num =
     (if \<not> socket_ok \<or> \<not> resolve_ok \<or> \<not> connects attempt then 1
      else client_verdict rows_num (take 1023 (exchange benchmark_request)))"

subsection \<open>What the engine is trusted to do\<close>

text \<open>The meaning of a predicate on a row.\<close>

fun compare_values :: "cmp_op \<Rightarrow> int \<Rightarrow> int \<Rightarrow> bool" where
  "compare_values Op_GT a b = (a > b)"
| "compare_values Op_LT a b = (a < b)"
| "compare_values Op_GE a b = (a \<ge> b)"
| "compare_values Op_LE a b = (a \<le> b)"
| "compare_values Op_EQ a b = (a = b)"

fun eval :: "(string \<Rightarrow> int) \<Rightarrow> sql_expr \<Rightarrow> int" where
  "eval env (Column s) = env s"
| "eval env (Constant n) = int n"
| "eval env (Compare c l r) = (if compare_values c (eval env l) (eval env r) then 1 else 0)"
| "eval env (Conj l r) = (if eval env l \<noteq> 0 \<and> eval env r \<noteq> 0 then 1 else 0)"

definition row_env :: "record_batch \<Rightarrow> nat \<Rightarrow> string \<Rightarrow> int" where
  "row_env batch r col = (case column_by_name batch col of None \<Rightarrow> 0 | Some a \<Rightarrow> if is_null a r then 0 else raw_value a r)"

definition rows_where :: "record_batch \<Rightarrow> sql_expr \<Rightarrow> nat set" where
  "rows_where batch expr = {r. r < batch_rows batch \<and> eval (row_env batch r) expr \<noteq> 0}"

text \<open>
  The engine counts the rows of a batch, given its bit planes: the number of blocks is all it learns about the
  rows, so a predicate that the zeros of the padding satisfy is outside of what it can promise.
\<close>

definition engine_counts :: "('e, 'n) query_engine \<Rightarrow> slicer \<Rightarrow> string \<Rightarrow> record_batch \<Rightarrow> sql_expr \<Rightarrow> 'e \<Rightarrow> bool" where
  "engine_counts ops slice_n key batch expr e \<longleftrightarrow> (\<forall>bit_planes. TransposeBatch slice_n batch = Inr bit_planes \<longrightarrow>
     (\<exists>e'. execute_native ops key (concat (map put_u64 bit_planes)) (word_of_nat (agb_blocks batch))
        (set_expression ops key (build (node_builder_of ops) expr) e) = (Inr (word_of_nat (card (rows_where batch expr))), e')))"

subsection \<open>The mock batch\<close>

definition query_expr :: sql_expr where
  "query_expr = Conj (Compare Op_GT (Column ''ask'') (Constant 10500)) (Compare Op_GT (Column ''volume'') (Constant 2000))"

lemma query_expr_facts: "printable query_expr" "eval (\<lambda>_. 0) query_expr = 0"
  by (simp_all add: query_expr_def word_ok_def is_word_start_def is_word_char_def is_alpha_def toupper_char_def less_eq_char_def
      char_of_def bit_0)

lemma Parse_sql_query: "Parse b sql_query = Inr (build b query_expr)"
proof -
  have "render (show_tokens 0 query_expr) = sql_query @ '' ''"
    by (simp add: query_expr_def sql_query_def render_def parens_def decimal.simps[of 10500] decimal.simps[of 1050] decimal.simps[of 105]
        decimal.simps[of 10] decimal.simps[of "Suc 0"] bit_0 decimal.simps[of 2000] decimal.simps[of 200] decimal.simps[of 20]
        decimal.simps[of 2] char_of_def)
  then show ?thesis using parse_render[OF query_expr_facts(1), of b] by (simp add: Parse_blank)
qed

lemma mock_columns:
  "batch_rows (GenerateMockArrowData n) = n" "length (batch_columns (GenerateMockArrowData n)) = 3"
  "column_by_name (GenerateMockArrowData n) ''ask'' = Some (uint64_column (\<lambda>i. 10000 + i) n)"
  "column_by_name (GenerateMockArrowData n) ''volume'' = Some (uint64_column (\<lambda>i. 1000 + i) n)"
  "schema_fields (GenerateMockArrowData n) = [(''ask'', Type_UINT64), (''bid'', Type_UINT64), (''volume'', Type_UINT64)]"
  by (simp_all add: GenerateMockArrowData_def batch_of_def uint64_column_def)

lemma rows_where_mock: "rows_where (GenerateMockArrowData n) query_expr = {1001..<n}"
  by (auto simp: rows_where_def query_expr_def row_env_def mock_columns uint64_column_def)

lemma scalar_matches_eq: "n < 2 ^ 62 \<Longrightarrow> scalar_matches n = word_of_nat (n - 1001)"
proof (induction n)
  case (Suc n)
  have "unat (10000 + word_of_nat n :: u64) = 10000 + n" "unat (1000 + word_of_nat n :: u64) = 1000 + n"
    using unat_u64[of "10000 + n"] unat_u64[of "1000 + n"] Suc.prems by simp_all
  then have "10500 < (10000 + word_of_nat n :: u64) \<and> 2000 < (1000 + word_of_nat n :: u64) \<longleftrightarrow> 1001 \<le> n"
    by (auto simp: word_less_nat_alt)
  then have "scalar_matches (Suc n) = (if 1001 \<le> n then scalar_matches n + 1 else scalar_matches n)"
    unfolding scalar_matches_def by (simp only: upt_Suc_append[OF le0] fold_append o_apply fold_simps Let_def)
  moreover have "(if 1001 \<le> n then word_of_nat (n - 1001) + 1 else word_of_nat (n - 1001)) = (word_of_nat (Suc n - 1001) :: u64)"
    by (cases "1001 \<le> n") (simp_all add: Suc_diff_le add.commute)
  ultimately show ?case using Suc by simp
qed (simp add: scalar_matches_def)

lemma mock_count: "n < 2 ^ 62 \<Longrightarrow> word_of_nat (card (rows_where (GenerateMockArrowData n) query_expr)) = scalar_matches n"
  by (simp add: rows_where_mock scalar_matches_eq)

lemma mock_transposed:
  "TransposeBatch slice_n (GenerateMockArrowData n) = Inr (concat (map (\<lambda>(b, f). let k = min 64 (n - b * 64)
     in slice_n (ExtractScalars (batch_columns (GenerateMockArrowData n) ! f) (b * 64) k) k)
     (List.product [0..<agb_blocks (GenerateMockArrowData n)] [0..<3])))"
proof -
  let ?b = "GenerateMockArrowData n"
  have "type_id (batch_columns ?b ! f) = Type_UINT64" if "f < 3" for f
    using that by (auto simp: GenerateMockArrowData_def batch_of_def uint64_column_def less_Suc_eq numeral_3_eq_3)
  then have "tile_planes slice_n ?b x = Inr (case x of (b, f) \<Rightarrow> let k = min 64 (n - b * 64)
      in slice_n (ExtractScalars (batch_columns ?b ! f) (b * 64) k) k)"
    if "x \<in> set (List.product [0..<agb_blocks ?b] [0..<3])" for x
    using that by (auto simp: tile_planes_def column_scalars_def integer_type_def mock_columns Let_def)
  then have "emap (tile_planes slice_n ?b) (List.product [0..<agb_blocks ?b] [0..<3]) =
      Inr (map (\<lambda>(b, f). let k = min 64 (n - b * 64) in slice_n (ExtractScalars (batch_columns ?b ! f) (b * 64) k) k)
        (List.product [0..<agb_blocks ?b] [0..<3]))"
    by (rule emap_Inr)
  then show ?thesis by (simp add: TransposeBatch_def mock_columns)
qed

subsection \<open>An engine that counts\<close>

text \<open>
  A concrete engine for the witnesses: it reads the 64-bit words of the planes of one block back, a row of three
  columns at a time, and counts the rows on which the stored predicate holds.
\<close>

definition plane_row :: "u64 list \<Rightarrow> nat \<Rightarrow> string \<Rightarrow> int" where
  "plane_row ws r col = (if col = ''ask'' then uint (ws ! r) else if col = ''bid'' then uint (ws ! (64 + r))
     else if col = ''volume'' then uint (ws ! (128 + r)) else 0)"

definition plane_engine :: "(string \<Rightarrow> sql_expr option, sql_expr) query_engine" where
  "plane_engine = \<lparr>has_schema = (\<lambda>_ _. False), register_schema = (\<lambda>_ _ _ e. e), set_expression = (\<lambda>key ast e. e(key \<mapsto> ast)),
     execute_native = (\<lambda>key planes num e. (case e key of None \<Rightarrow> Inl ''no expression''
       | Some ast \<Rightarrow> let ws = map (\<lambda>i. get_u64 (drop (8 * i) planes)) [0..<length planes div 8]
           in Inr (word_of_nat (length (filter (\<lambda>r. eval (plane_row ws r) ast \<noteq> 0) [0..<64]))), e)),
     node_builder_of = term_builder\<rparr>"

lemma build_term: "build term_builder expr = expr"
proof (induction expr)
  case (Compare c l r) then show ?case by (cases c) (simp_all add: term_builder_def)
qed (simp_all add: term_builder_def)

lemma plane_engine_counts:
  assumes "0 < n" "n \<le> 64" and zero: "eval (\<lambda>_. 0) expr = 0"
  shows "engine_counts plane_engine copy_slicer key (GenerateMockArrowData n) expr e"
  unfolding engine_counts_def
proof (intro allI impI)
  fix bit_planes
  let ?b = "GenerateMockArrowData n" and ?bs = "concat (map put_u64 bit_planes)"
  assume tr: "TransposeBatch copy_slicer ?b = Inr bit_planes"
  have one: "agb_blocks ?b = 1" using assms by (simp add: agb_blocks_def mock_columns)
  have pl: "bit_planes = concat (map (\<lambda>f. ExtractScalars (batch_columns ?b ! f) 0 n) [0, 1, 2])"
    using tr assms by (simp add: mock_transposed one copy_slicer_def upt_rec min_absorb2 numeral_2_eq_2)
  then have len: "length bit_planes = 192" by (simp add: ExtractScalars_def)
  moreover have "length ?bs = 8 * length bit_planes" using length_concat_fixed[where f=put_u64 and w=8 and xs=bit_planes] by simp
  ultimately have ws: "map (\<lambda>i. get_u64 (drop (8 * i) ?bs)) [0..<length ?bs div 8] = bit_planes"
    using get_words[of bit_planes] by simp
  have row: "plane_row bit_planes r = (if r < n then row_env ?b r else (\<lambda>_. 0))" if r: "r < 64" for r
  proof -
    let ?x = "\<lambda>f. ExtractScalars (batch_columns ?b ! f) 0 n"
    have at: "bit_planes ! r = ?x 0 ! r" "bit_planes ! (64 + r) = ?x 1 ! r" "bit_planes ! (128 + r) = ?x 2 ! r"
      using r by (simp_all add: pl nth_append ExtractScalars_def del: map_append)
    have word: "uint (10000 + word_of_nat r :: u64) = 10000 + int r" "uint (1000 + word_of_nat r :: u64) = 1000 + int r"
      using r unat_u64[of "10000 + r"] unat_u64[of "1000 + r"] by (simp_all del: of_nat_unat add: uint_nat)
    have col: "uint (?x 0 ! r) = (if r < n then int (10000 + r) else 0)" "uint (?x 1 ! r) = (if r < n then 9998 else 0)"
      "uint (?x 2 ! r) = (if r < n then int (1000 + r) else 0)"
      using r by (simp_all add: ExtractScalars_def GenerateMockArrowData_def batch_of_def uint64_column_def word)
    have env: "row_env ?b r col = (if col = ''ask'' then int (10000 + r) else if col = ''bid'' then 9998
        else if col = ''volume'' then int (1000 + r) else 0)" for col
      by (simp add: row_env_def GenerateMockArrowData_def batch_of_def uint64_column_def)
    show ?thesis by (rule ext) (simp add: plane_row_def at col[unfolded One_nat_def] env)
  qed
  have "{i. i < 64 \<and> eval (plane_row bit_planes ([0..<64] ! i)) expr \<noteq> 0} = rows_where ?b expr"
    using assms zero by (auto simp: rows_where_def row mock_columns split: if_splits)
  then have "length (filter (\<lambda>r. eval (plane_row bit_planes r) expr \<noteq> 0) [0..<64]) = card (rows_where ?b expr)"
    by (simp add: length_filter_conv_card)
  then show "\<exists>e'. execute_native plane_engine key ?bs (word_of_nat (agb_blocks ?b))
      (set_expression plane_engine key (build (node_builder_of plane_engine) expr) e) = (Inr (word_of_nat (card (rows_where ?b expr))), e')"
    using ws by (simp add: plane_engine_def build_term Let_def del: length_concat length_map)
qed

text \<open>The descriptors the connector registers for the mock batch.\<close>

definition tick_descriptors :: "field_descriptor list" where
  "tick_descriptors = map (\<lambda>(name, off). \<lparr>fd_name = name, fd_offset = off, fd_bits = 64, fd_type = Engine_UINT64\<rparr>)
     [(''ask'', 0), (''bid'', 8), (''volume'', 16)]"

lemma mock_registered: "RegisterSchema (schema_fields (GenerateMockArrowData n)) = Inr (tick_descriptors, 24)"
  by (simp add: RegisterSchema_def mock_columns tick_descriptors_def engine_type_of_def)

text \<open>
  The demonstration passes: with an engine that counts correctly, the program of the first milestone
  ends with exit code 0 for every number of rows, because its parsed query, its schema and its bit planes are those
  of the scalar loop it compares with.
\<close>

theorem main_passes:
  assumes "n < 2 ^ 62"
    and "engine_counts ops slice_n ''market'' (GenerateMockArrowData n) query_expr (register ''market'' (tick_descriptors, 24) e)"
  shows "main ops register slice_n True n e = Some 0"
proof -
  obtain planes where planes: "TransposeBatch slice_n (GenerateMockArrowData n) = Inr planes" using mock_transposed by blast
  then obtain e' where "execute_native ops ''market'' (concat (map put_u64 planes)) (word_of_nat (agb_blocks (GenerateMockArrowData n)))
        (set_expression ops ''market'' (build (node_builder_of ops) query_expr) (register ''market'' (tick_descriptors, 24) e)) = (Inr (scalar_matches n), e')"
    using assms(2) query_expr_facts unfolding engine_counts_def mock_count[OF assms(1), symmetric] by blast
  then show ?thesis using planes by (simp add: main_def Let_def Parse_sql_query agb_blocks_def mock_columns(1) mock_registered)
qed

theorem main_passes_witness:
  "main plane_engine (\<lambda>_ _ e. e) copy_slicer True 2 Map.empty = Some 0"
  by (rule main_passes) (simp_all add: plane_engine_counts query_expr_facts)

subsection \<open>The benchmark\<close>

lemma scan_lu_number: "scan_lu (to_string_u64 w @ CHR '' '' # rest) = w"
proof -
  obtain c cs where d: "decimal (unat w) = c # cs" using decimal_nonempty by (cases "decimal (unat w)") auto
  then have dg: "is_digit c" "list_all is_digit cs" using decimal_digits[of "unat w"] by simp_all
  then have all: "takeWhile is_digit (c # cs @ CHR '' '' # rest) = c # cs"
    using takeWhile_text[of is_digit "c # cs" "CHR '' ''" rest] space_classes(2) by simp
  have "\<not> is_space c" "c \<noteq> CHR ''-''" "c \<noteq> CHR ''+''" using dg(1) by (auto simp: is_digit_def is_space_def less_eq_char_def)
  moreover have v: "digits_value 0 (c # cs) = unat w" using decimal_value[of "unat w"] d by simp
  moreover have "unat w < 2 ^ 64" using unsigned_less[of w, where ?'a = nat] by simp
  ultimately show ?thesis unfolding scan_lu_def to_string_u64_def d
    by (simp add: all Let_def del: takeWhile.simps digits_value.simps)
qed

lemma verdict_of_matches: "client_verdict n (take 1023 (response_text what us (Matches (scalar_matches n)))) = 0"
proof -
  let ?r = "response_text what us (Matches (scalar_matches n))"
  have r: "?r = ''MATCHES '' @ to_string_u64 (scalar_matches n) @ CHR '' '' # ''SCAN_TIME_US '' @ to_string_u64 us @ [NEWLINE]"
    by (simp add: response_text_def)
  have "length ?r \<le> 1023" unfolding r using length_to_string_u64[of "scalar_matches n"] length_to_string_u64[of us] by simp
  then have t: "take 1023 ?r = ?r" by simp
  have "is_digit c \<Longrightarrow> c \<noteq> NUL" for c by (auto simp: is_digit_def less_eq_char_def)
  then have "NUL \<notin> set (to_string_u64 w)" for w using decimal_digits[of "unat w"] by (auto simp: to_string_u64_def list_all_iff)
  then have "c_str ?r = ?r" unfolding r by (intro c_str_id) (simp add: NEWLINE_def)
  moreover have "starts_with ?r ''MATCHES ''" "drop 8 ?r = to_string_u64 (scalar_matches n) @ CHR '' '' # ''SCAN_TIME_US '' @ to_string_u64 us @ [NEWLINE]"
    unfolding r by (simp_all add: starts_with_def is_at_def)
  moreover have "?r \<noteq> []" unfolding r by simp
  ultimately show ?thesis unfolding client_verdict_def t Let_def by (simp add: scan_lu_number)
qed

lemma benchmark_key: "plain_key ''ticks_large.agb''" "plain_predicate sql_query"
  by (simp_all add: plain_key_def plain_predicate_def sql_query_def NEWLINE_def RETURN_def)

text \<open>
  Property C40. The end-to-end benchmark passes: for an object that the writer made of the mock batch and that lies
  on the server or in the cache, however its request is cut into packets, and with an engine that counts correctly,
  the line the daemon sends back makes the client's check succeed.
\<close>

theorem benchmark_passes:
  fixes n :: nat
  defines "batch \<equiv> GenerateMockArrowData n"
  assumes "n < 2 ^ 62" "concat chunks = benchmark_request" "[] \<notin> set chunks" "cache_ok c s" "fresh_answers sys s"
    and "available sys c s ''ticks_large.agb'' data" "agb_object slice_n batch = Inr data" "\<not> has_schema ops e ''ticks_large.agb''"
    and "engine_counts ops slice_n ''ticks_large.agb'' batch query_expr (register_schema ops ''ticks_large.agb'' (schema_of batch) 24 e)"
  shows "\<exists>response z. HandleClient sys ops chunks (c, s, e) = Some (response, z) \<and>
    client_verdict n (take 1023 (response_text what us response)) = 0"
proof -
  obtain planes where planes: "TransposeBatch slice_n batch = Inr planes" unfolding batch_def using mock_transposed by blast
  have obj: "stored_object slice_n batch planes data"
    using assms(8) planes by (simp add: stored_object_def batch_def mock_columns)
  obtain e' where run: "execute_native ops ''ticks_large.agb'' (concat (map put_u64 planes)) (word_of_nat (agb_blocks batch))
        (set_expression ops ''ticks_large.agb'' (build (node_builder_of ops) query_expr)
          (register_schema ops ''ticks_large.agb'' (schema_of batch) 24 e)) = (Inr (scalar_matches n), e')"
    using assms(10) query_expr_facts planes unfolding engine_counts_def mock_count[OF assms(2), symmetric] batch_def by blast
  have "data \<noteq> []" using stored_object_header(3)[OF obj] by (auto simp: AGB_MAGIC_def)
  then obtain m c' s' where "GetOrDownload sys ''ticks_large.agb'' c s = (Inr m, c', s')" "mappings s' (map_addr m) = Some data"
    using lookup_available[OF assms(5-7)] by blast
  moreover have "answer ops ''ticks_large.agb'' sql_query data e = Some (Matches (scalar_matches n), e')"
    using run assms(9) by (intro answer_object[OF obj Parse_sql_query]) (simp add: batch_def mock_columns)
  moreover have "parse_request (strip_line (read_request [] chunks)) = Query ''ticks_large.agb'' sql_query"
    using assms(3) by (intro request_of_chunks[OF benchmark_key assms(4)]) (simp add: benchmark_request_def)
  ultimately show ?thesis using verdict_of_matches[of n what us] by (simp add: HandleClient_def)
qed

theorem benchmark_passes_witness:
  "\<exists>sys response z. HandleClient sys plane_engine [''QUERY ticks_large.agb WHERE ask > 10500'', '' AND volume > 2000'' @ [NEWLINE]]
     (demo_cache, empty_os, Map.empty) = Some (response, z) \<and> client_verdict 2 (take 1023 (response_text (\<lambda>_. []) 7 response)) = 0"
proof -
  obtain planes where planes: "TransposeBatch copy_slicer (GenerateMockArrowData 2) = Inr planes" using mock_transposed by blast
  then obtain data where data: "agb_object copy_slicer (GenerateMockArrowData 2) = Inr data" by (simp add: agb_object_def)
  have "available (demo_sys data) demo_cache empty_os ''ticks_large.agb'' data"
    by (simp add: available_def demo_sys_def demo_cache_def new_cache_def empty_os_def cache_GetS3Url_def GetS3Url_def is_express_bucket_def
        find_from_def is_at_def upt_rec)
  note pass = benchmark_passes[OF _ _ _ demo_cache_ok this data, where what="\<lambda>_. []" and us=7]
  show ?thesis
    by (intro exI[of _ "demo_sys data"] pass)
      (simp_all add: benchmark_request_def sql_query_def plane_engine_counts query_expr_facts, simp add: plane_engine_def)
qed

end
