(* ===== verification/Pg_Wire.thy ===== *)
theory Pg_Wire
  imports Query_Daemon Coordinator Table_Query
begin

text \<open>
  The PostgreSQL front end of \<open>src/lex/ecosystem/pg_wire_server.cpp\<close>: the wire format, the start-up exchange, a
  small SELECT parser, the dispatch of a query to the coordinator or to a table, and the encoding of the result.
  An exception that leaves the handler ends the process, because the handler is the body of a detached thread.
\<close>

subsection \<open>Wire format\<close>

definition WriteInt32 :: "u32 \<Rightarrow> bytes" where "WriteInt32 w = rev (le_bytes 4 (unat w))"
definition WriteInt16 :: "u16 \<Rightarrow> bytes" where "WriteInt16 w = rev (le_bytes 2 (unat w))"
definition WriteString :: "string \<Rightarrow> bytes" where "WriteString s = s @ [NUL]"
definition read_int32 :: "bytes \<Rightarrow> u32" where "read_int32 bs = word_of_nat (le_value (rev (take 4 bs)))"

definition Trim :: "string \<Rightarrow> string" where
  "Trim s = rev (dropWhile is_blank (rev (dropWhile is_blank s)))"

subsection \<open>The socket\<close>

text \<open>As in the daemon, but the result of \<open>setsockopt\<close> is not looked at.\<close>

definition pg_Start :: "int \<Rightarrow> bool \<Rightarrow> bool \<Rightarrow> server \<Rightarrow> start_error option \<times> server" where
  "pg_Start fd bind_ok listen_ok sv =
     (let sv1 = sv\<lparr>server_fd := fd\<rparr>
      in if fd = -1 then (Some Socket_failed, sv1)
         else if \<not> bind_ok then (Some Bind_failed, sv1)
         else if \<not> listen_ok then (Some Listen_failed, sv1)
         else if accepting sv then (Some Thread_replaced, sv1\<lparr>server.running := True\<rparr>)
         else (None, sv1\<lparr>server.running := True, accepting := True\<rparr>))"

definition pg_Stop :: "server \<Rightarrow> server" where
  "pg_Stop sv = (if server.running sv then sv\<lparr>server.running := False, server_fd := -1, accepting := False\<rparr> else sv)"

fun pg_AcceptLoop :: "accept_event list \<Rightarrow> int list" where
  "pg_AcceptLoop [] = []"
| "pg_AcceptLoop (Stopped # es) = []"
| "pg_AcceptLoop (Accept_failed # es) = pg_AcceptLoop es"
| "pg_AcceptLoop (Accepted fd # es) = fd # pg_AcceptLoop es"

interpretation pg_socket: tcp_server "\<lambda>(fd, bind_ok, listen_ok). pg_Start fd bind_ok listen_ok" pg_Stop
  by unfold_locales (auto simp: pg_Start_def pg_Stop_def Let_def split: prod.splits if_splits)

subsection \<open>Reading messages\<close>

text \<open>How a session can end: the connection is closed, the process dies of an exception, or undefined behaviour.\<close>

datatype session_end = Closed | Process_terminated | Undefined_behaviour

text \<open>
  The answers of the \<open>recv\<close> calls, in order; an answer of another length than asked for closes the session. A
  buffer of negative size throws.
\<close>

definition recv_n :: "int \<Rightarrow> bytes list \<Rightarrow> session_end + bytes \<times> bytes list" where
  "recv_n n answers = (case answers of
     [] \<Rightarrow> Inl Closed
   | a # rest \<Rightarrow> if int (length a) = n then Inr (a, rest) else Inl Closed)"

definition recv_payload :: "int \<Rightarrow> bytes list \<Rightarrow> session_end + bytes \<times> bytes list" where
  "recv_payload len answers = (if len < 4 then Inl Process_terminated else recv_n (len - 4) answers)"

definition recv_body :: "bytes list \<Rightarrow> session_end + bytes \<times> bytes list" where
  "recv_body answers = ebind (recv_n 4 answers) (\<lambda>(b, rest). recv_payload (sint (read_int32 b)) rest)"

text \<open>The start-up exchange: an SSL request is refused with \<open>N\<close>, then the real start-up message follows.\<close>

definition startup :: "bytes list \<Rightarrow> bytes \<times> (session_end + bytes list)" where
  "startup answers = (case recv_body answers of
     Inl e \<Rightarrow> ([], Inl e)
   | Inr (payload, rest) \<Rightarrow>
       if length payload < 4 then ([], Inl Undefined_behaviour)
       else if read_int32 payload = 80877103 then (''N'', ebind (recv_body rest) (\<lambda>(_, rest1). Inr rest1))
       else ([], Inr rest))"

definition add_param :: "string \<Rightarrow> string \<Rightarrow> bytes" where
  "add_param key val = ''S'' @ WriteInt32 (4 + word_of_nat (length key) + 1 + word_of_nat (length val) + 1) @ WriteString key @ WriteString val"

definition auth_response :: bytes where
  "auth_response = ''R'' @ WriteInt32 8 @ WriteInt32 0 @ add_param ''server_version'' ''15.0'' @ add_param ''client_encoding'' ''UTF8''
     @ add_param ''DateStyle'' ''ISO'' @ ''Z'' @ WriteInt32 5 @ ''I''"

subsection \<open>Parsing a query\<close>

definition strip_query :: "string \<Rightarrow> string" where
  "strip_query s = rev (dropWhile (\<lambda>c. c = RETURN \<or> c = NEWLINE \<or> c = CHR '';'' \<or> c = CHR '' '') (rev s))"

text \<open>\<open>cut s i j\<close> is \<open>s.substr(i, j - i)\<close> on 64-bit positions: when \<open>j\<close> lies before \<open>i\<close> the length wraps.\<close>

definition cut :: "string \<Rightarrow> u64 \<Rightarrow> u64 \<Rightarrow> string" where
  "cut s i j = substr s (unat i) (unat (j - i))"

definition word_pos :: "string \<Rightarrow> string \<Rightarrow> u64" where
  "word_pos s pat = position (find_first s pat)"

text \<open>\<open>std::getline\<close> with a comma: no item for an empty rest.\<close>

fun split_commas :: "string \<Rightarrow> string \<Rightarrow> string list" where
  "split_commas acc [] = (if acc = [] then [] else [acc])"
| "split_commas acc (c # cs) = (if c = CHR '','' then acc # split_commas [] cs else split_commas (acc @ [c]) cs)"

definition inner :: "nat \<Rightarrow> string \<Rightarrow> string" where
  "inner k item = substr item k (unat (word_of_nat (length item) - word_of_nat (k + 1) :: u64))"

definition parse_projection :: "string \<Rightarrow> aggregation_type \<times> string" where
  "parse_projection item0 =
     (let item = Trim item0; low = lowercase item
      in if low = ''count(*)'' \<or> low = ''count(1)'' then (AGG_COUNT, [])
         else if starts_with low ''sum('' then (AGG_SUM, inner 4 item)
         else if starts_with low ''avg('' then (AGG_AVG, inner 4 item)
         else if starts_with low ''min('' then (AGG_MIN, inner 4 item)
         else if starts_with low ''max('' then (AGG_MAX, inner 4 item)
         else if starts_with low ''median('' then (AGG_MEDIAN, inner 7 item)
         else if starts_with low ''distinct '' then (AGG_DISTINCT, drop 9 item)
         else (AGG_COUNT, item))"

definition parse_projections :: "string \<Rightarrow> (aggregation_type \<times> string) list" where
  "parse_projections proj_str = map parse_projection (split_commas [] proj_str)"

text \<open>The clauses between the words \<open>and\<close>; a match inside a word only moves the position.\<close>

definition word_boundary :: "string \<Rightarrow> nat \<Rightarrow> bool" where
  "word_boundary low p \<longleftrightarrow> (p = 0 \<or> is_space (low ! (p - 1)) \<or> low ! (p - 1) = CHR '')'') \<and>
     (length low \<le> p + 3 \<or> is_space (low ! (p + 3)) \<or> low ! (p + 3) = CHR ''('')"

function split_and :: "string \<Rightarrow> string \<Rightarrow> nat \<Rightarrow> string list" where
  "split_and s low pos = (case find_from low ''and'' pos of
     None \<Rightarrow> [Trim (drop pos s)]
   | Some and_pos \<Rightarrow>
       if word_boundary low and_pos then Trim (substr s pos (and_pos - pos)) # split_and s low (and_pos + 3)
       else split_and s low (and_pos + 3))"
  by pat_completeness auto
termination
  by (relation "measure (\<lambda>(s, low, pos). length low + 1 - pos)") (auto simp: find_from_Some)

declare split_and.simps [simp del]

text \<open>\<open>std::stoull\<close>; \<open>None\<close> is one of its exceptions.\<close>

definition stoull :: "string \<Rightarrow> u64 option" where
  "stoull s0 = (let s = dropWhile is_space s0; negative = (s \<noteq> [] \<and> hd s = CHR ''-'');
       digits = takeWhile is_digit (if s \<noteq> [] \<and> (hd s = CHR ''-'' \<or> hd s = CHR ''+'') then tl s else s);
       v = digits_value 0 digits
     in if digits = [] \<or> 2 ^ 64 \<le> v then None else Some (if negative then - word_of_nat v else word_of_nat v))"

definition find_operator :: "string \<Rightarrow> (predicate_op \<times> nat) option" where
  "find_operator clause = (case find_first clause ''='' of
     Some p \<Rightarrow> Some (EQ, p)
   | None \<Rightarrow> (case find_first clause ''>'' of
       Some p \<Rightarrow> Some (GT, p)
     | None \<Rightarrow> map_option (Pair LT) (find_first clause ''<'')))"

definition make_predicate :: "string \<Rightarrow> predicate_op \<Rightarrow> string \<Rightarrow> predicate option" where
  "make_predicate col opr val_str =
     (if val_str \<noteq> [] \<and> (hd val_str = CHR 0x27 \<or> hd val_str = CHR 0x22) then
        Some \<lparr>pred_column = col, pred_op = opr, pred_value = inner 1 val_str, numeric_value = 0, is_string = True\<rparr>
      else map_option (\<lambda>v. \<lparr>pred_column = col, pred_op = opr, pred_value = [], numeric_value = v, is_string = False\<rparr>) (stoull val_str))"

text \<open>A clause without an operator is dropped.\<close>

definition parse_clause :: "string \<Rightarrow> predicate list option" where
  "parse_clause clause0 =
     (let clause = Trim clause0
      in case find_operator clause of
           None \<Rightarrow> Some []
         | Some (opr, op_pos) \<Rightarrow>
             map_option (\<lambda>p. [p]) (make_predicate (Trim (take op_pos clause)) opr (Trim (drop (op_pos + 1) clause))))"

definition parse_where :: "string \<Rightarrow> predicate list option" where
  "parse_where where_str = (if where_str = [] then Some []
     else map_option concat (those (map parse_clause (split_and where_str (lowercase where_str) 0))))"

record select_query =
  sq_text :: string
  sq_projections :: "(aggregation_type \<times> string) list"
  sq_table :: string
  sq_predicates :: "predicate list"

text \<open>
  \<open>Syntax_error\<close> when SELECT or FROM is missing; \<open>Throws\<close> when a number cannot be read. The inner option of the
  positions is \<open>npos\<close>.
\<close>

datatype parsed_query = Syntax_error | Throws | Select select_query

definition parse_select :: "string \<Rightarrow> parsed_query" where
  "parse_select query_str =
     (let q_lower = lowercase query_str; select_pos = word_pos q_lower ''select''; from_pos = word_pos q_lower ''from''
      in if select_pos = -1 \<or> from_pos = -1 then Syntax_error
         else
           (let proj_str = Trim (cut query_str (select_pos + 6) from_pos);
                where_pos = word_pos q_lower ''where'';
                table_str = Trim (if where_pos \<noteq> -1 then cut query_str (from_pos + 4) where_pos else drop (unat (from_pos + 4)) query_str);
                where_str = (if where_pos \<noteq> -1 then Trim (drop (unat (where_pos + 5)) query_str) else [])
            in case parse_where where_str of
                 None \<Rightarrow> Throws
               | Some predicates \<Rightarrow> Select \<lparr>sq_text = proj_str, sq_projections = parse_projections proj_str,
                   sq_table = table_str, sq_predicates = predicates\<rparr>))"

subsection \<open>Joins\<close>

record join_query =
  jq_left :: string
  jq_right :: string
  jq_left_col :: string
  jq_right_col :: string

definition strip_table :: "string \<Rightarrow> string" where
  "strip_table col = (case find_first col ''.'' of None \<Rightarrow> col | Some p \<Rightarrow> drop (p + 1) col)"

definition parse_join :: "string \<Rightarrow> join_query" where
  "parse_join table_str =
     (let table_lower = lowercase table_str; join_pos = word_pos table_lower ''join''; on_pos = word_pos table_lower ''on'';
          on_clause = Trim (drop (unat (on_pos + 2)) table_str); eq_pos = word_pos on_clause ''=''
      in \<lparr>jq_left = Trim (cut table_str 0 join_pos), jq_right = Trim (cut table_str (join_pos + 4) on_pos),
          jq_left_col = strip_table (Trim (cut on_clause 0 eq_pos)),
          jq_right_col = strip_table (Trim (drop (unat (eq_pos + 1)) on_clause))\<rparr>)"

definition side_predicate :: "predicate \<Rightarrow> bool \<times> predicate" where
  "side_predicate p =
     (if starts_with (pred_column p) ''L.'' then (True, p\<lparr>pred_column := drop 2 (pred_column p)\<rparr>)
      else if starts_with (pred_column p) ''R.'' then (False, p\<lparr>pred_column := drop 2 (pred_column p)\<rparr>)
      else (True, p))"

definition left_preds :: "predicate list \<Rightarrow> predicate list" where
  "left_preds ps = map snd (filter fst (map side_predicate ps))"

definition right_preds :: "predicate list \<Rightarrow> predicate list" where
  "right_preds ps = map snd (filter (\<lambda>x. \<not> fst x) (map side_predicate ps))"

definition strip_side :: "string \<Rightarrow> string" where
  "strip_side col = (if starts_with col ''L.'' \<or> starts_with col ''R.'' then drop 2 col else col)"

subsection \<open>Running a query\<close>

text \<open>
  What is not under the control of the server: the network of the coordinator, the JIT runtime, the bytes behind
  a tail payload, and the text of a floating-point number.
\<close>

record pg_params =
  pg_env :: environment
  pg_rt_add :: "a64_inst list \<Rightarrow> u32"
  pg_helper :: u64
  pg_beyond :: bytes
  show_double :: "(u64 \<times> nat) option \<Rightarrow> string"

record pg_state =
  pg_node :: node
  pg_counters :: counters
  pg_coordinator :: coordinator

definition run_planned ::
    "pg_params \<Rightarrow> predicate list \<Rightarrow> aggregation_type \<Rightarrow> string \<Rightarrow> row_group \<Rightarrow> table_state \<Rightarrow> pg_state \<Rightarrow> session_end + query_result \<times> pg_state" where
  "run_planned P preds kind agg_col rg ts st =
     (case Plan (pg_rt_add P) (pg_helper P) preds rg agg_col kind of
        Inl e \<Rightarrow> Inl Process_terminated
      | Inr runner \<Rightarrow>
          (case ExecuteQueryResultTable (pg_beyond P) runner ts (pg_node st) (pg_counters st) of
             (None, c) \<Rightarrow> Inl Undefined_behaviour
           | (Some res, c) \<Rightarrow> Inr (res, st\<lparr>pg_counters := c\<rparr>)))"

definition run_table ::
    "pg_params \<Rightarrow> predicate list \<Rightarrow> aggregation_type \<Rightarrow> string \<Rightarrow> table_state \<Rightarrow> pg_state \<Rightarrow> session_end + query_result \<times> pg_state" where
  "run_table P preds kind agg_col ts st =
     (case persisted_groups ts of
        g # _ \<Rightarrow> run_planned P preds kind agg_col (groups (pg_node st) ! g) ts st
      | [] \<Rightarrow>
          (case active_memtable ts of
             None \<Rightarrow> Inr (empty_result, st)
           | Some m \<Rightarrow>
               if GetRowCount (memtables (pg_node st) ! m) = 0 then Inr (empty_result, st)
               else (case GetBatches (memtables (pg_node st) ! m) of
                  [] \<Rightarrow> Inl Undefined_behaviour
                | batch # _ \<Rightarrow>
                    (case Ingest batch of
                       Inl e \<Rightarrow> Inl Process_terminated
                     | Inr dummy_rg \<Rightarrow> run_planned P preds kind agg_col dummy_rg ts st))))"

definition run_join :: "pg_params \<Rightarrow> predicate list \<Rightarrow> string \<Rightarrow> join_query \<Rightarrow> pg_state \<Rightarrow> session_end + query_result \<times> pg_state" where
  "run_join P preds agg_col jq st =
     (case ExecuteJoinQueryExtended (pg_env P) (GetGlobalState (jq_left jq) (pg_node st)) (jq_left_col jq) (jq_right_col jq)
         (left_preds preds) (right_preds preds) (strip_side agg_col) (pg_coordinator st) of
        None \<Rightarrow> Inl Undefined_behaviour
      | Some (res, c) \<Rightarrow> Inr (res, st\<lparr>pg_coordinator := c\<rparr>))"

text \<open>The first projection alone decides what is computed; without any it is read past the end of the vector.\<close>

definition is_join :: "string \<Rightarrow> bool" where
  "is_join table_str \<longleftrightarrow> find_first (lowercase table_str) ''join'' \<noteq> None"

definition run_select :: "pg_params \<Rightarrow> select_query \<Rightarrow> pg_state \<Rightarrow> session_end + query_result \<times> pg_state" where
  "run_select P sq st =
     (if is_join (sq_table sq) then
        (case sq_projections sq of
           [] \<Rightarrow> Inl Undefined_behaviour
         | (kind, agg_col) # _ \<Rightarrow> run_join P (sq_predicates sq) agg_col (parse_join (sq_table sq)) st)
      else (case GetGlobalState (sq_table sq) (pg_node st) of
        None \<Rightarrow> Inr (empty_result, st)
      | Some ts \<Rightarrow>
          (case sq_projections sq of
             [] \<Rightarrow> Inl Undefined_behaviour
           | (kind, agg_col) # _ \<Rightarrow> run_table P (sq_predicates sq) kind agg_col ts st)))"

subsection \<open>The response\<close>

text \<open>A message: its type, its length with the length field, its payload.\<close>

definition pg_message :: "char \<Rightarrow> bytes \<Rightarrow> bytes" where
  "pg_message t payload = t # WriteInt32 (4 + word_of_nat (length payload)) @ payload"

fun column_oid :: "query_result \<Rightarrow> aggregation_type \<Rightarrow> u32 \<times> u16" where
  "column_oid res AGG_COUNT = (20, 8)"
| "column_oid res AGG_AVG = (701, 8)"
| "column_oid res AGG_DISTINCT = (if distinct_strings res \<noteq> [] then (1043, -1) else (20, 8))"
| "column_oid res _ = (20, 8)"

definition field_description :: "string \<Rightarrow> query_result \<Rightarrow> aggregation_type \<Rightarrow> bytes" where
  "field_description proj_str res kind = (case column_oid res kind of (oid, sz) \<Rightarrow>
     WriteString proj_str @ WriteInt32 0 @ WriteInt16 0 @ WriteInt32 oid @ WriteInt16 sz @ WriteInt32 (-1) @ WriteInt16 0)"

fun value_text :: "pg_params \<Rightarrow> query_result \<Rightarrow> aggregation_type \<Rightarrow> string" where
  "value_text P res AGG_COUNT = to_string_u64 (res_count res)"
| "value_text P res AGG_SUM = to_string_i64 (res_sum res)"
| "value_text P res AGG_AVG = show_double P (avg res)"
| "value_text P res AGG_MIN = to_string_i64 (min_val res)"
| "value_text P res AGG_MAX = to_string_i64 (max_val res)"
| "value_text P res AGG_MEDIAN = to_string_i64 (median_val res)"
| "value_text P res AGG_DISTINCT = to_string_u64 (distinct_count res)"

definition row_description :: "string \<Rightarrow> query_result \<Rightarrow> aggregation_type list \<Rightarrow> bytes" where
  "row_description proj_str res kinds =
     WriteInt16 (word_of_nat (length kinds)) @ concat (map (field_description proj_str res) kinds)"

definition data_value :: "string \<Rightarrow> bytes" where
  "data_value v = WriteInt32 (word_of_nat (length v)) @ v"

definition data_row :: "pg_params \<Rightarrow> query_result \<Rightarrow> aggregation_type list \<Rightarrow> bytes" where
  "data_row P res kinds = WriteInt16 (word_of_nat (length kinds)) @ concat (map (\<lambda>k. data_value (value_text P res k)) kinds)"

definition query_response :: "pg_params \<Rightarrow> string \<Rightarrow> query_result \<Rightarrow> aggregation_type list \<Rightarrow> bytes" where
  "query_response P proj_str res kinds =
     pg_message CHR ''T'' (row_description proj_str res kinds) @ pg_message CHR ''D'' (data_row P res kinds)
     @ pg_message CHR ''C'' (WriteString ''SELECT 1'') @ CHR ''Z'' # WriteInt32 5 @ ''I''"

text \<open>The error text is a C string literal with zero bytes inside: the \<open>std::string\<close> stops at the first.\<close>

definition error_response :: bytes where
  "error_response =
     (let err_msg = c_str (''SFATAL'' @ [NUL] @ ''C42601'' @ [NUL] @ ''MSyntax error'' @ [NUL])
      in ''E'' @ WriteInt32 (4 + word_of_nat (length err_msg) + 1) @ err_msg @ [NUL])"

subsection \<open>The session\<close>

text \<open>A payload without a zero byte is read past its end.\<close>

definition handle_query :: "pg_params \<Rightarrow> bytes \<Rightarrow> pg_state \<Rightarrow> session_end + bytes \<times> pg_state" where
  "handle_query P payload st =
     (if NUL \<notin> set payload then Inl Undefined_behaviour
      else case parse_select (strip_query (c_str payload)) of
        Syntax_error \<Rightarrow> Inr (error_response, st)
      | Throws \<Rightarrow> Inl Process_terminated
      | Select sq \<Rightarrow> ebind (run_select P sq st) (\<lambda>(res, st1).
          Inr (query_response P (sq_text sq) res (map fst (sq_projections sq)), st1)))"

lemma recv_n_shorter: "recv_n n answers = Inr (a, rest) \<Longrightarrow> length rest < length answers"
  by (auto simp: recv_n_def split: list.splits if_splits)

lemma recv_body_shorter: "recv_body answers = Inr (a, rest) \<Longrightarrow> length rest < length answers"
  by (auto simp: recv_body_def recv_payload_def ebind_eq_Inr split: if_splits dest!: recv_n_shorter)

text \<open>The command loop: how the session ends, what was sent, the state.\<close>

function commands :: "pg_params \<Rightarrow> bytes list \<Rightarrow> bytes list \<Rightarrow> pg_state \<Rightarrow> session_end \<times> bytes list \<times> pg_state" where
  "commands P answers sent st =
     (case recv_n 1 answers of
        Inl e \<Rightarrow> (e, sent, st)
      | Inr (type_byte, rest) \<Rightarrow>
          (case recv_body rest of
             Inl e \<Rightarrow> (e, sent, st)
           | Inr (payload, rest1) \<Rightarrow>
               if type_byte = ''X'' then (Closed, sent, st)
               else if type_byte = ''Q'' then
                 (case handle_query P payload st of
                    Inl e \<Rightarrow> (e, sent, st)
                  | Inr (response, st1) \<Rightarrow> commands P rest1 (sent @ [response]) st1)
               else commands P rest1 sent st))"
  by pat_completeness auto
termination
  by (relation "measure (\<lambda>(P, answers, sent, st). length answers)") (auto dest!: recv_n_shorter recv_body_shorter)

declare commands.simps [simp del]

definition pg_HandleClient :: "pg_params \<Rightarrow> bytes list \<Rightarrow> pg_state \<Rightarrow> session_end \<times> bytes list \<times> pg_state" where
  "pg_HandleClient P answers st = (case startup answers of
     (sent, Inl e) \<Rightarrow> (e, [sent], st)
   | (sent, Inr rest) \<Rightarrow> commands P rest [sent, auth_response] st)"

end
