(* ===== verification/Pg_Frames.thy ===== *)
theory Pg_Frames
  imports Pg_Wire
begin

text \<open>
  What a client makes of the answers of the PostgreSQL front end: a reader of the wire protocol, written from the
  protocol and not from the server, recovers from every response the messages, the column descriptions and the
  values, and the error response is one it cannot read.
\<close>

subsection \<open>A client\<close>

definition read_int16 :: "bytes \<Rightarrow> u16" where "read_int16 bs = word_of_nat (le_value (rev (take 2 bs)))"

function (sequential) client_messages :: "bytes \<Rightarrow> (char \<times> bytes) list option" where
  "client_messages [] = Some []"
| "client_messages (t # rest) =
     (let len = unat (read_int32 rest)
      in if length rest < 4 \<or> len < 4 \<or> length rest < len then None
         else map_option (Cons (t, take (len - 4) (drop 4 rest))) (client_messages (drop len rest)))"
  by pat_completeness auto
termination
  by (relation "measure length") auto

fun client_values :: "nat \<Rightarrow> bytes \<Rightarrow> string list option" where
  "client_values 0 bs = (if bs = [] then Some [] else None)"
| "client_values (Suc n) bs =
     (let len = unat (read_int32 bs)
      in if length bs < 4 + len then None
         else map_option (Cons (take len (drop 4 bs))) (client_values n (drop (4 + len) bs)))"

definition client_row :: "bytes \<Rightarrow> string list option" where
  "client_row bs = client_values (unat (read_int16 bs)) (drop 2 bs)"

fun client_fields :: "nat \<Rightarrow> bytes \<Rightarrow> (string \<times> u32 \<times> u16) list option" where
  "client_fields 0 bs = (if bs = [] then Some [] else None)"
| "client_fields (Suc n) bs =
     (let name = c_str bs; rest = drop (length name + 1) bs
      in if length rest < 18 then None
         else map_option (Cons (name, read_int32 (drop 6 rest), read_int16 (drop 10 rest))) (client_fields n (drop 18 rest)))"

definition client_columns :: "bytes \<Rightarrow> (string \<times> u32 \<times> u16) list option" where
  "client_columns bs = client_fields (unat (read_int16 bs)) (drop 2 bs)"

text \<open>The fields of an error message: a code and a text each, closed by a zero code.\<close>

fun client_error_fields :: "nat \<Rightarrow> bytes \<Rightarrow> (char \<times> string) list option" where
  "client_error_fields 0 bs = None"
| "client_error_fields (Suc n) [] = None"
| "client_error_fields (Suc n) (c # bs) =
     (if c = NUL then (if bs = [] then Some [] else None)
      else if NUL \<notin> set bs then None
      else map_option (Cons (c, c_str bs)) (client_error_fields n (drop (length (c_str bs) + 1) bs)))"

subsection \<open>Integers\<close>

lemma length_Write [simp, length_simps]: "length (WriteInt32 w) = 4" "length (WriteInt16 v) = 2"
  by (simp_all add: WriteInt32_def WriteInt16_def)

lemma read_WriteInt32 [simp, word_read]: "read_int32 (WriteInt32 w @ bs) = w"
  by (simp add: read_int32_def WriteInt32_def le_value_le_bytes unsigned_less[of w, simplified])

lemma read_WriteInt16 [simp, word_read]: "read_int16 (WriteInt16 w @ bs) = w"
  by (simp add: read_int16_def WriteInt16_def le_value_le_bytes unsigned_less[of w, simplified])

lemma unat_length_field: "n < 2 ^ 31 - 4 \<Longrightarrow> unat (4 + word_of_nat n :: u32) = 4 + n"
proof -
  assume n: "n < 2 ^ 31 - 4"
  have "(4 + word_of_nat n :: u32) = word_of_nat (4 + n)" by simp
  moreover have "4 + n < 2 ^ 32" using n by simp
  ultimately show ?thesis by (metis unat_u32)
qed

lemma unat_u16 [simp]: "n < 2 ^ 16 \<Longrightarrow> unat (word_of_nat n :: u16) = n"
  by (simp add: unat_of_nat take_bit_nat_eq_self)

lemma take_append_length: "take (length xs) (xs @ ys) = xs" "drop (length xs) (xs @ ys) = ys"
  by simp_all

subsection \<open>Messages\<close>

lemma client_message:
  assumes "length payload < 2 ^ 31 - 4"
  shows "client_messages (pg_message t payload @ rest) = map_option (Cons (t, payload)) (client_messages rest)"
proof -
  have len: "unat (4 + word_of_nat (length payload) :: u32) = 4 + length payload" by (rule unat_length_field[OF assms])
  have "drop (4 + length payload) (WriteInt32 w @ payload @ rest) = rest" for w by simp
  then show ?thesis by (simp add: pg_message_def len)
qed

lemma client_values_map:
  assumes "\<And>v. v \<in> set vs \<Longrightarrow> length v < 2 ^ 31"
  shows "client_values (length vs) (concat (map data_value vs)) = Some vs"
  using assms
proof (induction vs)
  case (Cons v vs)
  then have len: "unat (word_of_nat (length v) :: u32) = length v" by (intro unat_u32) (simp, fastforce)
  have "drop (4 + length v) (WriteInt32 w @ v @ rest) = rest" for w rest by simp
  then show ?case using Cons by (simp add: data_value_def len)
qed simp

lemma length_concat_part: "x \<in> set xs \<Longrightarrow> length (f x) \<le> length (concat (map f xs))"
  by (induction xs) auto

lemma client_row_data:
  assumes "length kinds < 2 ^ 15" "length (data_row P res kinds) < 2 ^ 31 - 4"
  shows "client_row (data_row P res kinds) = Some (map (value_text P res) kinds)"
proof -
  let ?vs = "map (value_text P res) kinds"
  have row: "data_row P res kinds = WriteInt16 (word_of_nat (length kinds)) @ concat (map data_value ?vs)"
    by (simp add: data_row_def comp_def)
  have "length v < 2 ^ 31" if "v \<in> set ?vs" for v
  proof -
    have "length (data_value v) \<le> length (concat (map data_value ?vs))"
      by (rule length_concat_part[OF that])
    then show ?thesis using assms(2) by (simp add: row data_value_def)
  qed
  then have "client_values (length ?vs) (concat (map data_value ?vs)) = Some ?vs" by (rule client_values_map)
  then show ?thesis using assms(1) by (simp add: client_row_def row)
qed

lemma c_str_WriteString: "NUL \<notin> set s \<Longrightarrow> c_str (WriteString s @ rest) = s"
  unfolding c_str_def WriteString_def by (subst append_assoc, subst takeWhile_append2) auto

lemma client_fields_map:
  assumes "NUL \<notin> set name"
  shows "client_fields (length kinds) (concat (map (field_description name res) kinds)) =
    Some (map (\<lambda>k. (name, column_oid res k)) kinds)"
proof (induction kinds)
  case (Cons k kinds)
  obtain oid sz where k: "column_oid res k = (oid, sz)" by fastforce
  let ?tail = "WriteInt32 0 @ WriteInt16 0 @ WriteInt32 oid @ WriteInt16 sz @ WriteInt32 (-1) @ WriteInt16 0"
  let ?more = "concat (map (field_description name res) kinds)"
  have desc: "field_description name res k @ ?more = WriteString name @ ?tail @ ?more" by (simp add: field_description_def k)
  have name: "c_str (WriteString name @ ?tail @ ?more) = name" by (rule c_str_WriteString[OF assms])
  have rest: "drop (length name + 1) (WriteString name @ ?tail @ ?more) = ?tail @ ?more" by (simp add: WriteString_def)
  have "client_fields (Suc (length kinds)) (WriteString name @ ?tail @ ?more) = Some ((name, oid, sz) # map (\<lambda>k. (name, column_oid res k)) kinds)"
    unfolding client_fields.simps(2) Let_def name rest using Cons by simp
  then show ?case using desc by (simp add: k del: client_fields.simps)
qed simp

lemma client_columns_description:
  assumes "NUL \<notin> set name" "length kinds < 2 ^ 15"
  shows "client_columns (row_description name res kinds) = Some (map (\<lambda>k. (name, column_oid res k)) kinds)"
  using client_fields_map[OF assms(1)] assms(2) by (simp add: client_columns_def row_description_def)

lemma response_read:
  assumes "NUL \<notin> set proj_str" "length kinds < 2 ^ 15"
    and "length (row_description proj_str res kinds) < 2 ^ 31 - 4" "length (data_row P res kinds) < 2 ^ 31 - 4"
  shows "\<exists>columns row. client_messages (query_response P proj_str res kinds) =
      Some [(CHR ''T'', columns), (CHR ''D'', row), (CHR ''C'', ''SELECT 1'' @ [NUL]), (CHR ''Z'', ''I'')] \<and>
    client_columns columns = Some (map (\<lambda>k. (proj_str, column_oid res k)) kinds) \<and>
    client_row row = Some (map (value_text P res) kinds)"
proof (intro exI conjI)
  have ready: "CHR ''Z'' # WriteInt32 5 @ ''I'' = pg_message CHR ''Z'' ''I'' @ []" by (simp add: pg_message_def)
  show "client_messages (query_response P proj_str res kinds) =
      Some [(CHR ''T'', row_description proj_str res kinds), (CHR ''D'', data_row P res kinds),
        (CHR ''C'', ''SELECT 1'' @ [NUL]), (CHR ''Z'', ''I'')]"
    using assms(3,4) by (simp add: query_response_def client_message WriteString_def ready del: append_Nil2)
  show "client_columns (row_description proj_str res kinds) = Some (map (\<lambda>k. (proj_str, column_oid res k)) kinds)"
    by (rule client_columns_description[OF assms(1,2)])
  show "client_row (data_row P res kinds) = Some (map (value_text P res) kinds)"
    by (rule client_row_data[OF assms(2,4)])
qed

text \<open>
  Property C36. A client reads every response back: the bytes the server sends for a query are exactly four
  messages, whose first describes one column per projection, whose second carries the text of the value of each
  projection in order, and which end with the command tag and the ready state.
\<close>

theorem client_reads_response:
  assumes "NUL \<notin> set proj_str" "length kinds < 2 ^ 15"
    and "length (row_description proj_str res kinds) < 2 ^ 31 - 4" "length (data_row P res kinds) < 2 ^ 31 - 4"
  shows "\<exists>columns row. client_messages (query_response P proj_str res kinds) =
      Some [(CHR ''T'', columns), (CHR ''D'', row), (CHR ''C'', ''SELECT 1'' @ [NUL]), (CHR ''Z'', ''I'')] \<and>
    client_columns columns = Some (map (\<lambda>k. (proj_str, column_oid res k)) kinds) \<and>
    client_row row = Some (map (value_text P res) kinds)"
  by (rule response_read[OF assms])

text \<open>A server with an ideal network, for the concrete runs.\<close>

definition demo_params :: pg_params where
  "demo_params = \<lparr>pg_env = \<lparr>resolves = (\<lambda>_. True), packet_order = (\<lambda>_ _ k. [0..<k]), sendto_result = (\<lambda>d. int (length d)), padding = 0,
     arrivals = (\<lambda>sent a. map Datagram (map snd (filter (\<lambda>d. fst d = a) sent)))\<rparr>,
     pg_rt_add = (\<lambda>_. 0), pg_helper = 4096, pg_beyond = [], show_double = (\<lambda>_. ''0.000000'')\<rparr>"

theorem client_reads_response_witness:
  "\<exists>columns row. client_messages (query_response demo_params ''COUNT(*), AVG(x)'' (empty_result\<lparr>res_count := 7\<rparr>) [AGG_COUNT, AGG_AVG]) =
      Some [(CHR ''T'', columns), (CHR ''D'', row), (CHR ''C'', ''SELECT 1'' @ [NUL]), (CHR ''Z'', ''I'')] \<and>
    client_columns columns = Some [(''COUNT(*), AVG(x)'', 20, 8), (''COUNT(*), AVG(x)'', 701, 8)] \<and>
    client_row row = Some [''7'', ''0.000000'']"
proof -
  let ?res = "empty_result\<lparr>res_count := 7\<rparr>"
  have seven: "to_string_u64 7 = ''7''" by (simp add: to_string_u64_def decimal.simps[of 7] char_of_def bit_0)
  have "value_text demo_params ?res AGG_COUNT = ''7''" "value_text demo_params ?res AGG_AVG = ''0.000000''"
    by (simp_all add: seven demo_params_def)
  moreover have "length (row_description ''COUNT(*), AVG(x)'' ?res [AGG_COUNT, AGG_AVG]) < 2 ^ 31 - 4"
    by (simp add: row_description_def field_description_def WriteString_def)
  ultimately show ?thesis
    using client_reads_response[of "''COUNT(*), AVG(x)''" "[AGG_COUNT, AGG_AVG]" ?res demo_params]
    by (simp add: data_row_def data_value_def)
qed

lemma error_response_unreadable:
  "\<exists>payload. client_messages error_response = Some [(CHR ''E'', payload)] \<and> client_error_fields n payload = None"
proof -
  have e: "error_response = pg_message CHR ''E'' (''SFATAL'' @ [NUL]) @ []"
    by (simp add: error_response_def Let_def c_str_def pg_message_def)
  have "client_messages error_response = Some [(CHR ''E'', ''SFATAL'' @ [NUL])]"
    unfolding e by (subst client_message) simp_all
  moreover have "client_error_fields n (''SFATAL'' @ [NUL]) = None"
    by (cases n; cases "n - 1") (auto simp: c_str_def numeral_eq_Suc)
  ultimately show ?thesis by blast
qed

end
