(* ===== verification/Pg_Select.thy ===== *)
theory Pg_Select
  imports Pg_Wire
begin

text \<open>
  The SELECT parser of the PostgreSQL front end against a printer: a query whose names and values do not contain
  the words the parser looks for is read back as it was meant, and what happens to those that do contain them.
\<close>

subsection \<open>Searching in concatenations\<close>

lemma take_append_drop_right: "drop (length a) (a @ s) = s"
  by simp

lemma is_at_append: "is_at (a @ s) w (length a + i) = is_at s w i"
  by (simp add: is_at_def)

lemma find_from_append: "find_from (a @ s) w (length a) = map_option ((+) (length a)) (find_first s w)"
proof (cases "find_first s w")
  case None
  have "\<not> is_at (a @ s) w k" if k: "length a \<le> k" "k \<le> length (a @ s)" for k
  proof -
    obtain i where "k = length a + i" using le_Suc_ex[OF k(1)] by blast
    then show ?thesis using None k(2) by (simp add: find_from_None is_at_append)
  qed
  then have "find_from (a @ s) w (length a) = None" unfolding find_from_None by blast
  then show ?thesis using None by simp
next
  case (Some j)
  then have j: "j \<le> length s" "is_at s w j" "\<And>k. k < j \<Longrightarrow> \<not> is_at s w k" by (simp_all add: find_from_Some)
  have "\<not> is_at (a @ s) w k" if k: "length a \<le> k" "k < length a + j" for k
  proof -
    obtain i where "k = length a + i" using le_Suc_ex[OF k(1)] by blast
    then show ?thesis using j(3) k(2) by (simp add: is_at_append)
  qed
  then have "find_from (a @ s) w (length a) = Some (length a + j)" unfolding find_from_Some using j(1,2) by (simp add: is_at_append)
  then show ?thesis using Some by simp
qed

text \<open>A separator that is no letter of the word keeps an occurrence on one side.\<close>

lemma is_at_left:
  assumes "b \<notin> set w" "w \<noteq> []" "k \<le> length c" "is_at (c @ b # r) w k"
  shows "is_at c w k"
proof -
  have "k + length w \<le> length c"
  proof (rule ccontr)
    assume "\<not> ?thesis"
    then have "length c - k < length w" "k + (length c - k) = length c" using assms(3) by auto
    then have "(c @ b # r) ! length c = w ! (length c - k)" using is_at_char[OF assms(4)] by metis
    then show False using assms(1) \<open>length c - k < length w\<close> by (metis nth_append_length nth_mem)
  qed
  then show ?thesis using assms(4) by (simp add: is_at_def)
qed

lemma find_first_word:
  assumes "find_first c w = None" "b \<notin> set w" "w \<noteq> []"
  shows "find_first (c @ b # w @ r) w = Some (length c + 1)"
proof -
  have "is_at ((c @ [b]) @ w @ r) w (length (c @ [b]) + 0)" unfolding is_at_append by (simp add: is_at_def)
  moreover have "\<not> is_at (c @ b # w @ r) w k" if "k \<le> length c" for k
    using is_at_left[OF assms(2,3) that] assms(1) that by (auto simp: find_from_None)
  ultimately show ?thesis by (auto simp: find_from_Some less_Suc_eq_le)
qed

lemma find_first_apart:
  assumes "find_first c w = None" "find_first d w = None" "b \<notin> set w" "w \<noteq> []"
  shows "find_first (c @ b # d) w = None"
  unfolding find_from_None
proof (intro allI impI)
  fix k assume k: "k \<le> length (c @ b # d)"
  show "\<not> is_at (c @ b # d) w k"
  proof (cases "k \<le> length c")
    case True then show ?thesis using is_at_left[OF assms(3,4) True] assms(1) by (auto simp: find_from_None)
  next
    case False
    then obtain i where i: "k = length (c @ [b]) + i" using le_Suc_ex[of "length (c @ [b])" k] by auto
    have "is_at (c @ b # d) w k = is_at d w i" using is_at_append[of "c @ [b]" d w i] by (simp add: i)
    then show ?thesis using assms(2) k by (simp add: find_from_None i)
  qed
qed

lemma find_first_char: "c \<notin> set a \<Longrightarrow> find_first (a @ c # b) [c] = Some (length a)"
proof -
  assume c: "c \<notin> set a"
  have "\<not> is_at (a @ c # b) [c] k" if "k < length a" for k
    using is_at_char[of "a @ c # b" "[c]" k 0] c that nth_mem[of k a] by (auto simp: nth_append)
  moreover have "is_at (a @ c # b) [c] (length a)" by (simp add: is_at_def)
  ultimately show ?thesis by (simp add: find_from_Some)
qed

lemma find_first_char_None: "c \<notin> set s \<Longrightarrow> find_first s [c] = None"
  unfolding find_from_None
proof (intro allI impI notI)
  fix k assume "c \<notin> set s" "is_at s [c] k"
  then show False using is_at_char[of s "[c]" k 0] nth_mem[of k s] by simp
qed

subsection \<open>Trimming\<close>

lemma Trim_pad:
  assumes "\<forall>c\<in>set l. is_blank c" "\<forall>c\<in>set r. is_blank c" "s \<noteq> []" "\<not> is_blank (hd s)" "\<not> is_blank (last s)"
  shows "Trim (l @ s @ r) = s"
proof -
  obtain x xs where s: "s = x # xs" using assms(3) by (cases s) auto
  obtain y ys where rs: "rev s = y # ys" using assms(3) by (cases "rev s") auto
  have y: "\<not> is_blank y" using assms(3,5) rs by (metis hd_rev list.sel(1))
  have "dropWhile is_blank (l @ s @ r) = s @ r" using assms(1,4) s by (simp add: dropWhile_append2)
  moreover have "dropWhile is_blank (rev r @ y # ys) = y # ys" using assms(2) y by (subst dropWhile_append2) auto
  then have "dropWhile is_blank (rev (s @ r)) = rev s" by (simp add: rs)
  ultimately show ?thesis by (simp add: Trim_def)
qed

definition trimmed :: "string \<Rightarrow> bool" where
  "trimmed s \<longleftrightarrow> s \<noteq> [] \<and> \<not> is_blank (hd s) \<and> \<not> is_blank (last s)"

lemma blank_space [simp]: "is_blank CHR '' ''" by (simp add: is_blank_def)

lemma Trim_trimmed:
  assumes "trimmed s"
  shows "Trim s = s" "Trim (CHR '' '' # s) = s" "Trim (s @ '' '') = s" "Trim (CHR '' '' # s @ '' '') = s"
  using assms Trim_pad[of "[]" "[]" s] Trim_pad[of "'' ''" "[]" s] Trim_pad[of "[]" "'' ''" s] Trim_pad[of "'' ''" "'' ''" s]
  by (simp_all add: trimmed_def)

subsection \<open>Clauses between AND\<close>

fun with_and :: "string list \<Rightarrow> string" where
  "with_and [] = []"
| "with_and [c] = c"
| "with_and (c # d # cs) = c @ '' AND '' @ with_and (d # cs)"

definition no_word :: "string \<Rightarrow> string \<Rightarrow> bool" where
  "no_word w s \<longleftrightarrow> find_first (lowercase s) w = None"

lemma lowercase_append [simp]: "lowercase (a @ b) = lowercase a @ lowercase b" "lowercase (c # s) = tolower_char c # lowercase s"
    "lowercase [] = []"
  by (simp_all add: lowercase_def)

lemma lower_chars [simp]: "tolower_char CHR '' '' = CHR '' ''" "tolower_char CHR ''A'' = CHR ''a''"
    "tolower_char CHR ''N'' = CHR ''n''" "tolower_char CHR ''D'' = CHR ''d''"
  by (simp_all add: tolower_char_def less_eq_char_def char_of_def bit_0)

lemma no_word_space: "no_word w s \<Longrightarrow> w \<noteq> [] \<Longrightarrow> CHR '' '' \<notin> set w \<Longrightarrow> no_word w (CHR '' '' # s)"
  using find_first_apart[of "[]" w "lowercase s" "CHR '' ''"] by (simp add: no_word_def find_from_None is_at_def)

lemma split_and_last:
  assumes "no_word ''and'' c"
  shows "split_and (pre @ c) (lowercase (pre @ c)) (length pre) = [Trim c]"
  using assms find_from_append[of "lowercase pre" "lowercase c" "''and''"]
  by (subst split_and.simps) (simp add: no_word_def)

lemma split_and_step:
  assumes "no_word ''and'' c"
  shows "split_and (pre @ c @ '' AND '' @ r) (lowercase (pre @ c @ '' AND '' @ r)) (length pre) =
    Trim c # split_and ((pre @ c @ '' AND'') @ '' '' @ r) (lowercase ((pre @ c @ '' AND'') @ '' '' @ r)) (length (pre @ c @ '' AND''))"
proof -
  let ?s = "pre @ c @ '' AND '' @ r"
  let ?p = "length pre + (length c + 1)"
  have "find_first (lowercase c @ CHR '' '' # ''and'' @ CHR '' '' # lowercase r) ''and'' = Some (length c + 1)"
    using find_first_word[of "lowercase c" "''and''" "CHR '' ''" "CHR '' '' # lowercase r"] assms by (simp add: no_word_def)
  then have found: "find_from (lowercase ?s) ''and'' (length pre) = Some ?p"
    using find_from_append[of "lowercase pre" "lowercase c @ CHR '' '' # ''and'' @ CHR '' '' # lowercase r" "''and''"] by simp
  have "lowercase ?s ! (length (lowercase pre @ lowercase c) + i) = (CHR '' '' # ''and'' @ CHR '' '' # lowercase r) ! i" for i
    using nth_append_length_plus[of "lowercase pre @ lowercase c" "CHR '' '' # ''and'' @ CHR '' '' # lowercase r" i] by simp
  from this[of 0] this[of 4] have boundary: "word_boundary (lowercase ?s) ?p"
    by (simp add: word_boundary_def is_space_def add.assoc add.commute add.left_commute)
  have "substr ?s (length pre) (?p - length pre) = c @ '' ''" by (simp add: substr_def)
  moreover have "Trim (c @ '' '') = Trim c"
  proof (cases "dropWhile is_blank c = []")
    case True
    then have "dropWhile is_blank (c @ '' '') = []" by (simp add: dropWhile_eq_Nil_conv)
    then show ?thesis unfolding Trim_def True by simp
  next
    case False
    then obtain x where "x \<in> set c" "\<not> is_blank x" by (auto simp: dropWhile_eq_Nil_conv)
    then have "dropWhile is_blank (c @ '' '') = dropWhile is_blank c @ '' ''" by (rule dropWhile_append1)
    then show ?thesis by (simp add: Trim_def)
  qed
  moreover have "?p + 3 = length (pre @ c @ '' AND'')" "?s = (pre @ c @ '' AND'') @ '' '' @ r" by simp_all
  ultimately show ?thesis using found boundary by (subst split_and.simps) (simp add: numeral_eq_Suc)
qed

lemma split_with_and:
  assumes "\<forall>c\<in>set cs. no_word ''and'' c \<and> trimmed c" "cs \<noteq> []" "l = [] \<or> l = '' ''"
  shows "split_and (pre @ l @ with_and cs) (lowercase (pre @ l @ with_and cs)) (length pre) = cs"
  using assms
proof (induction cs arbitrary: pre l rule: with_and.induct)
  case (2 c)
  then have "no_word ''and'' (l @ c)" using no_word_space[of "''and''" c] by auto
  moreover have "Trim (l @ c) = c" using 2 Trim_trimmed(1,2)[of c] by auto
  ultimately show ?case using split_and_last[of "l @ c" pre] by simp
next
  case (3 c d cs)
  have c: "no_word ''and'' (l @ c)" "Trim (l @ c) = c"
    using 3(2,4) no_word_space[of "''and''" c] Trim_trimmed(1,2)[of c] by auto
  have "split_and ((pre @ (l @ c) @ '' AND'') @ '' '' @ with_and (d # cs)) (lowercase ((pre @ (l @ c) @ '' AND'') @ '' '' @ with_and (d # cs)))
      (length (pre @ (l @ c) @ '' AND'')) = d # cs"
    using 3(2) by (intro 3(1)) auto
  then show ?case using split_and_step[OF c(1), of pre "with_and (d # cs)"] c(2) by simp
qed simp

text \<open>A column whose name contains the letters: the text before them is lost.\<close>

lemma and_inside_a_word: "split_and ''a = 1 and brand = 5'' (lowercase ''a = 1 and brand = 5'') 0 = [''a = 1'', ''= 5'']"
  by (simp add: split_and.simps find_from_def is_at_def word_boundary_def is_space_def is_blank_def Trim_def substr_def upt_rec
      tolower_char_def less_eq_char_def)

subsection \<open>Clauses and their text\<close>

fun op_text :: "predicate_op \<Rightarrow> char" where
  "op_text EQ = CHR ''=''"
| "op_text GT = CHR ''>''"
| "op_text _ = CHR ''<''"

definition value_of_text :: "predicate \<Rightarrow> string" where
  "value_of_text p = (if is_string p then [CHR 0x27] @ pred_value p @ [CHR 0x27] else to_string_u64 (numeric_value p))"

definition show_clause :: "predicate \<Rightarrow> string" where
  "show_clause p = pred_column p @ '' '' @ [op_text (pred_op p)] @ '' '' @ value_of_text p"

text \<open>The operators the parser looks for before the one that is meant.\<close>

fun earlier_ops :: "predicate_op \<Rightarrow> char set" where
  "earlier_ops EQ = {}"
| "earlier_ops GT = {CHR ''=''}"
| "earlier_ops _ = {CHR ''='', CHR ''>''}"

definition clause_ok :: "predicate \<Rightarrow> bool" where
  "clause_ok p \<longleftrightarrow> pred_op p \<in> {EQ, GT, LT} \<and> trimmed (pred_column p) \<and>
     {CHR ''='', CHR ''>'', CHR ''<''} \<inter> set (pred_column p) = {} \<and> earlier_ops (pred_op p) \<inter> set (value_of_text p) = {} \<and>
     no_word ''and'' (show_clause p) \<and>
     (if is_string p then numeric_value p = 0 \<and> length (pred_value p) < 2 ^ 62 else pred_value p = [])"

lemma digit_plain: "is_digit c \<Longrightarrow> \<not> is_blank c \<and> \<not> is_space c \<and> c \<noteq> CHR ''-'' \<and> c \<noteq> CHR ''+'' \<and> c \<noteq> CHR 0x27 \<and> c \<noteq> CHR 0x22"
  by (auto simp: is_digit_def is_blank_def is_space_def less_eq_char_def)

lemma decimal_ends: "is_digit (hd (decimal n))" "is_digit (last (decimal n))"
  using decimal_digits[of n] decimal_nonempty[of n] hd_in_set[of "decimal n"] last_in_set[of "decimal n"]
  by (auto simp: list_all_iff simp del: decimal_nonempty)

lemma trimmed_value: "trimmed (value_of_text p)"
  using digit_plain decimal_ends[of "unat (numeric_value p)"] 
  by (auto simp: trimmed_def value_of_text_def to_string_u64_def is_blank_def)

lemma stoull_decimal: "stoull (to_string_u64 w) = Some w"
proof -
  obtain c cs where d: "decimal (unat w) = c # cs" using decimal_nonempty by (cases "decimal (unat w)") auto
  then have dg: "is_digit c" "list_all is_digit cs" using decimal_digits[of "unat w"] by simp_all
  then have all: "takeWhile is_digit (c # cs) = c # cs" by (simp add: takeWhile_eq_all_conv list_all_iff)
  have c: "\<not> is_space c" "c \<noteq> CHR ''-''" "c \<noteq> CHR ''+''" using digit_plain[OF dg(1)] by simp_all
  have v: "digits_value 0 (c # cs) = unat w" using decimal_value[of "unat w"] d by simp
  have "unat w < 2 ^ 64" using unsigned_less[of w] by simp
  then show ?thesis unfolding stoull_def to_string_u64_def d
    by (simp add: c all v Let_def del: takeWhile.simps digits_value.simps)
qed

lemma make_predicate_value:
  assumes "clause_ok p"
  shows "make_predicate (pred_column p) (pred_op p) (value_of_text p) = Some p"
proof (cases "is_string p")
  case True
  have "length (pred_value p) < 2 ^ 64" using assms True by (simp add: clause_ok_def)
  then have "inner 1 (CHR 0x27 # pred_value p @ [CHR 0x27]) = pred_value p"
    by (simp add: inner_def substr_def numeral_2_eq_2[symmetric])
  then show ?thesis using assms True by (cases p) (simp add: make_predicate_def value_of_text_def clause_ok_def)
next
  case False
  have "hd (to_string_u64 w) \<noteq> CHR 0x27 \<and> hd (to_string_u64 w) \<noteq> CHR 0x22" for w
    using digit_plain decimal_ends by (simp add: to_string_u64_def)
  then show ?thesis using assms False by (cases p) (simp add: make_predicate_def value_of_text_def clause_ok_def stoull_decimal)
qed

lemma find_operator_clause:
  assumes "clause_ok p"
  shows "find_operator (show_clause p) = Some (pred_op p, length (pred_column p) + 1)"
proof -
  let ?c = "pred_column p @ '' ''" and ?v = "CHR '' '' # value_of_text p"
  have s: "show_clause p = ?c @ op_text (pred_op p) # ?v" by (simp add: show_clause_def)
  have "op_text (pred_op p) \<notin> set ?c" using assms by (cases "pred_op p") (auto simp: clause_ok_def)
  then have hit: "find_first (show_clause p) [op_text (pred_op p)] = Some (length ?c)" unfolding s by (rule find_first_char)
  have miss: "x \<in> earlier_ops (pred_op p) \<Longrightarrow> find_first (show_clause p) [x] = None" for x
    unfolding s using assms by (intro find_first_char_None) (cases "pred_op p"; force simp: clause_ok_def)
  show ?thesis using assms hit miss by (cases "pred_op p") (simp_all add: find_operator_def clause_ok_def)
qed

lemma trimmed_clause: "clause_ok p \<Longrightarrow> trimmed (show_clause p)"
  using trimmed_value[of p] by (auto simp: trimmed_def show_clause_def clause_ok_def)

lemma parse_clause_show:
  assumes "clause_ok p"
  shows "parse_clause (show_clause p) = Some [p]"
proof -
  let ?c = "pred_column p @ '' ''" and ?v = "'' '' @ value_of_text p"
  have s: "show_clause p = ?c @ op_text (pred_op p) # ?v" by (simp add: show_clause_def)
  have parts: "take (length (pred_column p) + 1) (show_clause p) = ?c" "drop (length (pred_column p) + 1 + 1) (show_clause p) = ?v"
    unfolding s by simp_all
  have "Trim ?c = pred_column p" "Trim ?v = value_of_text p"
    using Trim_trimmed(3)[of "pred_column p"] Trim_trimmed(2)[OF trimmed_value[of p]] assms by (simp_all add: clause_ok_def)
  then show ?thesis unfolding parse_clause_def Trim_trimmed(1)[OF trimmed_clause[OF assms]] find_operator_clause[OF assms] Let_def
      option.case prod.case parts using make_predicate_value[OF assms] by simp
qed

definition where_text :: "predicate list \<Rightarrow> string" where
  "where_text ps = with_and (map show_clause ps)"

lemma parse_where_text:
  assumes "\<forall>p\<in>set ps. clause_ok p" "ps \<noteq> []"
  shows "parse_where (where_text ps) = Some ps"
proof -
  have "split_and ([] @ [] @ where_text ps) (lowercase ([] @ [] @ where_text ps)) (length ([] :: string)) = map show_clause ps"
    unfolding where_text_def using assms trimmed_clause by (intro split_with_and) (auto simp: clause_ok_def)
  then have split: "split_and (where_text ps) (lowercase (where_text ps)) 0 = map show_clause ps" by simp
  have "where_text ps \<noteq> []"
  proof -
    obtain p qs where "ps = p # qs" using assms(2) by (cases ps) auto
    then show ?thesis using trimmed_clause[of p] assms(1) by (cases qs) (auto simp: where_text_def trimmed_def)
  qed
  moreover have "those (map parse_clause (map show_clause ps)) = Some (map (\<lambda>p. [p]) ps)"
    using assms(1) parse_clause_show by (induction ps) (auto split: option.splits)
  moreover have "concat (map (\<lambda>p. [p]) ps) = ps" by (induction ps) simp_all
  ultimately show ?thesis by (simp add: parse_where_def split)
qed

subsection \<open>A whole query\<close>

definition select_text :: "string \<Rightarrow> string \<Rightarrow> predicate list \<Rightarrow> string" where
  "select_text proj tbl ps = ''SELECT '' @ proj @ '' FROM '' @ tbl @ '' WHERE '' @ where_text ps"

definition select_ok :: "string \<Rightarrow> string \<Rightarrow> predicate list \<Rightarrow> bool" where
  "select_ok proj tbl ps \<longleftrightarrow> trimmed proj \<and> trimmed tbl \<and> no_word ''from'' proj \<and> no_word ''where'' proj \<and> no_word ''where'' tbl \<and>
     (\<forall>p\<in>set ps. clause_ok p) \<and> ps \<noteq> [] \<and> length (select_text proj tbl ps) < 2 ^ 62"

lemma with_and_ends:
  assumes "\<forall>c\<in>set cs. c \<noteq> []" "cs \<noteq> []"
  shows "with_and cs \<noteq> [] \<and> hd (with_and cs) = hd (hd cs) \<and> last (with_and cs) = last (last cs)"
  using assms by (induction cs rule: with_and.induct) auto

lemma where_text_trimmed:
  assumes "\<forall>p\<in>set ps. clause_ok p" "ps \<noteq> []"
  shows "trimmed (where_text ps)" "last (where_text ps) = last (show_clause (last ps))"
proof -
  have ne: "\<forall>c\<in>set (map show_clause ps). c \<noteq> []" using assms(1) trimmed_clause by (auto simp: trimmed_def)
  note ends = with_and_ends[OF ne, folded where_text_def]
  show "last (where_text ps) = last (show_clause (last ps))" using ends assms(2) by (simp add: last_map)
  have "clause_ok (hd ps)" "clause_ok (last ps)" using assms by simp_all
  then show "trimmed (where_text ps)" using ends assms(2) trimmed_clause[of "hd ps"] trimmed_clause[of "last ps"]
    by (simp add: trimmed_def last_map hd_map)
qed

lemma position_small:
  assumes "k < 2 ^ 62"
  shows "position (Some k) \<noteq> -1" "unat (position (Some k)) = k" "position (Some k) = word_of_nat k"
proof -
  show u: "unat (position (Some k)) = k" using assms by (simp add: position_def)
  show "position (Some k) \<noteq> -1"
  proof
    assume "position (Some k) = -1"
    then have "k = 2 ^ 64 - 1" using u by (simp add: unsigned_minus_1_eq_mask mask_eq_exp_minus_1)
    then show False using assms by simp
  qed
qed (simp add: position_def)

lemma lower_words [simp]: "lowercase ''SELECT'' = ''select''" "lowercase ''FROM'' = ''from''" "lowercase ''WHERE'' = ''where''"
  by (simp_all add: tolower_char_def less_eq_char_def char_of_def bit_0)

lemma no_short_words: "find_first ''select'' ''from'' = None" "find_first ''select'' ''where'' = None" "find_first ''from'' ''where'' = None"
  by (simp_all add: find_from_def is_at_def upt_rec)

lemma select_positions:
  assumes "select_ok proj tbl ps"
  defines "low \<equiv> lowercase (select_text proj tbl ps)"
  shows "find_first low ''select'' = Some 0" "find_first low ''from'' = Some (length proj + 8)"
    "find_first low ''where'' = Some (length proj + length tbl + 14)"
proof -
  let ?p = "lowercase proj" and ?t = "lowercase tbl" and ?w = "lowercase (where_text ps)"
  have low: "low = ''select'' @ CHR '' '' # ?p @ CHR '' '' # ''from'' @ CHR '' '' # ?t @ CHR '' '' # ''where'' @ CHR '' '' # ?w"
    by (simp add: low_def select_text_def tolower_char_def less_eq_char_def char_of_def bit_0)
  show "find_first low ''select'' = Some 0" by (simp add: low find_from_Some is_at_def)
  have f: "find_first ?p ''from'' = None" "find_first ?p ''where'' = None" "find_first ?t ''where'' = None"
    using assms(1) by (simp_all add: select_ok_def no_word_def)
  have "find_first (''select'' @ CHR '' '' # ?p) ''from'' = None"
    by (rule find_first_apart[OF no_short_words(1) f(1)]) simp_all
  from find_first_word[OF this, of "CHR '' ''"] show "find_first low ''from'' = Some (length proj + 8)"
    by (simp add: low)
  have "find_first ((''select'' @ CHR '' '' # ?p) @ CHR '' '' # (''from'' @ CHR '' '' # ?t)) ''where'' = None"
    by (intro find_first_apart no_short_words f) simp_all
  from find_first_word[OF this, of "CHR '' ''"] show "find_first low ''where'' = Some (length proj + length tbl + 14)"
    by (simp add: low)
qed

lemma parse_select_eq:
  assumes "select_ok proj tbl ps"
  shows "parse_select (select_text proj tbl ps) =
    Select \<lparr>sq_text = proj, sq_projections = parse_projections proj, sq_table = tbl, sq_predicates = ps\<rparr>"
proof -
  let ?q = "select_text proj tbl ps" and ?n = "length proj" and ?m = "length tbl"
  have ok: "trimmed proj" "trimmed tbl" "\<forall>p\<in>set ps. clause_ok p" "ps \<noteq> []" using assms by (simp_all add: select_ok_def)
  have len: "?n + ?m + 20 < 2 ^ 62" using assms by (simp add: select_ok_def select_text_def)
  note pos = select_positions[OF assms]
  have wp: "word_pos (lowercase ?q) ''select'' = 0" "word_pos (lowercase ?q) ''from'' = word_of_nat (?n + 8)"
    "word_pos (lowercase ?q) ''where'' = word_of_nat (?n + ?m + 14)"
    by (simp_all add: word_pos_def pos position_def)
  have some: "word_of_nat (?n + 8) \<noteq> (-1 :: u64)" "word_of_nat (?n + ?m + 14) \<noteq> (-1 :: u64)"
    using position_small(1,3)[of "?n + 8"] position_small(1,3)[of "?n + ?m + 14"] len by (simp_all del: of_nat_add)
  have u: "unat (0 + 6 :: u64) = 6" "unat (word_of_nat (?n + 8) - (0 + 6) :: u64) = ?n + 2"
    "unat (word_of_nat (?n + 8) + 4 :: u64) = ?n + 12" "unat (word_of_nat (?n + ?m + 14) - (word_of_nat (?n + 8) + 4) :: u64) = ?m + 2"
    "unat (word_of_nat (?n + ?m + 14) + 5 :: u64) = ?n + ?m + 19"
  proof -
    have e: "(word_of_nat (?n + 8) - (0 + 6) :: u64) = word_of_nat (?n + 2)" "(word_of_nat (?n + 8) + 4 :: u64) = word_of_nat (?n + 12)"
      "(word_of_nat (?n + ?m + 14) - (word_of_nat (?n + 8) + 4) :: u64) = word_of_nat (?m + 2)"
      "(word_of_nat (?n + ?m + 14) + 5 :: u64) = word_of_nat (?n + ?m + 19)" by simp_all
    show "unat (word_of_nat (?n + 8) - (0 + 6) :: u64) = ?n + 2" by (subst e(1), rule unat_u64) (use len in simp)
    show "unat (word_of_nat (?n + 8) + 4 :: u64) = ?n + 12" by (subst e(2), rule unat_u64) (use len in simp)
    show "unat (word_of_nat (?n + ?m + 14) - (word_of_nat (?n + 8) + 4) :: u64) = ?m + 2" by (subst e(3), rule unat_u64) (use len in simp)
    show "unat (word_of_nat (?n + ?m + 14) + 5 :: u64) = ?n + ?m + 19" by (subst e(4), rule unat_u64) (use len in simp)
  qed simp
  have q1: "?q = ''SELECT'' @ (CHR '' '' # proj @ '' '') @ ''FROM '' @ tbl @ '' WHERE '' @ where_text ps" by (simp add: select_text_def)
  have q2: "?q = (''SELECT '' @ proj @ '' FROM'') @ (CHR '' '' # tbl @ '' '') @ ''WHERE '' @ where_text ps" by (simp add: select_text_def)
  have q3: "?q = (''SELECT '' @ proj @ '' FROM '' @ tbl @ '' WHERE'') @ CHR '' '' # where_text ps" by (simp add: select_text_def)
  have c1: "Trim (cut ?q (0 + 6) (word_of_nat (?n + 8))) = proj"
  proof -
    have "cut ?q (0 + 6) (word_of_nat (?n + 8)) = substr ?q 6 (?n + 2)" unfolding cut_def u ..
    also have "\<dots> = CHR '' '' # proj @ '' ''" unfolding q1 by (simp add: substr_def)
    finally show ?thesis using Trim_trimmed(4)[OF ok(1)] by simp
  qed
  have c2: "Trim (cut ?q (word_of_nat (?n + 8) + 4) (word_of_nat (?n + ?m + 14))) = tbl"
  proof -
    have "drop (length (''SELECT '' @ proj @ '' FROM'')) ?q = (CHR '' '' # tbl @ '' '') @ ''WHERE '' @ where_text ps"
      unfolding q2 by (rule take_append_drop_right)
    moreover have "length (''SELECT '' @ proj @ '' FROM'') = ?n + 12" by simp
    ultimately have "drop (?n + 12) ?q = (CHR '' '' # tbl @ '' '') @ ''WHERE '' @ where_text ps" by argo
    then have "cut ?q (word_of_nat (?n + 8) + 4) (word_of_nat (?n + ?m + 14)) = CHR '' '' # tbl @ '' ''"
      unfolding cut_def u substr_def by simp
    then show ?thesis using Trim_trimmed(4)[OF ok(2)] by simp
  qed
  have c3: "Trim (drop (?n + ?m + 19) ?q) = where_text ps"
  proof -
    have "drop (length (''SELECT '' @ proj @ '' FROM '' @ tbl @ '' WHERE'')) ?q = CHR '' '' # where_text ps"
      unfolding q3 by (rule take_append_drop_right)
    moreover have "length (''SELECT '' @ proj @ '' FROM '' @ tbl @ '' WHERE'') = ?n + ?m + 19" by simp
    ultimately have "drop (?n + ?m + 19) ?q = CHR '' '' # where_text ps" by argo
    then show ?thesis using Trim_trimmed(2)[OF where_text_trimmed(1)[OF ok(3,4)]] by simp
  qed
  show ?thesis unfolding parse_select_def Let_def wp using some c1 c2 c3 u(5) parse_where_text[OF ok(3,4)] by simp
qed

text \<open>
  Property C37. The SELECT parser inverts the printer: a query with one or more conditions, whose table, projection
  and values contain none of the words the parser looks for, is parsed to exactly its projections, its table and
  its predicates, in order.
\<close>

theorem select_roundtrip:
  assumes "select_ok proj tbl ps"
  shows "parse_select (select_text proj tbl ps) =
    Select \<lparr>sq_text = proj, sq_projections = parse_projections proj, sq_table = tbl, sq_predicates = ps\<rparr>"
  by (rule parse_select_eq[OF assms])

definition price_above :: "u64 \<Rightarrow> predicate" where
  "price_above v = \<lparr>pred_column = ''price'', pred_op = GT, pred_value = [], numeric_value = v, is_string = False\<rparr>"

definition name_equals :: "string \<Rightarrow> predicate" where
  "name_equals v = \<lparr>pred_column = ''name'', pred_op = EQ, pred_value = v, numeric_value = 0, is_string = True\<rparr>"

lemma decimal_42: "to_string_u64 42 = ''42''"
  by (simp add: to_string_u64_def decimal.simps[of 42] decimal.simps[of 4] char_of_def bit_0)

lemma demo_clauses:
  "show_clause (price_above 42) = ''price > 42''" "show_clause (name_equals ''x>y'') = ''name = '' @ [CHR 0x27] @ ''x>y'' @ [CHR 0x27]"
  by (simp_all add: show_clause_def price_above_def name_equals_def value_of_text_def decimal_42)

lemma demo_clauses_ok: "clause_ok (price_above 42)" "clause_ok (name_equals ''x>y'')"
  by (simp_all add: clause_ok_def demo_clauses no_word_def)
    (simp_all add: price_above_def name_equals_def value_of_text_def decimal_42 trimmed_def is_blank_def find_from_def is_at_def
      upt_rec tolower_char_def less_eq_char_def)

theorem select_roundtrip_witness:
  "parse_select (''SELECT SUM(qty) FROM trades WHERE price > 42 AND name = '' @ [CHR 0x27] @ ''x>y'' @ [CHR 0x27]) =
    Select \<lparr>sq_text = ''SUM(qty)'', sq_projections = [(AGG_SUM, ''qty'')], sq_table = ''trades'',
      sq_predicates = [price_above 42, name_equals ''x>y'']\<rparr>"
proof -
  have shown: "select_text ''SUM(qty)'' ''trades'' [price_above 42, name_equals ''x>y''] =
      ''SELECT SUM(qty) FROM trades WHERE price > 42 AND name = '' @ [CHR 0x27] @ ''x>y'' @ [CHR 0x27]"
    by (simp add: select_text_def where_text_def demo_clauses)
  have words: "no_word ''from'' ''SUM(qty)''" "no_word ''where'' ''SUM(qty)''" "no_word ''where'' ''trades''"
    by (simp_all add: no_word_def find_from_def is_at_def upt_rec tolower_char_def less_eq_char_def char_of_def bit_0)
  have "select_ok ''SUM(qty)'' ''trades'' [price_above 42, name_equals ''x>y'']"
    unfolding select_ok_def shown using words demo_clauses_ok by (simp add: trimmed_def is_blank_def)
  moreover have "parse_projections ''SUM(qty)'' = [(AGG_SUM, ''qty'')]"
    by (simp add: parse_projections_def parse_projection_def Trim_def is_blank_def starts_with_def is_at_def inner_def substr_def
        tolower_char_def less_eq_char_def char_of_def bit_0)
  ultimately show ?thesis using select_roundtrip unfolding shown[symmetric] by metis
qed

end
