(* ===== verification/Pg_Query.thy ===== *)
theory Pg_Query
  imports Pg_Frames Pg_Select
begin

text \<open>
  Queries through the PostgreSQL front end, from the text a client sends to the values it reads: a count over a
  table, and the query without conditions, which ends the server process.
\<close>

subsection \<open>Counting through the wire\<close>

lemma value_batches_count:
  assumes "\<forall>batch\<in>set bs. well_typed batch preds []"
  shows "value_batches preds [] bs (cnt, [], [], False) =
    Some (cnt + (\<Sum>batch\<leftarrow>bs. word_of_nat (card (rows_matching batch preds))), [], [], False)"
  using assms
proof (induction bs arbitrary: cnt)
  case (Cons batch bs)
  have "batch_rows batch = 0 \<Longrightarrow> rows_matching batch preds = {}" by (simp add: rows_matching_def)
  then show ?case using Cons batch_matches_eq[of batch preds "[]"] by (auto simp: batch_values_def add.assoc)
qed simp

lemma memtable_count:
  assumes "\<forall>batch\<in>set (batches mt). well_typed batch preds []"
  shows "ExecuteQueryResult_memtable preds [] mt =
    Some (empty_result\<lparr>res_count := (\<Sum>batch\<leftarrow>batches mt. word_of_nat (card (rows_matching batch preds)))\<rparr>)"
  by (simp add: ExecuteQueryResult_memtable_def value_batches_count[OF assms] empty_result_def)

lemma group_count:
  assumes st: "stored batch rg" and plan: "Plan rt_add helper preds rg [] kind = Inr q"
    and ex: "\<forall>pred\<in>set preds. exact_predicate batch pred"
  shows "ExecuteQueryResult beyond q rg = Some (empty_result\<lparr>res_count := word_of_nat (card (matching_rows batch rg preds))\<rparr>)"
proof -
  let ?n = "batch_rows batch" and ?M = "selected_rows batch rg preds"
  have sane: "\<forall>pred\<in>set preds. sane_predicate batch pred" using ex exact_sane by blast
  obtain m where m: "\<And>b. b < block_total ?n \<Longrightarrow> block_matches beyond q rg b = Some (m b)"
    "(\<Sum>b\<leftarrow>[0..<block_total ?n]. word_of_nat (popcount (m b))) = (word_of_nat (card ?M) :: u64)"
    using stored_masks[OF st plan sane, of beyond] by metis
  have q: "agg_col_idx q = -1" using Plan_runner[OF plan] by metis
  have "result_blocks beyond q rg [0..<block_total ?n] (0, [], []) =
      Some (0 + (\<Sum>b\<leftarrow>[0..<block_total ?n]. word_of_nat (popcount (m b))),
        [] @ concat (map (\<lambda>_. []) [0..<block_total ?n]), [] @ concat (map (\<lambda>_. []) [0..<block_total ?n]))"
    by (rule result_blocks_eq) (use m(1) q in \<open>auto simp: block_values_def\<close>)
  moreover have "concat (map (\<lambda>_. []) xs) = []" for xs :: "nat list" by (induction xs) simp_all
  ultimately have "result_blocks beyond q rg [0..<length (blocks rg)] (0, [], []) = Some (word_of_nat (card ?M), [], [])"
    using m(2) storedD(9)[OF st] by simp
  then show ?thesis using q selected_exact[OF st ex]
    by (simp add: ExecuteQueryResult_def empty_result_def)
qed

lemma merge_counts:
  "res_count (merge_results False (map (\<lambda>n. empty_result\<lparr>res_count := n\<rparr>) ns)) = sum_list ns"
proof -
  have "res_count (fst (fold merge_step (map (\<lambda>n. empty_result\<lparr>res_count := n\<rparr>) ns) acc)) = res_count (fst acc) + sum_list ns" for acc
  proof (induction ns arbitrary: acc)
    case (Cons n ns)
    obtain a b c d where acc: "acc = (a, b, c, d)" by (cases acc)
    show ?case using Cons by (simp add: acc merge_step_def Let_def empty_result_def)
  qed simp
  from this[of "(empty_result, True, [], [])"] show ?thesis
    by (auto simp: merge_results_def Let_def empty_result_def split: prod.split)
qed

text \<open>The matching rows of a table with one row group, in the group and in the memory tables.\<close>

definition table_count :: "record_batch \<Rightarrow> table_state \<Rightarrow> node \<Rightarrow> predicate list \<Rightarrow> u64" where
  "table_count batch ts s preds =
     word_of_nat (card (matching_rows batch (groups s ! hd (persisted_groups ts)) preds)) +
     (\<Sum>b\<leftarrow>memory_batches ts s. word_of_nat (card (rows_matching b preds)))"

lemma table_result_count:
  assumes "persisted_groups ts = [g]" "stored batch (groups s ! g)" "Plan rt_add helper preds (groups s ! g) [] kind = Inr q"
    and "\<forall>pred\<in>set preds. exact_predicate batch pred" "\<forall>b\<in>set (memory_batches ts s). well_typed b preds []"
  shows "\<exists>res c'. ExecuteQueryResultTable beyond q ts s c = (Some res, c') \<and> res_count res = table_count batch ts s preds"
proof -
  let ?mem = "optional (active_memtable ts) @ optional (frozen_memtable ts)"
  let ?cnt = "\<lambda>m. \<Sum>b\<leftarrow>batches (memtables s ! m). (word_of_nat (card (rows_matching b preds)) :: u64)"
  let ?ns = "word_of_nat (card (matching_rows batch (groups s ! g) preds)) # map ?cnt ?mem"
  have q: "all_predicates q = preds" "agg_col_name q = []" "agg_col_idx q = -1"
    using Plan_query[OF assms(3)] Plan_runner[OF assms(3)] by metis+
  have mem: "ExecuteQueryResult_memtable preds [] (memtables s ! m) = Some (empty_result\<lparr>res_count := ?cnt m\<rparr>)" if "m \<in> set ?mem" for m
    using that assms(5) by (intro memtable_count) (auto simp: memory_batches_def)
  have "table_results beyond q ts s = map (\<lambda>n. Some (empty_result\<lparr>res_count := n\<rparr>)) ?ns"
    using group_count[OF assms(2-4), of beyond] mem by (simp add: table_results_def assms(1) q)
  moreover have "\<not> result_is_string q ts s" by (simp add: result_is_string_def q)
  ultimately have "\<exists>c'. ExecuteQueryResultTable beyond q ts s c =
      (Some (merge_results False (map (\<lambda>n. empty_result\<lparr>res_count := n\<rparr>) ?ns)), c')"
    by (auto simp: ExecuteQueryResultTable_def comp_def simp del: list.map)
  moreover have "sum_list ?ns = table_count batch ts s preds"
    by (simp add: table_count_def assms(1) sum_memory[symmetric])
  ultimately show ?thesis using merge_counts[of ?ns] by metis
qed

subsection \<open>The text of a count\<close>

lemma count_projection: "parse_projections ''COUNT(*)'' = [(AGG_COUNT, [])]"
  by (simp add: parse_projections_def parse_projection_def Trim_def is_blank_def tolower_char_def less_eq_char_def char_of_def bit_0)

lemma strip_query_select:
  assumes "select_ok proj tbl ps"
  shows "strip_query (select_text proj tbl ps) = select_text proj tbl ps"
proof -
  have ok: "\<forall>p\<in>set ps. clause_ok p" "ps \<noteq> []" using assms by (simp_all add: select_ok_def)
  have "last (where_text ps) = last (value_of_text (last ps))"
    using where_text_trimmed(2)[OF ok] trimmed_value[of "last ps"] by (simp add: show_clause_def trimmed_def)
  moreover have "where_text ps \<noteq> []" using where_text_trimmed(1)[OF ok] by (simp add: trimmed_def)
  ultimately have l: "last (select_text proj tbl ps) = last (value_of_text (last ps))" "select_text proj tbl ps \<noteq> []"
    by (simp_all add: select_text_def)
  have "is_digit c \<Longrightarrow> c \<noteq> RETURN \<and> c \<noteq> NEWLINE \<and> c \<noteq> CHR '';'' \<and> c \<noteq> CHR '' ''" for c
    by (auto simp: is_digit_def RETURN_def NEWLINE_def less_eq_char_def)
  then have "last (value_of_text (last ps)) \<notin> {RETURN, NEWLINE, CHR '';'', CHR '' ''}"
    using decimal_ends(2) by (auto simp: value_of_text_def to_string_u64_def RETURN_def NEWLINE_def)
  then show ?thesis using l by (cases "select_text proj tbl ps" rule: rev_cases) (simp_all add: strip_query_def)
qed

lemma handle_select:
  assumes "select_ok proj tbl ps" "NUL \<notin> set (select_text proj tbl ps)"
  shows "handle_query P (select_text proj tbl ps @ [NUL]) st =
    ebind (run_select P \<lparr>sq_text = proj, sq_projections = parse_projections proj, sq_table = tbl, sq_predicates = ps\<rparr> st)
      (\<lambda>(res, st1). Inr (query_response P proj res (map fst (parse_projections proj)), st1))"
proof -
  have "c_str (select_text proj tbl ps @ [NUL]) = select_text proj tbl ps"
    using c_str_WriteString[OF assms(2), of "[]"] by (simp add: WriteString_def)
  then show ?thesis by (simp add: handle_query_def strip_query_select[OF assms(1)] parse_select_eq[OF assms(1)])
qed

text \<open>
  Property C35. A count through the wire: for a table with one persisted row group that stores a batch and any
  batches in memory, a client that sends SELECT COUNT(*) with conditions reads back, as the only value of the
  data row, the decimal number of the matching live rows of the row group plus the matching rows in memory.
\<close>

theorem pg_counts_rows:
  assumes "select_ok ''COUNT(*)'' tbl ps" "NUL \<notin> set (select_text ''COUNT(*)'' tbl ps)" "no_word ''join'' tbl"
    and "GetGlobalState tbl (pg_node st) = Some ts" "persisted_groups ts = [g]" "stored batch (groups (pg_node st) ! g)"
    and "Plan (pg_rt_add P) (pg_helper P) ps (groups (pg_node st) ! g) [] AGG_COUNT = Inr q"
    and "\<forall>pred\<in>set ps. exact_predicate batch pred" "\<forall>b\<in>set (memory_batches ts (pg_node st)). well_typed b ps []"
  shows "\<exists>response st' columns row rest. handle_query P (select_text ''COUNT(*)'' tbl ps @ [NUL]) st = Inr (response, st') \<and>
    client_messages response = Some ((CHR ''T'', columns) # (CHR ''D'', row) # rest) \<and>
    client_row row = Some [to_string_u64 (table_count batch ts (pg_node st) ps)]"
proof -
  let ?sq = "\<lparr>sq_text = ''COUNT(*)'', sq_projections = [(AGG_COUNT, [])], sq_table = tbl, sq_predicates = ps\<rparr>"
  obtain res c where r: "ExecuteQueryResultTable (pg_beyond P) q ts (pg_node st) (pg_counters st) = (Some res, c)"
      "res_count res = table_count batch ts (pg_node st) ps"
    using table_result_count[OF assms(5,6,7,8,9)] by metis
  let ?st = "st\<lparr>pg_counters := c\<rparr>" and ?resp = "query_response P ''COUNT(*)'' res [AGG_COUNT]"
  have "run_select P ?sq st = Inr (res, ?st)"
    using assms(3-5,7) r(1) by (simp add: run_select_def is_join_def no_word_def run_table_def run_planned_def)
  then have h: "handle_query P (select_text ''COUNT(*)'' tbl ps @ [NUL]) st = Inr (?resp, ?st)"
    by (simp add: handle_select[OF assms(1,2)] count_projection)
  have "length (data_row P res [AGG_COUNT]) < 2 ^ 31 - 4"
    using length_to_string_u64[of "res_count res"] by (simp add: data_row_def data_value_def)
  moreover have "length (row_description ''COUNT(*)'' res [AGG_COUNT]) < 2 ^ 31 - 4"
    by (simp add: row_description_def field_description_def WriteString_def)
  ultimately obtain columns row where "client_messages ?resp =
      Some [(CHR ''T'', columns), (CHR ''D'', row), (CHR ''C'', ''SELECT 1'' @ [NUL]), (CHR ''Z'', ''I'')]"
      "client_row row = Some [value_text P res AGG_COUNT]"
    using response_read[of "''COUNT(*)''" "[AGG_COUNT]" res P] by auto
  then show ?thesis using h r(2) by auto
qed

definition demo_pg :: pg_state where
  "demo_pg = \<lparr>pg_node = (demo_node [Some 7, Some 3] [Some 9, Some 5, Some 1])\<lparr>global_tables := [''t'' \<mapsto> demo_table]\<rparr>,
     pg_counters = Map.empty, pg_coordinator = \<lparr>num_nodes = 0, node_addresses = [], cluster_nodes = []\<rparr>\<rparr>"

lemma demo_pg_node:
  "GetGlobalState ''t'' (pg_node demo_pg) = Some demo_table"
  "groups (pg_node demo_pg) ! 0 = ids_group [Some 7, Some 3]"
  "memory_batches demo_table (pg_node demo_pg) = [ids_batch [Some 9, Some 5, Some 1]]"
  using demo_table_rows(4,6) by (simp_all add: demo_pg_def GetGlobalState_def memory_batches_def)

lemma demo_select:
  "select_text ''COUNT(*)'' ''t'' [id_above 4] = ''SELECT COUNT(*) FROM t WHERE id > 4''"
  "select_ok ''COUNT(*)'' ''t'' [id_above 4]"
proof -
  have four: "to_string_u64 4 = ''4''" by (simp add: to_string_u64_def decimal.simps[of 4] char_of_def bit_0)
  have clause: "show_clause (id_above 4) = ''id > 4''" by (simp add: show_clause_def id_above_def value_of_text_def four)
  show shown: "select_text ''COUNT(*)'' ''t'' [id_above 4] = ''SELECT COUNT(*) FROM t WHERE id > 4''"
    by (simp add: select_text_def where_text_def clause)
  have "clause_ok (id_above 4)"
    by (simp add: clause_ok_def clause no_word_def)
      (simp add: id_above_def value_of_text_def four trimmed_def is_blank_def find_from_def is_at_def upt_rec tolower_char_def less_eq_char_def)
  moreover have "no_word ''from'' ''COUNT(*)''" "no_word ''where'' ''COUNT(*)''" "no_word ''where'' ''t''"
    by (simp_all add: no_word_def find_from_def is_at_def upt_rec tolower_char_def less_eq_char_def char_of_def bit_0)
  ultimately show "select_ok ''COUNT(*)'' ''t'' [id_above 4]"
    unfolding select_ok_def shown by (simp add: trimmed_def is_blank_def)
qed

theorem pg_counts_rows_witness:
  "\<exists>response st' columns row rest. handle_query demo_params (''SELECT COUNT(*) FROM t WHERE id > 4'' @ [NUL]) demo_pg = Inr (response, st') \<and>
    client_messages response = Some ((CHR ''T'', columns) # (CHR ''D'', row) # rest) \<and> client_row row = Some [''3'']"
proof -
  obtain q where q: "Plan (pg_rt_add demo_params) (pg_helper demo_params) [id_above 4] (groups (pg_node demo_pg) ! 0) [] AGG_COUNT = Inr q"
    using ids_plan[of "[Some 7, Some 3]"] by (auto simp: demo_params_def demo_pg_node)
  have three: "to_string_u64 3 = ''3''" by (simp add: to_string_u64_def decimal.simps[of 3] char_of_def bit_0)
  have "table_count (ids_batch [Some 7, Some 3]) demo_table (pg_node demo_pg) [id_above 4] = 3"
    using demo_table_rows by (simp add: table_count_def demo_pg_node)
  moreover have "no_word ''join'' ''t''" by (simp add: no_word_def find_from_def is_at_def upt_rec tolower_char_def less_eq_char_def)
  moreover have "stored (ids_batch [Some 7, Some 3]) (groups (pg_node demo_pg) ! 0)" by (simp add: demo_pg_node ids_stored)
  ultimately show ?thesis
    using pg_counts_rows[OF demo_select(2) _ _ demo_pg_node(1) demo_table_rows(5) _ q, of "ids_batch [Some 7, Some 3]"]
      demo_table_rows(3) ids_exact by (simp add: demo_select(1) demo_pg_node three)
qed

subsection \<open>Queries without conditions\<close>

definition has_rows :: "table_state \<Rightarrow> node \<Rightarrow> bool" where
  "has_rows ts s \<longleftrightarrow> persisted_groups ts \<noteq> [] \<or>
     (\<exists>m. active_memtable ts = Some m \<and> GetRowCount (memtables s ! m) \<noteq> 0 \<and> GetBatches (memtables s ! m) \<noteq> [])"

lemma plan_without_predicates: "Plan rt_add helper [] rg agg kind = Inl No_predicates"
  by (simp add: Plan_def final_ops_def empty_plan_def)

text \<open>
  Property C38. A query without conditions ends the server: for every SELECT without WHERE on a registered table
  that holds rows, the planner's exception leaves the handler thread and terminates the process, after which
  nothing of the session is answered.
\<close>

theorem select_without_conditions_ends_process:
  assumes "NUL \<in> set payload" "parse_select (strip_query (c_str payload)) = Select sq" "sq_predicates sq = []"
    and "sq_projections sq \<noteq> []" "\<not> is_join (sq_table sq)"
    and "GetGlobalState (sq_table sq) (pg_node st) = Some ts" "has_rows ts (pg_node st)"
    and "recv_body rest = Inr (payload, rest1)"
  shows "handle_query P payload st = Inl Process_terminated \<and>
    commands P (''Q'' # rest) sent st = (Process_terminated, sent, st)"
proof (rule conjI)
  obtain kind col ps where p: "sq_projections sq = (kind, col) # ps" using assms(4) by (cases "sq_projections sq") auto
  have planned: "run_planned P [] kind col rg ts st = Inl Process_terminated" for rg
    by (simp add: run_planned_def plan_without_predicates)
  have "run_table P [] kind col ts st = Inl Process_terminated"
    using assms(7) planned by (auto simp: run_table_def has_rows_def split: list.split sum.split)
  then show h: "handle_query P payload st = Inl Process_terminated"
    using assms(1-3,5,6) p by (simp add: handle_query_def run_select_def)
  then show "commands P (''Q'' # rest) sent st = (Process_terminated, sent, st)"
    using assms(8) by (subst commands.simps) (simp add: recv_n_def)
qed

lemma demo_select_all:
  "parse_select ''SELECT COUNT(*) FROM t'' =
    Select \<lparr>sq_text = ''COUNT(*)'', sq_projections = [(AGG_COUNT, [])], sq_table = ''t'', sq_predicates = []\<rparr>"
proof -
  let ?q = "''SELECT COUNT(*) FROM t''"
  have low: "lowercase ?q = ''select count(*) from t''" by (simp add: tolower_char_def less_eq_char_def char_of_def bit_0)
  have "find_first ''select count(*) from t'' ''select'' = Some 0" "find_first ''select count(*) from t'' ''from'' = Some 16"
    "find_first ''select count(*) from t'' ''where'' = None"
    by (simp_all add: find_from_def is_at_def upt_rec)
  then have wp: "word_pos (lowercase ?q) ''select'' = 0" "word_pos (lowercase ?q) ''from'' = 16" "word_pos (lowercase ?q) ''where'' = -1"
    unfolding low by (simp_all add: word_pos_def position_def)
  have "cut ?q (0 + 6) 16 = '' COUNT(*) ''" "drop (unat (16 + 4 :: u64)) ?q = '' t''"
    by (simp_all add: cut_def substr_def)
  then have "Trim (cut ?q (0 + 6) 16) = ''COUNT(*)''" "Trim (drop (unat (16 + 4 :: u64)) ?q) = ''t''"
    by (simp_all add: Trim_def is_blank_def)
  then show ?thesis unfolding parse_select_def Let_def wp by (simp add: parse_where_def count_projection)
qed

theorem select_without_conditions_ends_process_witness:
  "commands demo_params [''Q'', WriteInt32 27, ''SELECT COUNT(*) FROM t'' @ [NUL]] [] demo_pg = (Process_terminated, [], demo_pg)"
proof -
  let ?q = "''SELECT COUNT(*) FROM t''"
  have "c_str (?q @ [NUL]) = ?q" using c_str_WriteString[of ?q "[]"] by (simp add: WriteString_def)
  moreover have "strip_query ?q = ?q" by (simp add: strip_query_def RETURN_def NEWLINE_def)
  ultimately have parsed: "parse_select (strip_query (c_str (?q @ [NUL]))) =
      Select \<lparr>sq_text = ''COUNT(*)'', sq_projections = [(AGG_COUNT, [])], sq_table = ''t'', sq_predicates = []\<rparr>"
    by (simp only: demo_select_all)
  have "read_int32 (WriteInt32 27) = 27" using read_WriteInt32[of 27 "[]"] by simp
  then have "recv_body [WriteInt32 27, ?q @ [NUL]] = Inr (?q @ [NUL], [])"
    by (simp add: recv_body_def recv_payload_def recv_n_def)
  then show ?thesis
    using select_without_conditions_ends_process[OF _ parsed, of demo_pg demo_table "[WriteInt32 27, ?q @ [NUL]]" "[]" demo_params "[]"]
      demo_pg_node(1) demo_table_rows(5)
    by (simp add: has_rows_def is_join_def find_from_def is_at_def upt_rec tolower_char_def less_eq_char_def)
qed

end
