(* ===== verification/Shm_Bridge.thy ===== *)
theory Shm_Bridge
  imports Prelude
begin

text \<open>
  The shared-memory segment of \<open>src/shm_bridge.cpp\<close>. A segment is an object of the system that names, descriptors
  and mappings refer to: unlinking takes away the name, and the object lives on behind the mappings. The answers
  of the system to the calls of one constructor are the record \<open>shm_answers\<close>.
\<close>

subsection \<open>Segments\<close>

record shm_os =
  names :: "string \<rightharpoonup> nat"
  objects :: "bytes list"
  fds :: "int \<rightharpoonup> nat"
  maps :: "u64 \<rightharpoonup> nat \<times> nat"

record shm_answers =
  shm_open_fd :: int
  truncate_ok :: bool
  mmap_at :: "u64 option"

record shm_bridge =
  shm_name :: string
  shm_fd :: int
  shm_size :: nat
  shm_addr :: "u64 option"
  is_creator :: bool

datatype shm_error = Create_failed | Truncate_failed | Mmap_failed | Attach_failed | Mmap_attach_failed

definition shm_path :: "string \<Rightarrow> string" where
  "shm_path name = (if name = [] \<or> hd name \<noteq> CHR ''/'' then CHR ''/'' # name else name)"

text \<open>\<open>shm_open\<close> with \<open>O_CREAT | O_TRUNC\<close>: an existing object is emptied, a new one is empty.\<close>

definition shm_open_create :: "int \<Rightarrow> string \<Rightarrow> shm_os \<Rightarrow> nat \<times> shm_os" where
  "shm_open_create fd path s = (case names s path of
     Some obj \<Rightarrow> (obj, s\<lparr>objects := (objects s)[obj := []], fds := (fds s)(fd \<mapsto> obj)\<rparr>)
   | None \<Rightarrow> (length (objects s), s\<lparr>names := (names s)(path \<mapsto> length (objects s)), objects := objects s @ [[]],
       fds := (fds s)(fd \<mapsto> length (objects s))\<rparr>))"

definition close_shm :: "int \<Rightarrow> shm_os \<Rightarrow> shm_os" where
  "close_shm fd s = s\<lparr>fds := (fds s)(fd := None)\<rparr>"

definition shm_unlink :: "string \<Rightarrow> shm_os \<Rightarrow> shm_os" where
  "shm_unlink path s = s\<lparr>names := (names s)(path := None)\<rparr>"

definition create_segment :: "shm_answers \<Rightarrow> string \<Rightarrow> nat \<Rightarrow> shm_os \<Rightarrow> (shm_error + shm_bridge) \<times> shm_os" where
  "create_segment sys path sz s =
     (let fd = shm_open_fd sys
      in if fd < 0 then (Inl Create_failed, s)
         else (case shm_open_create fd path s of (obj, s1) \<Rightarrow>
           if \<not> truncate_ok sys then (Inl Truncate_failed, shm_unlink path (close_shm fd s1))
           else (let s2 = s1\<lparr>objects := (objects s1)[obj := replicate sz CHR 0x00]\<rparr>
             in case mmap_at sys of
               None \<Rightarrow> (Inl Mmap_failed, shm_unlink path (close_shm fd s2))
             | Some addr \<Rightarrow>
                 (Inr \<lparr>shm_name = path, shm_fd = fd, shm_size = sz, shm_addr = Some addr, is_creator = True\<rparr>,
                  s2\<lparr>maps := (maps s2)(addr \<mapsto> (obj, sz))\<rparr>))))"

definition attach_segment :: "shm_answers \<Rightarrow> string \<Rightarrow> nat \<Rightarrow> shm_os \<Rightarrow> (shm_error + shm_bridge) \<times> shm_os" where
  "attach_segment sys path sz s =
     (let fd = shm_open_fd sys
      in case names s path of
        None \<Rightarrow> (Inl Attach_failed, s)
      | Some obj \<Rightarrow>
          if fd < 0 then (Inl Attach_failed, s)
          else (let s1 = s\<lparr>fds := (fds s)(fd \<mapsto> obj)\<rparr>
            in case mmap_at sys of
              None \<Rightarrow> (Inl Mmap_attach_failed, close_shm fd s1)
            | Some addr \<Rightarrow>
                (Inr \<lparr>shm_name = path, shm_fd = fd, shm_size = sz, shm_addr = Some addr, is_creator = False\<rparr>,
                 s1\<lparr>maps := (maps s1)(addr \<mapsto> (obj, sz))\<rparr>)))"

definition new_bridge :: "shm_answers \<Rightarrow> string \<Rightarrow> nat \<Rightarrow> bool \<Rightarrow> shm_os \<Rightarrow> (shm_error + shm_bridge) \<times> shm_os" where
  "new_bridge sys name sz create s =
     (if create then create_segment sys (shm_path name) sz s else attach_segment sys (shm_path name) sz s)"

definition destroy_bridge :: "shm_bridge \<Rightarrow> shm_os \<Rightarrow> shm_os" where
  "destroy_bridge b s =
     (let s1 = (case shm_addr b of None \<Rightarrow> s | Some addr \<Rightarrow> s\<lparr>maps := (maps s)(addr := None)\<rparr>);
          s2 = (if 0 \<le> shm_fd b then close_shm (shm_fd b) s1 else s1)
      in if is_creator b then shm_unlink (shm_name b) s2 else s2)"

definition GetAddr :: "shm_bridge \<Rightarrow> u64 option" where
  "GetAddr b = shm_addr b"

text \<open>
  What a process sees and writes through a mapping. An access past the end of the object fails (the system sends
  \<open>SIGBUS\<close>): the whole segment is read only if the object still has its size.
\<close>

definition shm_read :: "shm_bridge \<Rightarrow> shm_os \<Rightarrow> bytes option" where
  "shm_read b s = Option.bind (GetAddr b) (\<lambda>addr. Option.bind (maps s addr) (\<lambda>(obj, sz).
     if sz \<le> length (objects s ! obj) then Some (take sz (objects s ! obj)) else None))"

definition shm_write :: "shm_bridge \<Rightarrow> nat \<Rightarrow> char \<Rightarrow> shm_os \<Rightarrow> shm_os option" where
  "shm_write b off c s = Option.bind (GetAddr b) (\<lambda>addr. Option.bind (maps s addr) (\<lambda>(obj, sz).
     if off < sz \<and> off < length (objects s ! obj) then Some (s\<lparr>objects := (objects s)[obj := (objects s ! obj)[off := c]]\<rparr>) else None))"

subsection \<open>Lifecycle\<close>

definition shm_ok :: "shm_os \<Rightarrow> bool" where
  "shm_ok s \<longleftrightarrow> (\<forall>obj\<in>ran (names s). obj < length (objects s))"

definition shm_fresh :: "shm_answers \<Rightarrow> shm_os \<Rightarrow> bool" where
  "shm_fresh sys s \<longleftrightarrow> fds s (shm_open_fd sys) = None \<and> (\<forall>a. mmap_at sys = Some a \<longrightarrow> maps s a = None)"

lemma shm_path_path: "shm_path (shm_path name) = shm_path name"
  by (simp add: shm_path_def)

lemma fun_upd_back: "f x = None \<Longrightarrow> f(x := None) = f"
  by auto

lemma new_bridge_releases:
  assumes "shm_fresh sys s" "new_bridge sys name sz create s = (r, s1)"
  shows "case r of Inl e \<Rightarrow> fds s1 = fds s \<and> maps s1 = maps s
    | Inr b \<Rightarrow> fds (destroy_bridge b s1) = fds s \<and> maps (destroy_bridge b s1) = maps s"
  using assms
  by (auto simp: new_bridge_def create_segment_def attach_segment_def shm_open_create_def destroy_bridge_def close_shm_def shm_unlink_def
      shm_fresh_def Let_def fun_upd_back split: if_splits option.splits)

lemma create_segment_result:
  assumes "shm_ok s" "create_segment sys path sz s = (Inr b, s1)"
  shows "\<exists>obj addr. names s1 path = Some obj \<and> obj < length (objects s1) \<and> maps s1 addr = Some (obj, sz) \<and>
    b = \<lparr>shm_name = path, shm_fd = shm_open_fd sys, shm_size = sz, shm_addr = Some addr, is_creator = True\<rparr> \<and>
    objects s1 ! obj = replicate sz CHR 0x00"
  using assms
  by (auto simp: create_segment_def shm_open_create_def shm_ok_def Let_def ran_def split: if_splits option.splits)

lemma attach_segment_result:
  assumes "attach_segment sys path sz s = (Inr b, s1)" "names s path = Some obj"
  shows "\<exists>addr. mmap_at sys = Some addr \<and> maps s1 = (maps s)(addr \<mapsto> (obj, sz)) \<and> objects s1 = objects s \<and> names s1 = names s \<and>
    shm_addr b = Some addr"
  using assms by (auto simp: attach_segment_def Let_def split: if_splits option.splits)

lemma creator_and_reader_share:
  assumes "shm_ok s" "new_bridge sys name sz True s = (Inr creator, s1)"
    and "shm_fresh sys' s1" "new_bridge sys' (shm_path name) sz False s1 = (Inr reader, s2)" "off < sz"
  shows "\<exists>s3. shm_write creator off c s2 = Some s3 \<and> shm_read reader s3 = Some ((replicate sz CHR 0x00)[off := c])"
proof -
  obtain obj addr where c: "names s1 (shm_path name) = Some obj" "obj < length (objects s1)" "maps s1 addr = Some (obj, sz)"
      "shm_addr creator = Some addr" "objects s1 ! obj = replicate sz CHR 0x00"
    using create_segment_result[OF assms(1), of sys "shm_path name" sz creator s1] assms(2) by (auto simp: new_bridge_def)
  obtain addr' where a: "mmap_at sys' = Some addr'" "maps s2 = (maps s1)(addr' \<mapsto> (obj, sz))" "objects s2 = objects s1"
      "shm_addr reader = Some addr'"
    using attach_segment_result[of sys' "shm_path name" sz s1 reader s2 obj] assms(4) c(1) by (auto simp: new_bridge_def shm_path_path)
  have "addr' \<noteq> addr" using assms(3) a(1) c(3) by (auto simp: shm_fresh_def)
  then have "maps s2 addr = Some (obj, sz)" "maps s2 addr' = Some (obj, sz)" using a(2) c(3) by simp_all
  then show ?thesis using assms(5) a(3,4) c(2,4,5) by (simp add: shm_write_def shm_read_def GetAddr_def)
qed

text \<open>
  Property C39. Creator and reader share one segment and neither leaks, whatever the system answers to either of them. A
  creator that fails at any call leaves descriptors and mappings as they were, and one that succeeds gives them back
  when it is destroyed. A reader that attaches under the same name, with or without the leading slash, does the same; if
  it succeeds, a byte the creator writes is the byte the reader sees, all others being zero.
\<close>

theorem shm_shared_and_released:
  assumes "shm_ok s" "shm_fresh sys s" "new_bridge sys name sz True s = (r, s1)"
  shows "case r of
      Inl e \<Rightarrow> fds s1 = fds s \<and> maps s1 = maps s
    | Inr creator \<Rightarrow> fds (destroy_bridge creator s1) = fds s \<and> maps (destroy_bridge creator s1) = maps s \<and>
        (\<forall>sys' r' s2. shm_fresh sys' s1 \<longrightarrow> new_bridge sys' (shm_path name) sz False s1 = (r', s2) \<longrightarrow>
          (case r' of
             Inl e \<Rightarrow> fds s2 = fds s1 \<and> maps s2 = maps s1
           | Inr reader \<Rightarrow> fds (destroy_bridge reader s2) = fds s1 \<and> maps (destroy_bridge reader s2) = maps s1 \<and>
               (\<forall>off c. off < sz \<longrightarrow> (\<exists>s3. shm_write creator off c s2 = Some s3 \<and>
                  shm_read reader s3 = Some ((replicate sz CHR 0x00)[off := c])))))"
proof (cases r)
  case (Inl e)
  then show ?thesis using new_bridge_releases[OF assms(2,3)] by simp
next
  case (Inr creator)
  have made: "fds (destroy_bridge creator s1) = fds s \<and> maps (destroy_bridge creator s1) = maps s"
    using new_bridge_releases[OF assms(2,3)] Inr by simp
  have "case r' of
      Inl e \<Rightarrow> fds s2 = fds s1 \<and> maps s2 = maps s1
    | Inr reader \<Rightarrow> fds (destroy_bridge reader s2) = fds s1 \<and> maps (destroy_bridge reader s2) = maps s1 \<and>
        (\<forall>off c. off < sz \<longrightarrow> (\<exists>s3. shm_write creator off c s2 = Some s3 \<and>
           shm_read reader s3 = Some ((replicate sz CHR 0x00)[off := c])))"
    if fresh: "shm_fresh sys' s1" and attach: "new_bridge sys' (shm_path name) sz False s1 = (r', s2)" for sys' r' s2
  proof (cases r')
    case (Inl e)
    then show ?thesis using new_bridge_releases[OF fresh attach] by simp
  next
    case (Inr reader)
    then show ?thesis
      using new_bridge_releases[OF fresh attach] creator_and_reader_share[OF assms(1) _ fresh] assms(3) attach \<open>r = Inr creator\<close>
      by auto
  qed
  then show ?thesis using made Inr by (simp del: split_paired_All)
qed

text \<open>A creation that fails halfway takes the name away from whoever owned the segment.\<close>

lemma failed_creation_unlinks:
  assumes "names s path = Some obj" "0 \<le> shm_open_fd sys" "\<not> truncate_ok sys \<or> mmap_at sys = None"
  shows "names (snd (create_segment sys path sz s)) path = None"
  using assms by (auto simp: create_segment_def shm_open_create_def shm_unlink_def close_shm_def Let_def split: option.splits)

definition no_segments :: shm_os where
  "no_segments = \<lparr>names = Map.empty, objects = [], fds = Map.empty, maps = Map.empty\<rparr>"

theorem shm_shared_and_released_witness:
  "\<exists>creator s1 reader s2 s3. new_bridge \<lparr>shm_open_fd = 3, truncate_ok = True, mmap_at = Some 4096\<rparr> ''planes'' 4 True no_segments = (Inr creator, s1) \<and>
    new_bridge \<lparr>shm_open_fd = 4, truncate_ok = True, mmap_at = Some 8192\<rparr> ''/planes'' 4 False s1 = (Inr reader, s2) \<and>
    shm_write creator 1 CHR ''x'' s2 = Some s3 \<and> shm_read reader s3 = Some [CHR 0x00, CHR ''x'', CHR 0x00, CHR 0x00]"
proof -
  let ?sys = "\<lparr>shm_open_fd = 3, truncate_ok = True, mmap_at = Some 4096\<rparr>" and ?sys' = "\<lparr>shm_open_fd = 4, truncate_ok = True, mmap_at = Some 8192\<rparr>"
  let ?b = "\<lparr>shm_name = ''/planes'', shm_fd = 3, shm_size = 4, shm_addr = Some 4096, is_creator = True\<rparr>"
  let ?r = "\<lparr>shm_name = ''/planes'', shm_fd = 4, shm_size = 4, shm_addr = Some 8192, is_creator = False\<rparr>"
  let ?s1 = "\<lparr>names = [''/planes'' \<mapsto> 0], objects = [replicate 4 CHR 0x00], fds = [3 \<mapsto> 0], maps = [4096 \<mapsto> (0, 4)]\<rparr>"
  let ?s2 = "?s1\<lparr>fds := [3 \<mapsto> 0, 4 \<mapsto> 0], maps := [4096 \<mapsto> (0, 4), 8192 \<mapsto> (0, 4)]\<rparr>"
  have path: "shm_path ''planes'' = ''/planes''" "shm_path ''/planes'' = ''/planes''" by (simp_all add: shm_path_def)
  have b: "new_bridge ?sys ''planes'' 4 True no_segments = (Inr ?b, ?s1)"
    by (simp add: new_bridge_def path create_segment_def shm_open_create_def no_segments_def)
  have r: "new_bridge ?sys' (shm_path ''planes'') 4 False ?s1 = (Inr ?r, ?s2)"
    by (simp add: new_bridge_def path attach_segment_def)
  have fresh: "shm_ok no_segments" "shm_fresh ?sys no_segments" "shm_fresh ?sys' ?s1"
    by (simp_all add: shm_ok_def shm_fresh_def no_segments_def)
  note both = shm_shared_and_released[OF fresh(1,2) b, unfolded sum.case]
  have "\<forall>off c. off < 4 \<longrightarrow> (\<exists>s3. shm_write ?b off c ?s2 = Some s3 \<and> shm_read ?r s3 = Some ((replicate 4 CHR 0x00)[off := c]))"
    using both[THEN conjunct2, THEN conjunct2, rule_format, OF fresh(3) r] unfolding sum.case by blast
  then obtain s3 where "shm_write ?b 1 CHR ''x'' ?s2 = Some s3" "shm_read ?r s3 = Some ((replicate 4 CHR 0x00)[1 := CHR ''x''])"
    by (metis one_less_numeral_iff semiring_norm(76))
  then show ?thesis using b r unfolding path by (intro exI conjI) (assumption | simp add: numeral_eq_Suc)+
qed

end
