(* ===== verification/Spec2Isabelle.thy ===== *)
theory Spec2Isabelle
  imports Exporter Interleaving Distributed_Join Benchmark Pg_Query Shm_Bridge
begin

text \<open>
  \<^bold>\<open>GreenGate: a verification development\<close>

  GreenGate is a bit-sliced column store. It has two storage paths that share no code.

  The engine proper, under \<open>src/lex\<close>. An Arrow batch is ingested into a row group: blocks of 64 rows, each physical
  column a tile of 64 bit planes (plane \<open>j\<close> holds bit \<open>j\<close> of all rows), the strings of a block in a tail payload,
  and for a string column two tiles, the first four bytes of each string (the skeleton) and a 64-bit filter of its
  bigrams (the KIM signature). A query is a conjunction of predicates and one aggregate. The planner turns it into
  micro operations on tiles, a JIT compiler turns these into A64 instructions, the runner calls the generated code
  once per block and verifies the candidates of string predicates on the tail. Tables grow by insertion into a
  memory table, rows are deleted by tombstone bits, and a background daemon compacts both into fresh row groups.
  Nodes of a cluster join two tables by shuffling signatures of rows in datagrams. A server speaks the PostgreSQL
  wire protocol on top. Row groups are written to and read from the CBST format.

  The first path, directly under \<open>src\<close>. Arrow batches are sliced by a third-party engine (apex), stored as AGB
  objects in S3, cached locally, and queried by a daemon with a one-line protocol and a small predicate language.

  \<^bold>\<open>The theories and the code\<close>

  \<^item> \<open>Prelude\<close>: machine integers (\<open>u16\<close>, \<open>u32\<close>, \<open>u64\<close> are words, their arithmetic wraps), bytes (\<open>char\<close>), the error
    monad \<open>ebind\<close>, \<open>emap\<close> over sums, little-endian encodings, and the collections \<open>length_simps\<close>, \<open>word_read\<close>,
    \<open>step_defs\<close>. \<open>Std_String\<close>: \<open>find\<close>, \<open>substr\<close>, \<open>to_string\<close> and the other operations of \<open>std::string\<close>. \<open>Arrow\<close>: an
    Arrow array or batch is the record of what its accessors answer; \<open>arrow_batch\<close> states that they agree.
  \<^item> \<open>Transposer\<close> (\<open>lex/ingest/simd_transposer.cpp\<close>): the butterfly network, one definition per stage, in its scalar and
    its NEON form. It is proved to transpose (C2), the C entry point to invert it (C3), and
    the NEON lanes to compute the scalar network (C4).
  \<^item> \<open>Row_Group\<close> (\<open>lex/storage\<close>): tiles, blocks and row groups as records; \<open>tile_scalar\<close> reads a tile by rows.
  \<^item> \<open>Exporter\<close> (\<open>lex/storage/exporter.cpp\<close>): the CBST image byte for byte. Round trip (C5), no read past the end of the
    buffer for any input (C6), alignment of the sections (C7), what is accepted has the shape its header states (C8).
  \<^item> \<open>Kim\<close>, \<open>Tail_Payload\<close>, \<open>Ingester\<close> (\<open>lex/ingest/adaptive_ingester.cpp\<close>): signatures, tails, ingestion. Signatures have
    no false negatives for patterns of two bytes (C10), and every cell of a batch can be read back (C9).
  \<^item> \<open>Micro_Op\<close>, \<open>A64\<close>, \<open>Compiler\<close>, \<open>Compiler_Correct\<close> (\<open>lex/jit/micro_op_compiler.cpp\<close>): the micro operations with their meaning on
    tiles; the instructions the compiler emits with their architectural meaning on registers, stack slots and memory;
    register allocation, unrolled loops, prologue and epilogue. Calling the generated code returns the mask the
    micro operations mean and restores what the calling convention protects (C11); which programs are accepted (C12).
  \<^item> \<open>Planner\<close>, \<open>Runner\<close>, \<open>Query_Result\<close> (\<open>lex/jit/query_planner.cpp\<close>), with \<open>Query_Correct\<close>, \<open>Execute_Correct\<close> and \<open>Query_Limits\<close> for
    the theorems: \<open>Plan\<close>, the scan of a row group, count and bit-plane sum, and the other aggregates. Plan, compiled
    code and verification together compute the filter on the rows of the batch (C1, C15); where they do not (C13, C14).
  \<^item> \<open>Mem_Table\<close> (\<open>lex/lsm/mem_table.cpp\<close>): the row-at-a-time evaluation, compared with the scan: where the two agree cell by
    cell they answer alike (C16), and they differ on exactly certain nulls and numbers of different signs (C17).
  \<^item> \<open>Registry\<close> (\<open>lex/lsm/metadata_registry.cpp\<close>, \<open>lex/distributed/global_metadata.cpp\<close>): a table state is an immutable snapshot
    whose row groups and memory tables are addresses of a store, because they are shared and changed in place.
    \<open>Table_Query\<close>: queries on a whole table and the access counters (C18).
  \<^item> \<open>Compaction\<close>, \<open>Lsm_Refines\<close>, \<open>Interleaving\<close> (\<open>lex/lsm/promotion_daemon.cpp\<close>): a compaction in its three critical sections. Run
    alone, the operations of a table refine an abstract table of slots and rows in memory (C19 to C21). Interleaved
    with insertions and deletions, as a step relation with one step per critical section, orderly runs are serial runs
    of the abstract table (C22) and a running compaction can end (C23); from every orderly world, an insertion that
    spans the freeze and the collection is lost (C24) and a deletion between collection and publication is undone (C25).
  \<^item> \<open>Srd_Transport\<close>, \<open>Shuffle\<close>, \<open>Coordinator\<close>, \<open>Distributed_Join\<close> (\<open>lex/distributed\<close>): fragmentation and reassembly of messages
    (C28), the two shuffles with replicated hot keys, local hash joins, verification. For every order in which the
    datagrams arrive, the join is the nested loop over the filtered rows (C26, C27), up to the limits of row ids (C29).
  \<^item> \<open>Pg_Wire\<close>, \<open>Pg_Frames\<close>, \<open>Pg_Select\<close>, \<open>Pg_Query\<close> (\<open>lex/ecosystem/pg_wire_server.cpp\<close>): the server from the start-up exchange to
    the bytes of a response; a protocol client that reads them (C36); the SELECT parser against a printer (C37); a
    count from the text of the query to the text of the answer (C35); the query that ends the process (C38).
  \<^item> \<open>Sql_Parser\<close> (\<open>sql_parser.cpp\<close>): tokenizer and recursive descent (C31, C32). \<open>Agb_Storage\<close> (\<open>arrow_connector.cpp\<close>,
    \<open>s3_writer.cpp\<close>, \<open>agb_format.hpp\<close>): slicing, the AGB object, and the writer's queue and worker as a step relation (C33).
    \<open>Local_Cache\<close> (\<open>local_cache.cpp\<close>): files, descriptors and mappings (C34). \<open>Query_Daemon\<close> (\<open>query_daemon.cpp\<close>): from the
    packets of a request to the answer (C30). \<open>Shm_Bridge\<close> (\<open>shm_bridge.cpp\<close>): named segments (C39). \<open>Benchmark\<close> (\<open>main.cpp\<close>,
    \<open>benchmark_client.cpp\<close>, \<open>daemon_main.cpp\<close>): the programs, which pass with an engine that counts correctly (C40).

  \<^bold>\<open>How the state corresponds\<close>

  Classes are records with the fields of the class, methods are functions from the old record to the new one, in
  the code's argument order with the object last where a state is threaded. Exceptions and early error returns are
  \<open>Inl\<close> of a datatype with one constructor per throw; undefined behaviour (an unchecked cast, a read outside a vector, a
  null shared pointer) is a value of its own, \<open>None\<close> or a constructor, never a convenient result. Locks make the
  operations of the registries and of the memory tables atomic; where an operation of the code spans more than one
  critical section it is cut there.

  \<^bold>\<open>Interfaces\<close>

  \<^item> \<open>bit_emitter\<close> (\<open>Compiler_Correct\<close>): the instructions one plane contributes to a comparison, with the invariant they
    maintain; the unrolled loops are proved once. Interpreted by the four comparisons of the compiler.
  \<^item> \<open>row_store\<close> (\<open>Lsm_Refines\<close>): each operation of a table has its abstract effect; runs then refine abstract runs.
    Interpreted by the registry with its compaction.
  \<^item> \<open>table_catalog\<close> (\<open>Registry\<close>): lookups see the last publication. Interpreted by the local and the global registry.
  \<^item> \<open>tcp_server\<close> (\<open>Query_Daemon\<close>): start and stop of an accepting thread. Interpreted by the daemon and by the PostgreSQL front end.

  \<^bold>\<open>Bounds and fuel\<close>

  The only fuel is that of the recursive descent in \<open>Sql_Parser\<close>: every parser consumes a token before it calls
  itself, so \<open>parse_fuel ts = 4 * length ts + 4\<close> is enough, which C32 states. The loops of the tokenizer, of the bit
  walks over masks and of the wire protocol are functions with termination proofs by the length of the remaining
  input or by the mask. Bounds such as fewer than \<open>2 ^ 63\<close> rows are hypotheses and stand in the theorems; the narrow
  ones (five numeric predicates, 256 nodes, 4096 rows of a batch) are theorems of their own.

  \<^bold>\<open>Parameters\<close>

  Code that is not in the repository is an argument: Arrow arrays and builders (\<open>builder_law\<close> is their documented
  behaviour), the engine of the first path (\<open>query_engine\<close>, \<open>node_builder\<close>, \<open>slicer\<close>; \<open>engine_counts\<close> is what it promises), AsmJit's
  \<open>JitRuntime::add\<close>, libcurl, the answers of the operating system (\<open>syscalls\<close>, \<open>shm_answers\<close>, the accepted descriptors
  and received chunks), the network between the phases of a shuffle (\<open>environment\<close>, with \<open>reliable\<close> and \<open>shuffles\<close> as its
  laws), and the decimal text of a floating-point number.

  \<^bold>\<open>Not modelled\<close>

  Output to the console, clocks and sleeps; the mutexes themselves (an operation under a lock is one step) and data
  races on objects no lock protects; \<open>mlock\<close>, socket options other than \<open>SO_REUSEADDR\<close>, the TLS options of libcurl; floating-point division (an average keeps its operands); the memory-ordering of atomics. The
  tests, CMake files, Docker and Kubernetes descriptions carry no logic of the program. \<open>ShmHeader\<close> is declared in
  the code and used nowhere.
\<close>

end
